(* ===== verification/Prelude.thy ===== *)
theory Prelude
  imports
    Main
    "HOL-Library.Word"
    "HOL-Library.List_Lexorder"
    "HOL-Library.Char_ord"
    "HOL-Library.Product_Lexorder"
    "HOL-Library.Sublist"
    "HOL-Library.Code_Target_Numeral"
begin

text \<open>
  Shared vocabulary of the development: fixed-width integer arithmetic as the Rust
  sources use it, ordered maps and sets (\<open>BTreeMap\<close>, \<open>BTreeSet\<close>) as sorted lists,
  the iterator and slice operations the components call, and the generic lemmas about
  them. Nothing here is specific to one crate.
\<close>

section \<open>Collections of rewrite rules\<close>

named_theorems int_ops \<open>fixed-width integer operations\<close>
named_theorems map_ops \<open>ordered maps and sets\<close>
named_theorems byte_ops \<open>byte strings and slices\<close>

section \<open>Fixed-width integers\<close>

text \<open>
  An unsigned \<open>w\<close>-bit integer is a \<open>nat\<close> below \<open>2 ^ w\<close>. The plain \<open>+\<close> of a release
  build wraps; \<open>checked_add\<close>, \<open>saturating_add\<close> and \<open>saturating_mul\<close> are as in the
  standard library, and \<open>saturating_sub\<close> is subtraction on \<open>nat\<close>.
\<close>

definition wrapping_add :: "nat \<Rightarrow> nat \<Rightarrow> nat \<Rightarrow> nat" where
  "wrapping_add w a b = (a + b) mod 2 ^ w"

definition checked_add :: "nat \<Rightarrow> nat \<Rightarrow> nat \<Rightarrow> nat option" where
  "checked_add w a b = (if a + b < 2 ^ w then Some (a + b) else None)"

definition saturating_add :: "nat \<Rightarrow> nat \<Rightarrow> nat \<Rightarrow> nat" where
  "saturating_add w a b = min (a + b) (2 ^ w - 1)"

definition saturating_mul :: "nat \<Rightarrow> nat \<Rightarrow> nat \<Rightarrow> nat" where
  "saturating_mul w a b = min (a * b) (2 ^ w - 1)"

lemma wrapping_add_small [int_ops]: "a + b < 2 ^ w \<Longrightarrow> wrapping_add w a b = a + b"
  by (simp add: wrapping_add_def)

lemma wrapping_add_bound: "wrapping_add w a b < 2 ^ w"
  by (simp add: wrapping_add_def)

lemma checked_add_Some [int_ops]:
  "checked_add w a b = Some c \<longleftrightarrow> a + b < 2 ^ w \<and> c = a + b"
  by (auto simp: checked_add_def)

lemma checked_add_None [int_ops]: "checked_add w a b = None \<longleftrightarrow> 2 ^ w \<le> a + b"
  by (auto simp: checked_add_def)

lemma saturating_add_small [int_ops]: "a + b < 2 ^ w \<Longrightarrow> saturating_add w a b = a + b"
  by (simp add: saturating_add_def)

lemma saturating_add_bound: "saturating_add w a b < 2 ^ w"
proof -
  have "saturating_add w a b \<le> 2 ^ w - 1" by (simp add: saturating_add_def)
  moreover have "(0::nat) < 2 ^ w" by simp
  ultimately show ?thesis by linarith
qed

lemma saturating_add_ge_left: "a < 2 ^ w \<Longrightarrow> a \<le> saturating_add w a b"
  by (auto simp: saturating_add_def)

text \<open>A signed \<open>w\<close>-bit integer is an \<open>int\<close>; its saturating addition clamps.\<close>

definition saturating_add_signed :: "nat \<Rightarrow> int \<Rightarrow> int \<Rightarrow> int" where
  "saturating_add_signed w a b = max (- (2 ^ (w - 1))) (min (a + b) (2 ^ (w - 1) - 1))"

section \<open>Byte strings\<close>

text \<open>
  A byte is an 8-bit word. \<open>to_le_bytes\<close> and \<open>from_le_bytes\<close> are the little-endian codecs of
  the unsigned integers, \<open>slice\<close> is \<open>&b[i..i + n]\<close> for a range inside the buffer, and
  \<open>write_at\<close> is \<open>b[i..i + n].copy_from_slice(x)\<close>.
\<close>

type_synonym bytes = "8 word list"

fun to_le_bytes :: "nat \<Rightarrow> nat \<Rightarrow> bytes" where
  "to_le_bytes 0 n = []"
| "to_le_bytes (Suc k) n = word_of_nat (n mod 256) # to_le_bytes k (n div 256)"

fun from_le_bytes :: "bytes \<Rightarrow> nat" where
  "from_le_bytes [] = 0"
| "from_le_bytes (b # bs) = unat b + 256 * from_le_bytes bs"

definition slice :: "nat \<Rightarrow> nat \<Rightarrow> 'a list \<Rightarrow> 'a list" where
  "slice i n xs = take n (drop i xs)"

definition write_at :: "nat \<Rightarrow> 'a list \<Rightarrow> 'a list \<Rightarrow> 'a list" where
  "write_at i ys xs = take i xs @ ys @ drop (i + length ys) xs"

lemma length_to_le_bytes [simp]: "length (to_le_bytes k n) = k"
  by (induction k n rule: to_le_bytes.induct) simp_all

lemma from_to_le_bytes [byte_ops]: "n < 256 ^ k \<Longrightarrow> from_le_bytes (to_le_bytes k n) = n"
proof (induction k n rule: to_le_bytes.induct)
  case (2 k n)
  have "n div 256 < 256 ^ k" using "2.prems" by (simp add: less_mult_imp_div_less mult.commute)
  moreover have "unat (word_of_nat (n mod 256) :: 8 word) = n mod 256" by (simp add: unat_of_nat)
  ultimately show ?case using "2.IH" by simp
qed simp

lemma from_le_bytes_bound: "from_le_bytes bs < 256 ^ length bs"
proof (induction bs)
  case (Cons b bs)
  have "unat b < 256" using unsigned_less [of b] by simp
  then show ?case using Cons by simp
qed simp

lemma length_write_at [simp]: "i + length ys \<le> length xs \<Longrightarrow> length (write_at i ys xs) = length xs"
  by (simp add: write_at_def)

lemma slice_write_same [byte_ops]:
  "i + length ys \<le> length xs \<Longrightarrow> n = length ys \<Longrightarrow> slice i n (write_at i ys xs) = ys"
  by (simp add: slice_def write_at_def)

lemma slice_write_before [byte_ops]:
  "j + n \<le> i \<Longrightarrow> i + length ys \<le> length xs \<Longrightarrow> slice j n (write_at i ys xs) = slice j n xs"
  by (simp add: slice_def write_at_def drop_take)

lemma slice_write_after [byte_ops]:
  "i + length ys \<le> j \<Longrightarrow> i + length ys \<le> length xs \<Longrightarrow> slice j n (write_at i ys xs) = slice j n xs"
  by (simp add: slice_def write_at_def)

lemma slice_replicate [byte_ops]: "i + n \<le> m \<Longrightarrow> slice i n (replicate m x) = replicate n x"
  by (simp add: slice_def)

lemma slice_append_left [byte_ops]: "i + n \<le> length xs \<Longrightarrow> slice i n (xs @ ys) = slice i n xs"
  by (simp add: slice_def)

lemma slice_append_right [byte_ops]: "length xs \<le> i \<Longrightarrow> slice i n (xs @ ys) = slice (i - length xs) n ys"
  by (simp add: slice_def)

lemma length_slice [simp]: "i + n \<le> length xs \<Longrightarrow> length (slice i n xs) = n"
  by (simp add: slice_def)

lemma slice_all [simp]: "slice 0 (length xs) xs = xs"
  by (simp add: slice_def)

text \<open>
  A header is a zeroed buffer into which fields are copied one after the other; fields in
  increasing, disjoint ranges are read back as they were written.
\<close>

definition write_fields :: "(nat \<times> 'a list) list \<Rightarrow> 'a list \<Rightarrow> 'a list" where
  "write_fields fs xs = fold (\<lambda>f. write_at (fst f) (snd f)) fs xs"

definition fields_fit :: "nat \<Rightarrow> (nat \<times> 'a list) list \<Rightarrow> bool" where
  "fields_fit n fs \<longleftrightarrow> sorted_wrt (\<lambda>f g. fst f + length (snd f) \<le> fst g) fs \<and>
     list_all (\<lambda>f. fst f + length (snd f) \<le> n) fs"

lemma write_fields_Nil [simp]: "write_fields [] xs = xs"
  by (simp add: write_fields_def)

lemma write_fields_Cons [simp]: "write_fields (f # fs) xs = write_fields fs (write_at (fst f) (snd f) xs)"
  by (simp add: write_fields_def)

lemma fields_fit_Cons: "fields_fit n (f # fs) \<longleftrightarrow>
    fst f + length (snd f) \<le> n \<and> (\<forall>g \<in> set fs. fst f + length (snd f) \<le> fst g) \<and> fields_fit n fs"
  by (auto simp: fields_fit_def)

lemma length_write_fields: "fields_fit (length xs) fs \<Longrightarrow> length (write_fields fs xs) = length xs"
  by (induction fs arbitrary: xs) (simp_all add: fields_fit_Cons)

lemma slice_write_fields_before:
  "fields_fit (length xs) fs \<Longrightarrow> \<forall>f \<in> set fs. i + n \<le> fst f \<Longrightarrow> slice i n (write_fields fs xs) = slice i n xs"
  by (induction fs arbitrary: xs) (simp_all add: fields_fit_Cons byte_ops)

lemma slice_field:
  "fields_fit (length xs) fs \<Longrightarrow> (i, ys) \<in> set fs \<Longrightarrow> n = length ys \<Longrightarrow> slice i n (write_fields fs xs) = ys"
proof (induction fs arbitrary: xs)
  case (Cons f fs)
  have len: "length (write_at (fst f) (snd f) xs) = length xs" using Cons.prems(1) by (simp add: fields_fit_Cons)
  show ?case
  proof (cases "(i, ys) = f")
    case True
    then have "slice i n (write_fields fs (write_at i ys xs)) = slice i n (write_at i ys xs)"
      using Cons.prems len by (intro slice_write_fields_before) (auto simp: fields_fit_Cons)
    then show ?thesis using True Cons.prems by (auto simp: fields_fit_Cons byte_ops)
  next
    case False
    then have "(i, ys) \<in> set fs" using Cons.prems(2) by auto
    then show ?thesis using Cons.IH [of "write_at (fst f) (snd f) xs"] Cons.prems(1,3) len by (simp add: fields_fit_Cons)
  qed
qed simp

lemma slice_write_fields_apart:
  "fields_fit (length xs) fs \<Longrightarrow> \<forall>f \<in> set fs. i + n \<le> fst f \<or> fst f + length (snd f) \<le> i \<Longrightarrow>
     slice i n (write_fields fs xs) = slice i n xs"
  by (induction fs arbitrary: xs) (auto simp: fields_fit_Cons byte_ops)

section \<open>Replacing a file\<close>

text \<open>
  The services replace a file by writing a temporary sibling, renaming it over the target and
  syncing the directory. The outcome is an argument of the operations that do so: success, a
  failure that leaves the old file, or a failure after the rename.
\<close>

datatype io_outcome = IoOk | IoFailedBefore | IoFailedAfter

section \<open>Ordered maps\<close>

text \<open>
  A \<open>BTreeMap\<close> is the list of its entries in key order; iteration is list traversal.
  Lookup after insertion and removal needs no sortedness, so that most proofs about
  lookups carry no side condition; counting entries does (\<open>bt_wf\<close>).
\<close>

type_synonym ('k, 'v) btree = "('k \<times> 'v) list"

definition bt_get :: "('k, 'v) btree \<Rightarrow> 'k \<Rightarrow> 'v option" where
  "bt_get m k = map_of m k"

fun bt_insert :: "'k::linorder \<Rightarrow> 'v \<Rightarrow> ('k, 'v) btree \<Rightarrow> ('k, 'v) btree" where
  "bt_insert k v [] = [(k, v)]"
| "bt_insert k v ((k', v') # m) =
     (if k < k' then (k, v) # (k', v') # m
      else if k = k' then (k, v) # m
      else (k', v') # bt_insert k v m)"

definition bt_remove :: "'k \<Rightarrow> ('k, 'v) btree \<Rightarrow> ('k, 'v) btree" where
  "bt_remove k m = filter (\<lambda>e. fst e \<noteq> k) m"

definition bt_keys :: "('k, 'v) btree \<Rightarrow> 'k list" where
  "bt_keys m = map fst m"

definition bt_values :: "('k, 'v) btree \<Rightarrow> 'v list" where
  "bt_values m = map snd m"

definition bt_contains :: "('k, 'v) btree \<Rightarrow> 'k \<Rightarrow> bool" where
  "bt_contains m k = (bt_get m k \<noteq> None)"

definition bt_map_values :: "('v \<Rightarrow> 'w) \<Rightarrow> ('k, 'v) btree \<Rightarrow> ('k, 'w) btree" where
  "bt_map_values f m = map (\<lambda>(k, v). (k, f v)) m"

definition bt_wf :: "('k::linorder, 'v) btree \<Rightarrow> bool" where
  "bt_wf m = sorted_wrt (<) (map fst m)"

text \<open>\<open>collect::<BTreeMap<_, _>>()\<close>: later entries replace earlier ones.\<close>

definition bt_collect :: "('k::linorder \<times> 'v) list \<Rightarrow> ('k, 'v) btree" where
  "bt_collect xs = fold (\<lambda>(k, v) m. bt_insert k v m) xs []"

lemma bt_get_Nil [simp]: "bt_get [] k = None"
  by (simp add: bt_get_def)

lemma bt_get_Cons [simp]:
  "bt_get ((k', v) # m) k = (if k = k' then Some v else bt_get m k)"
  by (simp add: bt_get_def)

lemma bt_get_insert [simp, map_ops]:
  "bt_get (bt_insert k v m) k' = (if k' = k then Some v else bt_get m k')"
  by (induction k v m rule: bt_insert.induct) auto

lemma bt_get_remove [simp, map_ops]:
  "bt_get (bt_remove k m) k' = (if k' = k then None else bt_get m k')"
  by (induction m) (auto simp: bt_remove_def)

lemma bt_get_map_values [simp, map_ops]:
  "bt_get (bt_map_values f m) k = map_option f (bt_get m k)"
  by (induction m) (auto simp: bt_map_values_def)

lemma bt_contains_insert [simp, map_ops]:
  "bt_contains (bt_insert k v m) k' \<longleftrightarrow> k' = k \<or> bt_contains m k'"
  by (simp add: bt_contains_def)

lemma set_keys_insert [map_ops]: "fst ` set (bt_insert k v m) = insert k (fst ` set m)"
  by (induction k v m rule: bt_insert.induct) auto

lemma bt_insert_not_Nil [simp]: "bt_insert k v m \<noteq> []"
  by (induction k v m rule: bt_insert.induct) auto

lemma bt_insert_overwrite [simp]: "bt_insert k v (bt_insert k w m) = bt_insert k v m"
  by (induction k w m rule: bt_insert.induct) auto

lemma bt_wf_Nil [simp, intro]: "bt_wf []"
  by (simp add: bt_wf_def)

lemma bt_wf_insert [simp, intro]: "bt_wf m \<Longrightarrow> bt_wf (bt_insert k v m)"
proof (induction k v m rule: bt_insert.induct)
  case (2 k v k' v' m)
  have "\<forall>x \<in> fst ` set (bt_insert k v m). k' < x" if "\<not> k < k'" "k \<noteq> k'"
    unfolding set_keys_insert using that "2.prems" by (auto simp: bt_wf_def)
  with 2 show ?case by (auto simp: bt_wf_def)
qed (simp add: bt_wf_def)

lemma bt_wf_remove [simp, intro]: "bt_wf m \<Longrightarrow> bt_wf (bt_remove k m)"
  by (induction m) (auto simp: bt_wf_def bt_remove_def)

lemma keys_map_values [simp]: "map fst (bt_map_values f m) = map fst m"
  by (induction m) (auto simp: bt_map_values_def)

lemma bt_wf_map_values [simp, intro]: "bt_wf m \<Longrightarrow> bt_wf (bt_map_values f m)"
  by (simp add: bt_wf_def)

lemma bt_wf_distinct: "bt_wf m \<Longrightarrow> distinct (map fst m)"
  by (simp add: bt_wf_def strict_sorted_iff)

lemma bt_get_Some_mem: "bt_get m k = Some v \<Longrightarrow> (k, v) \<in> set m"
  by (simp add: bt_get_def map_of_SomeD)

lemma bt_get_iff_mem: "bt_wf m \<Longrightarrow> bt_get m k = Some v \<longleftrightarrow> (k, v) \<in> set m"
  by (simp add: bt_get_def bt_wf_distinct)

lemma bt_contains_iff: "bt_contains m k \<longleftrightarrow> k \<in> set (map fst m)"
  by (induction m) (auto simp: bt_contains_def)

lemma bt_contains_iff_keys: "bt_contains m k \<longleftrightarrow> k \<in> set (bt_keys m)"
  by (simp add: bt_contains_iff bt_keys_def)

lemma bt_insert_length:
  "bt_wf m \<Longrightarrow> length (bt_insert k v m) = (if bt_contains m k then length m else Suc (length m))"
proof -
  assume wf: "bt_wf m"
  have "length (bt_insert k v m) = card (insert k (fst ` set m))"
    unfolding set_keys_insert [of k v m, symmetric]
    using distinct_card [OF bt_wf_distinct [OF bt_wf_insert [OF wf, of k v]]] by simp
  moreover have "card (fst ` set m) = length m"
    using distinct_card [OF bt_wf_distinct [OF wf]] by simp
  ultimately show ?thesis
    by (simp add: bt_contains_iff card_insert_if)
qed

lemma bt_eqI: "bt_wf m \<Longrightarrow> bt_wf n \<Longrightarrow> (\<And>k. bt_get m k = bt_get n k) \<Longrightarrow> m = n"
proof -
  assume wf: "bt_wf m" "bt_wf n" and eq: "\<And>k. bt_get m k = bt_get n k"
  have sets: "set m = set n"
    using bt_get_iff_mem [OF wf(1)] bt_get_iff_mem [OF wf(2)] eq by auto
  have "sorted (map fst m)" "sorted (map fst n)" "distinct (map fst m)" "distinct (map fst n)"
    using wf by (auto simp: bt_wf_def strict_sorted_iff)
  moreover have "inj_on fst (set m \<union> set n)"
    using \<open>distinct (map fst m)\<close> sets by (simp add: distinct_map)
  ultimately show "m = n"
    using sets by (blast intro: map_sorted_distinct_set_unique)
qed

lemma card_dom_bt: "bt_wf m \<Longrightarrow> card (dom (bt_get m)) = length m"
proof -
  assume "bt_wf m"
  then have "card (set (map fst m)) = length m"
    using distinct_card [OF bt_wf_distinct] by fastforce
  moreover have "dom (bt_get m) = set (map fst m)"
    using bt_contains_iff [of m] by (auto simp: dom_def bt_contains_def)
  ultimately show ?thesis by simp
qed

lemma finite_dom_bt [simp]: "finite (dom (bt_get m))"
  by (simp add: bt_get_def [abs_def] finite_dom_map_of)

lemma bt_insert_length_same: "bt_wf m \<Longrightarrow> bt_contains m k \<Longrightarrow> length (bt_insert k v m) = length m"
  by (simp add: bt_insert_length)

lemma bt_get_insert_fun [map_ops]: "bt_get (bt_insert k v m) = (bt_get m)(k \<mapsto> v)"
  by auto

lemma bt_wf_fold: "bt_wf m \<Longrightarrow> (\<And>x m. bt_wf m \<Longrightarrow> bt_wf (f x m)) \<Longrightarrow> bt_wf (fold f xs m)"
  by (induction xs arbitrary: m) auto

lemma bt_wf_collect [simp]: "bt_wf (bt_collect xs)"
proof -
  have "bt_wf m \<Longrightarrow> bt_wf (fold (\<lambda>(k, v) m. bt_insert k v m) xs m)" for m
    by (induction xs arbitrary: m) auto
  then show ?thesis by (simp add: bt_collect_def)
qed

lemma bt_get_fold_insert:
  "distinct (map fst xs) \<Longrightarrow> bt_get (fold (\<lambda>(k, v) m. bt_insert k v m) xs m) k =
     (case bt_get xs k of None \<Rightarrow> bt_get m k | Some v \<Rightarrow> Some v)"
proof (induction xs arbitrary: m)
  case (Cons e xs)
  obtain j v where e: "e = (j, v)" by fastforce
  have "bt_get xs j = None" using Cons.prems e by (auto simp: bt_get_def map_of_eq_None_iff)
  then show ?case using Cons e by (auto split: option.split)
qed simp

lemma bt_collect_wf:
  assumes "bt_wf m"
  shows "bt_collect m = m"
proof (rule bt_eqI [OF bt_wf_collect assms])
  show "bt_get (bt_collect m) k = bt_get m k" for k
    using bt_get_fold_insert [OF bt_wf_distinct [OF assms], of "[]" k] by (simp add: bt_collect_def split: option.split)
qed

section \<open>Ordered sets\<close>

text \<open>A \<open>BTreeSet\<close> is the strictly increasing list of its elements.\<close>

lemma strict_sorted_insort_insert: "sorted_wrt (<) xs \<Longrightarrow> sorted_wrt (<) (insort_insert (x::'a::linorder) xs)"
  by (simp add: strict_sorted_iff sorted_insort_insert distinct_insort_insert)

lemma strict_sorted_remove1: "sorted_wrt (<) xs \<Longrightarrow> sorted_wrt (<) (remove1 (x::'a::linorder) xs)"
  by (simp add: strict_sorted_iff sorted_remove1)

lemma insort_insert_not_Nil [simp]: "insort_insert (x::'a::linorder) xs \<noteq> []"
  using set_insort_insert [of x xs] by force

section \<open>Iterators\<close>

text \<open>\<open>Iterator::max\<close>, \<open>Iterator::min\<close>, and \<open>max_by_key\<close>, which keeps the last of several maxima.\<close>

fun list_max :: "'a::linorder list \<Rightarrow> 'a option" where
  "list_max [] = None"
| "list_max (x # xs) = Some (fold max xs x)"

fun list_min :: "'a::linorder list \<Rightarrow> 'a option" where
  "list_min [] = None"
| "list_min (x # xs) = Some (fold min xs x)"

fun max_by_key :: "('a \<Rightarrow> 'b::linorder) \<Rightarrow> 'a list \<Rightarrow> 'a option" where
  "max_by_key f [] = None"
| "max_by_key f (x # xs) = Some (fold (\<lambda>y best. if f best \<le> f y then y else best) xs x)"

lemma list_max_None [simp]: "list_max xs = None \<longleftrightarrow> xs = []"
  by (cases xs) auto

lemma list_max_Some: "list_max xs = Some m \<Longrightarrow> m \<in> set xs \<and> (\<forall>x \<in> set xs. x \<le> m)"
proof (cases xs)
  case (Cons y ys)
  assume "list_max xs = Some m"
  with Cons have "m = Max (set xs)"
    using Max.set_eq_fold [of y ys] by simp
  with Cons show ?thesis by (metis List.finite_set Max_ge Max_in list.discI set_empty)
qed simp

lemma list_min_Some: "list_min xs = Some m \<Longrightarrow> m \<in> set xs \<and> (\<forall>x \<in> set xs. m \<le> x)"
proof (cases xs)
  case (Cons y ys)
  assume "list_min xs = Some m"
  with Cons have "m = Min (set xs)"
    using Min.set_eq_fold [of y ys] by simp
  with Cons show ?thesis by (metis List.finite_set Min_le Min_in list.discI set_empty)
qed simp

lemma list_min_None [simp]: "list_min xs = None \<longleftrightarrow> xs = []"
  by (cases xs) auto

lemma list_min_Min: "xs \<noteq> [] \<Longrightarrow> list_min xs = Some (Min (set xs))"
  by (cases xs) (simp_all add: Min.set_eq_fold del: set_simps)

lemma set_map_filter: "set (List.map_filter f xs) = {y. \<exists>x \<in> set xs. f x = Some y}"
  by (force simp: List.map_filter_def)

lemma max_by_key_None [simp]: "max_by_key f xs = None \<longleftrightarrow> xs = []"
  by (cases xs) auto

lemma fold_max_by_key:
  fixes f :: "'a \<Rightarrow> 'b::linorder"
  shows "fold (\<lambda>y best. if f best \<le> f y then y else best) xs x \<in> insert x (set xs) \<and>
   (\<forall>y \<in> insert x (set xs). f y \<le> f (fold (\<lambda>y best. if f best \<le> f y then y else best) xs x))"
proof (induction xs arbitrary: x)
  case (Cons z zs)
  show ?case
  proof (cases "f x \<le> f z")
    case True
    then show ?thesis using Cons.IH [of z] by (auto dest: order_trans [OF True])
  next
    case False
    then have "f z \<le> f x" by simp
    then show ?thesis using False Cons.IH [of x] by (auto dest: order_trans [OF \<open>f z \<le> f x\<close>])
  qed
qed simp

lemma max_by_key_Some:
  "max_by_key f xs = Some m \<Longrightarrow> m \<in> set xs \<and> (\<forall>x \<in> set xs. f x \<le> f m)"
  using fold_max_by_key [of f] by (cases xs) auto

lemma count_values:
  assumes "bt_wf m"
  shows "length (filter P (bt_values m)) = card {k. \<exists>v. bt_get m k = Some v \<and> P v}"
proof -
  let ?m = "filter (\<lambda>e. P (snd e)) m"
  have "distinct (map fst ?m)" using bt_wf_distinct [OF assms] by (rule distinct_map_filter)
  then have "card (set (map fst ?m)) = length ?m" using distinct_card by fastforce
  moreover have "set (map fst ?m) = {k. \<exists>v. bt_get m k = Some v \<and> P v}"
    using bt_get_iff_mem [OF assms] by force
  moreover have "length (filter P (bt_values m)) = length ?m"
    by (simp add: bt_values_def filter_map comp_def)
  ultimately show ?thesis by simp
qed

section \<open>Transition systems\<close>

text \<open>
  The argument every stateful component uses: an invariant that holds initially and is
  kept by each step holds in every reachable state, and an order that every step from
  such a state respects is respected along every run.
\<close>

locale invariant_system =
  fixes init :: "'s \<Rightarrow> bool" and step :: "'s \<Rightarrow> 's \<Rightarrow> bool" and inv :: "'s \<Rightarrow> bool"
  assumes init_inv: "init s \<Longrightarrow> inv s"
    and step_inv: "inv s \<Longrightarrow> step s t \<Longrightarrow> inv t"
begin

lemma run_inv: "step\<^sup>*\<^sup>* s t \<Longrightarrow> inv s \<Longrightarrow> inv t"
  by (induction rule: rtranclp_induct) (auto intro: step_inv)

lemma reachable_inv: "init s \<Longrightarrow> step\<^sup>*\<^sup>* s t \<Longrightarrow> inv t"
  using run_inv init_inv by blast

end

locale monotone_system = invariant_system init step inv
  for init :: "'s \<Rightarrow> bool" and step :: "'s \<Rightarrow> 's \<Rightarrow> bool" and inv :: "'s \<Rightarrow> bool" +
  fixes le :: "'s \<Rightarrow> 's \<Rightarrow> bool"
  assumes le_refl: "le s s"
    and le_trans: "le s t \<Longrightarrow> le t u \<Longrightarrow> le s u"
    and step_le: "inv s \<Longrightarrow> step s t \<Longrightarrow> le s t"
begin

lemma run_le: "step\<^sup>*\<^sup>* s t \<Longrightarrow> inv s \<Longrightarrow> le s t"
proof (induction rule: rtranclp_induct)
  case base
  show ?case by (rule le_refl)
next
  case (step t u)
  then show ?case using run_inv step_le le_trans by blast
qed

lemma reachable_le: "init s \<Longrightarrow> step\<^sup>*\<^sup>* s t \<Longrightarrow> step\<^sup>*\<^sup>* t u \<Longrightarrow> le t u"
  using reachable_inv run_le by blast

end

end
