(* ===== verification/Partition_Model.thy ===== *)
theory Partition_Model
  imports Prelude
begin

text \<open>
  The majority-replicated partition of \<open>crates/pepper-kafka-model/src/lib.rs\<close>: replicas
  with promised epochs and logs, election by quorum promise and log repair, append,
  replication to one follower, commit on a majority, and commit propagation. Every
  operation returns its result together with the state it leaves, because several of
  them have already changed the state when they return an error.
\<close>

section \<open>Data\<close>

datatype model_error =
    InvalidReplicaSet | NoQuorum | UnknownReplica | StaleEpoch | NoSafeElectionSource
  | UnsafeElection | NoLeader | OffsetOverflow | SequenceOverflow | LogGap | PrefixMismatch
  | LeaderEntryMismatch | CommittedTruncation | UnknownOffset | OldEpochCommit | CommitGap
  | MissingCommittedValue | CommittedValueChanged | ProducerFenced | EmptyBatch
  | DuplicateSequenceConflict | OutOfOrderSequence | InvalidMember | UnknownMember
  | GenerationOverflow | IllegalGeneration | NotGroupLeader | MissingGroupLeader
  | InvalidTransactionTransition | InvalidTransactionMarker | DuplicateTransactionMarker
  | MissingTransactionMarker

record log_entry =
  le_offset :: nat
  le_epoch :: nat
  le_digest :: nat

record replica =
  rp_promised :: nat
  rp_log :: "log_entry list"
  rp_committed :: "nat option"

record leader =
  ld_node :: nat
  ld_epoch :: nat

record partition_model =
  pm_replicas :: "(nat, replica) btree"
  pm_leader :: "leader option"
  pm_committed :: "(nat, nat) btree"

section \<open>Operations\<close>

text \<open>\<open>usize::try_from\<close> of a \<open>u64\<close> succeeds on the 64-bit targets of the crate.\<close>

definition replica_entry :: "replica \<Rightarrow> nat \<Rightarrow> log_entry option" where
  "replica_entry r i = (if i < length (rp_log r) then Some (rp_log r ! i) else None)"

definition replica_last_offset :: "replica \<Rightarrow> nat option" where
  "replica_last_offset r = (if rp_log r = [] then None else Some (le_offset (last (rp_log r))))"

definition truncate_uncommitted :: "nat \<Rightarrow> replica \<Rightarrow> model_error + replica" where
  "truncate_uncommitted i r =
     (if (case rp_committed r of None \<Rightarrow> False | Some c \<Rightarrow> i \<le> c) then Inl CommittedTruncation
      else Inr (r\<lparr>rp_log := take i (rp_log r)\<rparr>))"

definition partition_new :: "nat list \<Rightarrow> model_error + partition_model" where
  "partition_new nodes =
     (let replicas = bt_collect
            (map (\<lambda>n. (n, \<lparr>rp_promised = 0, rp_log = [], rp_committed = None\<rparr>)) nodes)
      in if length replicas < 3 \<or> length replicas mod 2 = 0 then Inl InvalidReplicaSet
         else Inr \<lparr>pm_replicas = replicas, pm_leader = None, pm_committed = []\<rparr>)"

definition pm_quorum :: "partition_model \<Rightarrow> nat" where
  "pm_quorum s = length (pm_replicas s) div 2 + 1"

subsection \<open>The executable invariant check\<close>

fun check_committed_prefix :: "(nat, nat) btree \<Rightarrow> replica \<Rightarrow> nat list \<Rightarrow> model_error + unit" where
  "check_committed_prefix cv r [] = Inr ()"
| "check_committed_prefix cv r (i # is) =
     (case bt_get cv i of
        None \<Rightarrow> Inl MissingCommittedValue
      | Some expected \<Rightarrow>
          if map_option le_digest (replica_entry r i) \<noteq> Some expected
          then Inl CommittedValueChanged else check_committed_prefix cv r is)"

definition check_replica :: "(nat, nat) btree \<Rightarrow> replica \<Rightarrow> model_error + unit" where
  "check_replica cv r =
     (if list_ex (\<lambda>(i, e). le_offset e \<noteq> i) (enumerate 0 (rp_log r)) then Inl LogGap
      else case rp_committed r of
        None \<Rightarrow> Inr ()
      | Some c \<Rightarrow> check_committed_prefix cv r [0..<Suc c])"

fun check_replicas :: "(nat, nat) btree \<Rightarrow> replica list \<Rightarrow> model_error + unit" where
  "check_replicas cv [] = Inr ()"
| "check_replicas cv (r # rs) =
     (case check_replica cv r of Inl e \<Rightarrow> Inl e | Inr _ \<Rightarrow> check_replicas cv rs)"

definition pm_check_invariants :: "partition_model \<Rightarrow> model_error + unit" where
  "pm_check_invariants s =
     (if list_ex (\<lambda>(i, k). k \<noteq> i) (enumerate 0 (bt_keys (pm_committed s))) then Inl CommitGap
      else check_replicas (pm_committed s) (bt_values (pm_replicas s)))"

subsection \<open>Election\<close>

definition safe_committed :: "(nat, replica) btree \<Rightarrow> nat list \<Rightarrow> nat option" where
  "safe_committed R voters =
     list_max (List.map_filter (\<lambda>n. Option.bind (bt_get R n) rp_committed) voters)"

definition log_key :: "log_entry list \<Rightarrow> nat \<times> nat" where
  "log_key es = (if es = [] then (0, 0) else (le_epoch (last es), le_offset (last es)))"

definition election_source ::
    "(nat, replica) btree \<Rightarrow> nat list \<Rightarrow> nat option \<Rightarrow> log_entry list option" where
  "election_source R voters safe =
     map_option (\<lambda>(n, r). rp_log r)
       (max_by_key (\<lambda>(n, r). (log_key (rp_log r), n))
          (filter (\<lambda>(n, r). case safe of None \<Rightarrow> True
                    | Some c \<Rightarrow> (case replica_last_offset r of None \<Rightarrow> False | Some l \<Rightarrow> c \<le> l))
             (List.map_filter (\<lambda>n. map_option (Pair n) (bt_get R n)) voters)))"

fun check_source :: "(nat, nat) btree \<Rightarrow> log_entry list \<Rightarrow> nat list \<Rightarrow> model_error + unit" where
  "check_source cv source [] = Inr ()"
| "check_source cv source (i # is) =
     (case bt_get cv i of
        None \<Rightarrow> Inl MissingCommittedValue
      | Some expected \<Rightarrow>
          if (if i < length source then Some (le_digest (source ! i)) else None) \<noteq> Some expected
          then Inl UnsafeElection else check_source cv source is)"

fun promise_voters ::
    "nat \<Rightarrow> nat list \<Rightarrow> (nat, replica) btree \<Rightarrow> (model_error + unit) \<times> (nat, replica) btree" where
  "promise_voters ep [] R = (Inr (), R)"
| "promise_voters ep (n # ns) R =
     (case bt_get R n of
        None \<Rightarrow> (Inl UnknownReplica, R)
      | Some r \<Rightarrow> promise_voters ep ns (bt_insert n (r\<lparr>rp_promised := ep\<rparr>) R))"

definition pm_elect ::
    "nat \<Rightarrow> nat \<Rightarrow> nat list \<Rightarrow> partition_model \<Rightarrow> (model_error + unit) \<times> partition_model" where
  "pm_elect candidate ep voters s =
     (let R = pm_replicas s; safe = safe_committed R voters in
      if length voters < pm_quorum s \<or> candidate \<notin> set voters then (Inl NoQuorum, s)
      else if list_ex (\<lambda>n. \<not> bt_contains R n) voters then (Inl UnknownReplica, s)
      else if list_ex (\<lambda>n. case bt_get R n of None \<Rightarrow> False | Some r \<Rightarrow> ep \<le> rp_promised r) voters
        then (Inl StaleEpoch, s)
      else case election_source R voters safe of
        None \<Rightarrow> (Inl NoSafeElectionSource, s)
      | Some source \<Rightarrow>
          (case (case safe of None \<Rightarrow> Inr () | Some c \<Rightarrow> check_source (pm_committed s) source [0..<Suc c]) of
             Inl e \<Rightarrow> (Inl e, s)
           | Inr _ \<Rightarrow>
               (case promise_voters ep voters R of
                  (Inl e, R') \<Rightarrow> (Inl e, s\<lparr>pm_replicas := R'\<rparr>)
                | (Inr _, R') \<Rightarrow>
                    (case bt_get R' candidate of
                       None \<Rightarrow> (Inl UnknownReplica, s\<lparr>pm_replicas := R'\<rparr>)
                     | Some r \<Rightarrow>
                         (let s' = s\<lparr>pm_replicas := bt_insert candidate
                                       (r\<lparr>rp_log := source, rp_committed := safe\<rparr>) R',
                                     pm_leader := Some \<lparr>ld_node = candidate, ld_epoch = ep\<rparr>\<rparr>
                          in (pm_check_invariants s', s'))))))"

subsection \<open>Append, replicate, commit\<close>

definition pm_append ::
    "nat \<Rightarrow> partition_model \<Rightarrow> (model_error + log_entry) \<times> partition_model" where
  "pm_append d s =
     (case pm_leader s of
        None \<Rightarrow> (Inl NoLeader, s)
      | Some l \<Rightarrow>
          (case bt_get (pm_replicas s) (ld_node l) of
             None \<Rightarrow> (Inl UnknownReplica, s)
           | Some r \<Rightarrow>
               if rp_promised r \<noteq> ld_epoch l then (Inl StaleEpoch, s)
               else (let entry = \<lparr>le_offset = length (rp_log r), le_epoch = ld_epoch l, le_digest = d\<rparr>;
                         s' = s\<lparr>pm_replicas := bt_insert (ld_node l)
                                  (r\<lparr>rp_log := rp_log r @ [entry]\<rparr>) (pm_replicas s)\<rparr>
                     in (case pm_check_invariants s' of Inl e \<Rightarrow> (Inl e, s') | Inr _ \<Rightarrow> (Inr entry, s')))))"

text \<open>
  The part of \<open>replicate\<close> that works on the follower: the result says whether the entry
  was already there (\<open>True\<close>, the early return) or has been pushed (\<open>False\<close>).
\<close>

definition replicate_follower ::
    "log_entry list \<Rightarrow> log_entry \<Rightarrow> replica \<Rightarrow> (model_error + bool) \<times> replica" where
  "replicate_follower leader_prefix entry r =
     (let index = le_offset entry;
          r1 = (if rp_promised r < le_epoch entry then r\<lparr>rp_promised := le_epoch entry\<rparr> else r);
          shared = min (length (rp_log r1)) (length leader_prefix)
      in case (case find (\<lambda>p. rp_log r1 ! p \<noteq> leader_prefix ! p) [0..<shared] of
                 None \<Rightarrow> Inr r1 | Some p \<Rightarrow> truncate_uncommitted p r1) of
           Inl e \<Rightarrow> (Inl e, r1)
         | Inr r2 \<Rightarrow>
             (let r3 = (if length (rp_log r2) < length leader_prefix
                        then r2\<lparr>rp_log := rp_log r2 @ drop (length (rp_log r2)) leader_prefix\<rparr>
                        else r2)
              in if index < length (rp_log r3) \<and> rp_log r3 ! index = entry then (Inr True, r3)
                 else case (if index < length (rp_log r3) then truncate_uncommitted index r3 else Inr r3) of
                   Inl e \<Rightarrow> (Inl e, r3)
                 | Inr r4 \<Rightarrow>
                     if index \<noteq> length (rp_log r4) then (Inl LogGap, r4)
                     else if take index (rp_log r4) \<noteq> leader_prefix then (Inl PrefixMismatch, r4)
                     else (Inr False, r4\<lparr>rp_log := rp_log r4 @ [entry]\<rparr>)))"

definition pm_replicate ::
    "nat \<Rightarrow> log_entry \<Rightarrow> partition_model \<Rightarrow> (model_error + unit) \<times> partition_model" where
  "pm_replicate follower entry s =
     (case pm_leader s of
        None \<Rightarrow> (Inl NoLeader, s)
      | Some l \<Rightarrow>
          if le_epoch entry \<noteq> ld_epoch l \<or> follower = ld_node l then (Inl StaleEpoch, s)
          else (case bt_get (pm_replicas s) (ld_node l) of
             None \<Rightarrow> (Inl UnknownReplica, s)
           | Some lr \<Rightarrow>
               if replica_entry lr (le_offset entry) \<noteq> Some entry then (Inl LeaderEntryMismatch, s)
               else if length (rp_log lr) < le_offset entry then (Inl LogGap, s)
               else (case bt_get (pm_replicas s) follower of
                  None \<Rightarrow> (Inl UnknownReplica, s)
                | Some r \<Rightarrow>
                    if le_epoch entry < rp_promised r then (Inl StaleEpoch, s)
                    else (case replicate_follower (take (le_offset entry) (rp_log lr)) entry r of
                       (res, r') \<Rightarrow>
                         (let s' = s\<lparr>pm_replicas := bt_insert follower r' (pm_replicas s)\<rparr>
                          in case res of
                               Inl e \<Rightarrow> (Inl e, s')
                             | Inr True \<Rightarrow> (Inr (), s')
                             | Inr False \<Rightarrow> (pm_check_invariants s', s'))))))"

definition pm_commit ::
    "nat \<Rightarrow> partition_model \<Rightarrow> (model_error + unit) \<times> partition_model" where
  "pm_commit i s =
     (case pm_leader s of
        None \<Rightarrow> (Inl NoLeader, s)
      | Some l \<Rightarrow>
          (case Option.bind (bt_get (pm_replicas s) (ld_node l)) (\<lambda>r. replica_entry r i) of
             None \<Rightarrow> (Inl UnknownOffset, s)
           | Some entry \<Rightarrow>
               if le_epoch entry \<noteq> ld_epoch l then (Inl OldEpochCommit, s)
               else if length (filter (\<lambda>r. replica_entry r i = Some entry) (bt_values (pm_replicas s)))
                         < pm_quorum s then (Inl NoQuorum, s)
               else if i > 0 \<and> \<not> bt_contains (pm_committed s) (i - 1) then (Inl CommitGap, s)
               else (let existing = bt_get (pm_committed s) i;
                         s1 = s\<lparr>pm_committed := bt_insert i (le_digest entry) (pm_committed s)\<rparr>
                     in if existing \<noteq> None \<and> existing \<noteq> Some (le_digest entry)
                        then (Inl CommittedValueChanged, s1)
                        else (case bt_get (pm_replicas s1) (ld_node l) of
                           None \<Rightarrow> (Inl UnknownReplica, s1)
                         | Some r \<Rightarrow>
                             (let s2 = s1\<lparr>pm_replicas := bt_insert (ld_node l)
                                            (r\<lparr>rp_committed := Some i\<rparr>) (pm_replicas s1)\<rparr>
                              in (pm_check_invariants s2, s2))))))"

definition pm_propagate_commit ::
    "nat \<Rightarrow> nat \<Rightarrow> partition_model \<Rightarrow> (model_error + unit) \<times> partition_model" where
  "pm_propagate_commit n i s =
     (case bt_get (pm_committed s) i of
        None \<Rightarrow> (Inl UnknownOffset, s)
      | Some expected \<Rightarrow>
          (case bt_get (pm_replicas s) n of
             None \<Rightarrow> (Inl UnknownReplica, s)
           | Some r \<Rightarrow>
               if map_option le_digest (replica_entry r i) \<noteq> Some expected
               then (Inl MissingCommittedValue, s)
               else (let s' = s\<lparr>pm_replicas := bt_insert n (r\<lparr>rp_committed := Some i\<rparr>) (pm_replicas s)\<rparr>
                     in (pm_check_invariants s', s'))))"

end
