(* ===== verification/Partition_Safety.thy ===== *)
theory Partition_Safety
  imports Partition_Model
begin

text \<open>
  Safety of the replicated partition. The committed log is a ghost value: a state is
  safe when all logs match, a majority holds the committed log, every log that is at
  least as up to date as the committed log extends it, and the leader holds it. Every
  operation, also one that fails half way, keeps the state safe for the same committed
  log or an extension of it.
\<close>

section \<open>The protocol state, abstractly\<close>

definition good_log :: "log_entry list \<Rightarrow> bool" where
  "good_log es \<longleftrightarrow> (\<forall>i < length es. le_offset (es ! i) = i \<and> 1 \<le> le_epoch (es ! i)) \<and>
     sorted (map le_epoch es)"

definition logs_match :: "log_entry list \<Rightarrow> log_entry list \<Rightarrow> bool" where
  "logs_match a b \<longleftrightarrow> (\<forall>i. i < length a \<longrightarrow> i < length b \<longrightarrow> le_epoch (a ! i) = le_epoch (b ! i) \<longrightarrow>
     take (Suc i) a = take (Suc i) b)"

definition majority :: "('n \<rightharpoonup> 'r) \<Rightarrow> ('r \<Rightarrow> bool) \<Rightarrow> bool" where
  "majority f P \<longleftrightarrow> card (dom f) < 2 * card {n. \<exists>r. f n = Some r \<and> P r}"

definition leader_ok :: "(nat \<rightharpoonup> replica) \<Rightarrow> leader \<Rightarrow> log_entry list \<Rightarrow> bool" where
  "leader_ok f l C \<longleftrightarrow> 1 \<le> ld_epoch l \<and> majority f (\<lambda>r. ld_epoch l \<le> rp_promised r) \<and>
     (\<exists>lr. f (ld_node l) = Some lr \<and> prefix C (rp_log lr) \<and>
        (\<forall>n r. f n = Some r \<longrightarrow> (\<forall>i < length (rp_log r). le_epoch (rp_log r ! i) \<le> ld_epoch l \<and>
           (le_epoch (rp_log r ! i) = ld_epoch l \<longrightarrow>
              i < length (rp_log lr) \<and> le_epoch (rp_log lr ! i) = ld_epoch l))))"

definition cluster_safe :: "(nat \<rightharpoonup> replica) \<Rightarrow> leader option \<Rightarrow> log_entry list \<Rightarrow> bool" where
  "cluster_safe f ld C \<longleftrightarrow> finite (dom f) \<and>
     (\<forall>n r. f n = Some r \<longrightarrow> good_log (rp_log r) \<and> (\<forall>c. rp_committed r = Some c \<longrightarrow> c < length C)) \<and>
     (\<forall>n r m q. f n = Some r \<longrightarrow> f m = Some q \<longrightarrow> logs_match (rp_log r) (rp_log q)) \<and>
     majority f (\<lambda>r. prefix C (rp_log r)) \<and>
     (\<forall>n r. f n = Some r \<longrightarrow> C \<noteq> [] \<longrightarrow> log_key C \<le> log_key (rp_log r) \<longrightarrow> prefix C (rp_log r)) \<and>
     (case ld of None \<Rightarrow> \<forall>n r. f n = Some r \<longrightarrow> rp_log r = [] | Some l \<Rightarrow> leader_ok f l C)"

subsection \<open>Majorities\<close>

lemma finite_holders: "finite (dom f) \<Longrightarrow> finite {n. \<exists>r. f n = Some r \<and> P r}"
  by (rule finite_subset [of _ "dom f"]) auto

lemma majority_upd:
  assumes fin: "finite (dom f)" and maj: "majority f P" and n: "f n = Some r" and keep: "P r \<Longrightarrow> Q r'"
    and weak: "\<And>q. P q \<Longrightarrow> Q q"
  shows "majority (f(n \<mapsto> r')) Q"
proof -
  have "{m. \<exists>r. f m = Some r \<and> P r} \<subseteq> {m. \<exists>q. (f(n \<mapsto> r')) m = Some q \<and> Q q}"
    using n keep weak by auto
  moreover have dom: "dom (f(n \<mapsto> r')) = dom f" using n by auto
  have "finite {m. \<exists>q. (f(n \<mapsto> r')) m = Some q \<and> Q q}"
    by (rule finite_holders) (simp only: dom fin)
  with calculation have "card {m. \<exists>r. f m = Some r \<and> P r} \<le> card {m. \<exists>q. (f(n \<mapsto> r')) m = Some q \<and> Q q}"
    by (rule card_mono [rotated])
  then show ?thesis using maj by (simp only: majority_def dom)
qed

lemma majority_meets:
  assumes fin: "finite (dom f)" and maj: "majority f P" and sub: "V \<subseteq> dom f"
    and big: "card (dom f) < 2 * card V"
  shows "\<exists>n \<in> V. \<exists>r. f n = Some r \<and> P r"
proof (rule ccontr)
  assume none: "\<not> ?thesis"
  let ?H = "{n. \<exists>r. f n = Some r \<and> P r}"
  have "V \<inter> ?H = {}" using none by auto
  moreover have "finite V" "finite ?H" using fin sub finite_subset finite_holders [OF fin] by auto
  ultimately have "card (V \<union> ?H) = card V + card ?H" by (simp add: card_Un_disjoint)
  moreover have "card (V \<union> ?H) \<le> card (dom f)"
    by (rule card_mono [OF fin]) (use sub in auto)
  ultimately show False using maj big by (simp add: majority_def)
qed

subsection \<open>Logs\<close>

lemma logs_match_refl [simp]: "logs_match a a"
  by (simp add: logs_match_def)

lemma logs_match_sym: "logs_match a b \<Longrightarrow> logs_match b a"
  unfolding logs_match_def by metis

lemma logs_match_prefix:
  assumes "logs_match a b" and "prefix a' a"
  shows "logs_match a' b"
proof -
  obtain z where a: "a = a' @ z" using assms(2) by (auto simp: prefix_def)
  show ?thesis
    unfolding logs_match_def
  proof (intro allI impI)
    fix i
    assume i: "i < length a'" "i < length b" "le_epoch (a' ! i) = le_epoch (b ! i)"
    from assms(1) have "i < length a \<Longrightarrow> i < length b \<Longrightarrow> le_epoch (a ! i) = le_epoch (b ! i) \<Longrightarrow>
        take (Suc i) a = take (Suc i) b"
      by (simp add: logs_match_def)
    with a i show "take (Suc i) a' = take (Suc i) b" by (simp add: nth_append)
  qed
qed

lemma good_log_prefix:
  assumes "good_log a" and "prefix a' a"
  shows "good_log a'"
proof -
  obtain z where a: "a = a' @ z" using assms(2) by (auto simp: prefix_def)
  have "le_offset (a' ! i) = i \<and> 1 \<le> le_epoch (a' ! i)" if "i < length a'" for i
  proof -
    have "le_offset (a ! i) = i \<and> 1 \<le> le_epoch (a ! i)"
      using assms(1) a that by (simp only: good_log_def) simp
    then show ?thesis using a that by (simp add: nth_append)
  qed
  moreover have "sorted (map le_epoch a')" using assms(1) a by (simp add: good_log_def sorted_append)
  ultimately show ?thesis by (simp add: good_log_def)
qed

lemma good_log_key:
  "good_log es \<Longrightarrow> es \<noteq> [] \<Longrightarrow> log_key es = (le_epoch (es ! (length es - 1)), length es - 1)"
  by (simp add: good_log_def log_key_def last_conv_nth)

lemma log_key_prefix_le:
  assumes "good_log b" and "prefix a b"
  shows "log_key a \<le> log_key b"
proof (cases "a = []")
  case True
  then show ?thesis by (simp add: log_key_def)
next
  case False
  then have b: "b \<noteq> []" and len: "length a \<le> length b"
    using assms(2) prefix_length_le by auto
  have "good_log a" using assms good_log_prefix by blast
  have "a ! (length a - 1) = b ! (length a - 1)"
    using assms(2) False by (auto simp: prefix_def nth_append)
  moreover have "le_epoch (b ! (length a - 1)) \<le> le_epoch (b ! (length b - 1))"
    using assms(1) b len False
    by (auto simp: good_log_def sorted_iff_nth_mono)
  ultimately show ?thesis
    using len by (simp add: good_log_key [OF \<open>good_log a\<close> False] good_log_key [OF assms(1) b]
        less_eq_prod_def) linarith
qed

lemma good_log_snoc:
  "good_log es \<Longrightarrow> le_offset e = length es \<Longrightarrow> 1 \<le> le_epoch e \<Longrightarrow>
   (\<forall>i < length es. le_epoch (es ! i) \<le> le_epoch e) \<Longrightarrow> good_log (es @ [e])"
  by (auto simp: good_log_def nth_append sorted_append in_set_conv_nth)

subsection \<open>Updates of one replica\<close>

lemma cluster_safeD:
  assumes "cluster_safe f ld C"
  shows "finite (dom f)"
    and "f n = Some r \<Longrightarrow> good_log (rp_log r)"
    and "f n = Some r \<Longrightarrow> rp_committed r = Some c \<Longrightarrow> c < length C"
    and "f n = Some r \<Longrightarrow> f m = Some q \<Longrightarrow> logs_match (rp_log r) (rp_log q)"
    and "majority f (\<lambda>r. prefix C (rp_log r))"
    and "f n = Some r \<Longrightarrow> C \<noteq> [] \<Longrightarrow> log_key C \<le> log_key (rp_log r) \<Longrightarrow> prefix C (rp_log r)"
    and "ld = None \<Longrightarrow> f n = Some r \<Longrightarrow> rp_log r = []"
    and "ld = Some l \<Longrightarrow> leader_ok f l C"
  using assms by (auto simp: cluster_safe_def)

lemma leader_okD:
  assumes "leader_ok f l C"
  shows "1 \<le> ld_epoch l"
    and "majority f (\<lambda>r. ld_epoch l \<le> rp_promised r)"
    and "\<exists>lr. f (ld_node l) = Some lr"
    and "f (ld_node l) = Some lr \<Longrightarrow> prefix C (rp_log lr)"
    and "f n = Some r \<Longrightarrow> i < length (rp_log r) \<Longrightarrow> le_epoch (rp_log r ! i) \<le> ld_epoch l"
    and "f (ld_node l) = Some lr \<Longrightarrow> f n = Some r \<Longrightarrow> i < length (rp_log r) \<Longrightarrow>
           le_epoch (rp_log r ! i) = ld_epoch l \<Longrightarrow>
           i < length (rp_log lr) \<and> le_epoch (rp_log lr ! i) = ld_epoch l"
proof -
  obtain k where k: "f (ld_node l) = Some k" "prefix C (rp_log k)"
    and all: "\<forall>n r. f n = Some r \<longrightarrow> (\<forall>i < length (rp_log r). le_epoch (rp_log r ! i) \<le> ld_epoch l \<and>
           (le_epoch (rp_log r ! i) = ld_epoch l \<longrightarrow>
              i < length (rp_log k) \<and> le_epoch (rp_log k ! i) = ld_epoch l))"
    using assms unfolding leader_ok_def by (elim conjE exE) (rule that)
  show "1 \<le> ld_epoch l" "majority f (\<lambda>r. ld_epoch l \<le> rp_promised r)"
    using assms by (simp_all add: leader_ok_def)
  show "\<exists>lr. f (ld_node l) = Some lr" using k(1) by simp
  show "f (ld_node l) = Some lr \<Longrightarrow> prefix C (rp_log lr)" using k by simp
  show "f n = Some r \<Longrightarrow> i < length (rp_log r) \<Longrightarrow> le_epoch (rp_log r ! i) \<le> ld_epoch l"
    using all [rule_format, of n r i] by simp
  show "f (ld_node l) = Some lr \<Longrightarrow> f n = Some r \<Longrightarrow> i < length (rp_log r) \<Longrightarrow>
           le_epoch (rp_log r ! i) = ld_epoch l \<Longrightarrow>
           i < length (rp_log lr) \<and> le_epoch (rp_log lr ! i) = ld_epoch l"
    using all [rule_format, of n r i] k(1) by simp
qed

lemma leader_ok_upd:
  assumes ok: "leader_ok f l C" and fin: "finite (dom f)" and n: "f n = Some r"
    and prom: "rp_promised r \<le> rp_promised r'"
    and lead: "n = ld_node l \<Longrightarrow> prefix (rp_log r) (rp_log r') \<and>
           (\<forall>i < length (rp_log r'). le_epoch (rp_log r' ! i) \<le> ld_epoch l)"
    and foll: "\<And>lr. n \<noteq> ld_node l \<Longrightarrow> f (ld_node l) = Some lr \<Longrightarrow>
           \<forall>i < length (rp_log r'). le_epoch (rp_log r' ! i) \<le> ld_epoch l \<and>
             (le_epoch (rp_log r' ! i) = ld_epoch l \<longrightarrow>
                i < length (rp_log lr) \<and> le_epoch (rp_log lr ! i) = ld_epoch l)"
  shows "leader_ok (f(n \<mapsto> r')) l C"
proof -
  note D = leader_okD [OF ok]
  obtain lr where lr: "f (ld_node l) = Some lr" using D(3) by blast
  note le = D(5) and cur = D(6) [OF lr] and C = D(4) [OF lr]
  have maj': "majority (f(n \<mapsto> r')) (\<lambda>r. ld_epoch l \<le> rp_promised r)"
    using fin D(2) n by (rule majority_upd) (use prom in auto)
  show ?thesis
  proof (cases "n = ld_node l")
    case True
    with n lr have r: "r = lr" by simp
    obtain z where z: "rp_log r' = rp_log lr @ z" using lead [OF True] r by (auto simp: prefix_def)
    have "prefix C (rp_log r')" using C z by (auto simp: prefix_def)
    moreover have "i < length (rp_log r') \<and> le_epoch (rp_log r' ! i) = ld_epoch l"
      if "(f(n \<mapsto> r')) m = Some q" "i < length (rp_log q)" "le_epoch (rp_log q ! i) = ld_epoch l" for m q i
    proof (cases "m = n")
      case False
      then show ?thesis using that cur [of m q i] z by (auto simp: nth_append)
    qed (use that in auto)
    moreover have "le_epoch (rp_log q ! i) \<le> ld_epoch l"
      if "(f(n \<mapsto> r')) m = Some q" "i < length (rp_log q)" for m q i
      using that lead [OF True] le [of m q i] by (auto split: if_splits)
    ultimately show ?thesis
      unfolding leader_ok_def using D(1) maj' True by (intro conjI exI [of _ r']) auto
  next
    case False
    have "le_epoch (rp_log q ! i) \<le> ld_epoch l \<and> (le_epoch (rp_log q ! i) = ld_epoch l \<longrightarrow>
        i < length (rp_log lr) \<and> le_epoch (rp_log lr ! i) = ld_epoch l)"
      if "(f(n \<mapsto> r')) m = Some q" "i < length (rp_log q)" for m q i
      using that foll [OF False lr] le [of m q i] cur [of m q i] by (auto split: if_splits)
    then show ?thesis
      unfolding leader_ok_def using D(1) maj' False lr C by (intro conjI exI [of _ lr]) auto
  qed
qed

lemma cluster_safe_upd:
  assumes safe: "cluster_safe f ld C" and n: "f n = Some r"
    and good: "good_log (rp_log r')" and com: "\<And>c. rp_committed r' = Some c \<Longrightarrow> c < length C"
    and match: "\<And>m q. f m = Some q \<Longrightarrow> m \<noteq> n \<Longrightarrow> logs_match (rp_log r') (rp_log q)"
    and keep: "prefix C (rp_log r) \<Longrightarrow> prefix C (rp_log r')"
    and key: "C \<noteq> [] \<Longrightarrow> log_key C \<le> log_key (rp_log r') \<Longrightarrow> prefix C (rp_log r')"
    and lead: "case ld' of None \<Rightarrow> ld = None \<and> rp_log r' = [] | Some l \<Rightarrow> leader_ok (f(n \<mapsto> r')) l C"
  shows "cluster_safe (f(n \<mapsto> r')) ld' C"
proof -
  note D = cluster_safeD [OF safe]
  have "finite (dom (f(n \<mapsto> r')))" using D(1) n by simp
  moreover have "good_log (rp_log q) \<and> (\<forall>c. rp_committed q = Some c \<longrightarrow> c < length C)"
    if "(f(n \<mapsto> r')) m = Some q" for m q
    using that good com D(2,3) by (auto split: if_splits)
  moreover have "logs_match (rp_log p) (rp_log q)"
    if "(f(n \<mapsto> r')) i = Some p" "(f(n \<mapsto> r')) m = Some q" for i p m q
    using that match D(4) by (auto split: if_splits intro: logs_match_sym)
  moreover have "majority (f(n \<mapsto> r')) (\<lambda>r. prefix C (rp_log r))"
    using D(1) D(5) n by (rule majority_upd) (use keep in auto)
  moreover have "prefix C (rp_log q)"
    if "(f(n \<mapsto> r')) m = Some q" "C \<noteq> []" "log_key C \<le> log_key (rp_log q)" for m q
    using that key D(6) by (auto split: if_splits)
  moreover have "case ld' of None \<Rightarrow> \<forall>m q. (f(n \<mapsto> r')) m = Some q \<longrightarrow> rp_log q = []
      | Some l \<Rightarrow> leader_ok (f(n \<mapsto> r')) l C"
    using lead D(7) by (auto split: option.splits if_splits)
  ultimately show ?thesis unfolding cluster_safe_def by (intro conjI allI impI) auto
qed

lemma cluster_safe_frame:
  assumes safe: "cluster_safe f ld C" and n: "f n = Some r"
    and log: "rp_log r' = rp_log r" and prom: "rp_promised r \<le> rp_promised r'"
    and com: "\<And>c. rp_committed r' = Some c \<Longrightarrow> c < length C"
  shows "cluster_safe (f(n \<mapsto> r')) ld C"
proof (rule cluster_safe_upd [OF safe n])
  note D = cluster_safeD [OF safe]
  show "good_log (rp_log r')" using D(2) n log by simp
  have "leader_ok (f(n \<mapsto> r')) l C" if l: "ld = Some l" for l
  proof (rule leader_ok_upd [OF D(8) [OF l] D(1) n prom])
    note E = leader_okD [OF D(8) [OF l]]
    show "\<forall>i < length (rp_log r'). le_epoch (rp_log r' ! i) \<le> ld_epoch l \<and>
             (le_epoch (rp_log r' ! i) = ld_epoch l \<longrightarrow>
                i < length (rp_log lr) \<and> le_epoch (rp_log lr ! i) = ld_epoch l)"
      if "f (ld_node l) = Some lr" for lr using E(5) [OF n] E(6) [OF that n] log by auto
    show "prefix (rp_log r) (rp_log r') \<and> (\<forall>i < length (rp_log r'). le_epoch (rp_log r' ! i) \<le> ld_epoch l)"
      using E(5) [OF n] log by auto
  qed
  then show "case ld of None \<Rightarrow> ld = None \<and> rp_log r' = [] | Some l \<Rightarrow> leader_ok (f(n \<mapsto> r')) l C"
    using D(7) [OF _ n] log by (auto split: option.splits)
next
  note D = cluster_safeD [OF safe]
  show "logs_match (rp_log r') (rp_log q)" if "f m = Some q" for m q
    using D(4) [OF n that] log by simp
  show "prefix C (rp_log r')" if "C \<noteq> []" "log_key C \<le> log_key (rp_log r')"
    using D(6) [OF n] that log by simp
qed (simp_all add: log com)

lemma good_log_epoch_mono:
  "good_log es \<Longrightarrow> i \<le> j \<Longrightarrow> j < length es \<Longrightarrow> le_epoch (es ! i) \<le> le_epoch (es ! j)"
  by (auto simp: good_log_def sorted_iff_nth_mono)

subsection \<open>Append\<close>

lemma logs_match_snoc:
  assumes "logs_match a b" and "length a < length b \<Longrightarrow> le_epoch (b ! length a) \<noteq> le_epoch e"
  shows "logs_match (a @ [e]) b"
  unfolding logs_match_def
proof (intro allI impI)
  fix i
  assume i: "i < length (a @ [e])" "i < length b" "le_epoch ((a @ [e]) ! i) = le_epoch (b ! i)"
  have ia: "i < length a"
  proof (rule ccontr)
    assume "\<not> i < length a"
    with i(1) have "i = length a" by simp
    with i assms(2) show False by simp
  qed
  then have "take (Suc i) a = take (Suc i) b"
    using assms(1) i by (simp add: logs_match_def nth_append)
  with ia show "take (Suc i) (a @ [e]) = take (Suc i) b" by simp
qed

lemma cluster_safe_append:
  assumes safe: "cluster_safe f (Some l) C" and n: "f (ld_node l) = Some r"
    and e: "le_offset e = length (rp_log r)" "le_epoch e = ld_epoch l"
    and r': "rp_log r' = rp_log r @ [e]" "rp_promised r' = rp_promised r" "rp_committed r' = rp_committed r"
  shows "cluster_safe (f(ld_node l \<mapsto> r')) (Some l) C"
proof -
  note D = cluster_safeD [OF safe]
  note E = leader_okD [OF D(8) [OF refl]]
  have C: "prefix C (rp_log r')" using E(4) [OF n] r'(1) by simp
  have le: "\<forall>i < length (rp_log r'). le_epoch (rp_log r' ! i) \<le> ld_epoch l"
    using E(5) [OF n] r'(1) e(2) by (auto simp: nth_append less_Suc_eq)
  have "leader_ok (f(ld_node l \<mapsto> r')) l C"
    by (rule leader_ok_upd [OF D(8) [OF refl] D(1) n]) (use r' le in auto)
  moreover have "good_log (rp_log r')"
    unfolding r'(1)
    by (rule good_log_snoc [OF D(2) [OF n] e(1)]) (simp_all add: e(2) E(1) [simplified] E(5) [OF n])
  moreover have "logs_match (rp_log r') (rp_log q)" if "f m = Some q" for m q
    unfolding r'(1) using D(4) [OF n that]
  proof (rule logs_match_snoc)
    assume len: "length (rp_log r) < length (rp_log q)"
    show "le_epoch (rp_log q ! length (rp_log r)) \<noteq> le_epoch e"
    proof
      assume "le_epoch (rp_log q ! length (rp_log r)) = le_epoch e"
      with E(6) [OF n that len] e(2) show False by simp
    qed
  qed
  ultimately show ?thesis
    by (intro cluster_safe_upd [OF safe n]) (use C r'(3) D(3) [OF n] in auto)
qed

subsection \<open>Replication to a follower\<close>

lemma take_prefix_of_prefix: "prefix a b \<Longrightarrow> i \<le> length a \<Longrightarrow> take i b = take i a"
  by (auto simp: prefix_def)

lemma prefix_take: "prefix a b \<Longrightarrow> length a \<le> i \<Longrightarrow> prefix a (take i b)"
  by (auto simp: prefix_def)

lemma cluster_safe_copy:
  assumes safe: "cluster_safe f (Some l) C" and lr: "f (ld_node l) = Some lr" and n: "f n = Some r"
    and ne: "n \<noteq> ld_node l" and i: "i < length (rp_log lr)" "le_epoch (rp_log lr ! i) = ld_epoch l"
    and r': "rp_log r' = take (Suc i) (rp_log lr)" "rp_promised r \<le> rp_promised r'"
      "rp_committed r' = rp_committed r"
    and differs: "\<not> prefix (take (Suc i) (rp_log lr)) (rp_log r)"
  shows "cluster_safe (f(n \<mapsto> r')) (Some l) C"
proof -
  note D = cluster_safeD [OF safe]
  note E = leader_okD [OF D(8) [OF refl]]
  note C = E(4) [OF lr]
  have pre: "prefix (rp_log r') (rp_log lr)" using r'(1) take_is_prefix by simp
  have long: "prefix C (rp_log r')" if "length C \<le> Suc i"
    using C that r'(1) by (simp add: prefix_take)
  have keep: "prefix C (rp_log r')" if "prefix C (rp_log r)"
  proof (rule long, rule ccontr)
    assume "\<not> length C \<le> Suc i"
    then have "take (Suc i) (rp_log lr) = take (Suc i) C" using take_prefix_of_prefix [OF C] by simp
    then have "prefix (take (Suc i) (rp_log lr)) (rp_log r)"
      using that take_is_prefix prefix_order.trans by metis
    with differs show False ..
  qed
  have key: "prefix C (rp_log r')" if "C \<noteq> []" "log_key C \<le> log_key (rp_log r')"
  proof (rule long, rule ccontr)
    assume "\<not> length C \<le> Suc i"
    then have idx: "i < length C - 1" by simp
    have gC: "good_log C" using D(2) [OF lr] C good_log_prefix by blast
    have last: "C ! (length C - 1) = rp_log lr ! (length C - 1)" "length C \<le> length (rp_log lr)"
      using C that(1) by (auto simp: prefix_def nth_append)
    have "log_key (rp_log r') = (ld_epoch l, i)"
    proof -
      have "rp_log r' \<noteq> []" "length (rp_log r') = Suc i" using i(1) r'(1) by auto
      then show ?thesis
        using good_log_key [OF good_log_prefix [OF D(2) [OF lr] pre]] i r'(1) by simp
    qed
    moreover have "le_epoch (C ! (length C - 1)) \<ge> ld_epoch l"
      using good_log_epoch_mono [OF D(2) [OF lr], of i "length C - 1"] idx last i by simp
    ultimately show False
      using that(2) idx by (simp add: good_log_key [OF gC that(1)] less_eq_prod_def)
  qed
  have "leader_ok (f(n \<mapsto> r')) l C"
    by (rule leader_ok_upd [OF D(8) [OF refl] D(1) n r'(2)])
      (use ne r'(1) i lr E(5) [OF lr] in auto)
  moreover have "good_log (rp_log r')" using D(2) [OF lr] pre good_log_prefix by blast
  moreover have "logs_match (rp_log r') (rp_log q)" if "f m = Some q" for m q
    using logs_match_prefix [OF D(4) [OF lr that] pre] .
  ultimately show ?thesis
    by (intro cluster_safe_upd [OF safe n]) (use keep key r'(3) D(3) [OF n] in auto)
qed

lemma find_first_mismatch:
  assumes "find (\<lambda>p. a ! p \<noteq> b ! p) [0..<m] = Some p" and "m \<le> length a" and "m \<le> length b"
  shows "p < m \<and> a ! p \<noteq> b ! p \<and> take p a = take p b"
proof -
  obtain k where k: "k < m" "a ! k \<noteq> b ! k" "p = k" and before: "\<forall>j < k. a ! j = b ! j"
    using assms(1) by (auto simp: find_Some_iff)
  have "take k a = take k b"
    by (rule nth_equalityI) (use k(1) before assms(2,3) in auto)
  with k show ?thesis by simp
qed

lemma find_no_mismatch:
  assumes "find (\<lambda>p. a ! p \<noteq> b ! p) [0..<m] = None" and "m \<le> length a" and "m \<le> length b"
  shows "take m a = take m b"
  by (rule nth_equalityI) (use assms in \<open>auto simp: find_None_iff\<close>)

lemma truncate_uncommitted_Inr:
  "truncate_uncommitted i r = Inr r' \<Longrightarrow> r' = r\<lparr>rp_log := take i (rp_log r)\<rparr>"
  by (simp add: truncate_uncommitted_def split: if_splits)

text \<open>
  What replication leaves on the follower: its log as it was, or the leader's log up to
  and including the entry, in which case the follower did not have those entries.
\<close>

lemma replicate_follower_cases:
  assumes run: "replicate_follower (take i L) e r = (res, r')"
    and i: "i < length L" "L ! i = e" "le_offset e = i"
  shows "rp_committed r' = rp_committed r \<and> rp_promised r \<le> rp_promised r' \<and>
     (rp_log r' = rp_log r \<or> rp_log r' = take (Suc i) L \<and> \<not> prefix (take (Suc i) L) (rp_log r))"
proof -
  define r1 where "r1 = (if rp_promised r < le_epoch e then r\<lparr>rp_promised := le_epoch e\<rparr> else r)"
  have r1: "rp_log r1 = rp_log r" "rp_committed r1 = rp_committed r" "rp_promised r \<le> rp_promised r1"
    by (auto simp: r1_def)
  let ?m = "min (length (rp_log r)) i"
  have Suc: "take (Suc i) L = take i L @ [e]" using i by (simp add: take_Suc_conv_app_nth)
  have noprefix: "\<not> prefix (take (Suc i) L) (rp_log r)"
    if "p \<le> i" "p < length (rp_log r) \<Longrightarrow> rp_log r ! p \<noteq> L ! p" for p
  proof
    assume "prefix (take (Suc i) L) (rp_log r)"
    then obtain z where "rp_log r = take (Suc i) L @ z" by (auto simp: prefix_def)
    with that i(1) show False by (simp add: nth_append)
  qed
  have pushed: "rp_log r' = take (Suc i) L \<and> rp_committed r' = rp_committed r3 \<and>
      rp_promised r' = rp_promised r3"
    if "(if i < length (rp_log r3) \<and> rp_log r3 ! i = e then (Inr True, r3)
         else case (if i < length (rp_log r3) then truncate_uncommitted i r3 else Inr r3) of
           Inl e \<Rightarrow> (Inl e, r3)
         | Inr r4 \<Rightarrow>
             if i \<noteq> length (rp_log r4) then (Inl LogGap, r4)
             else if take i (rp_log r4) \<noteq> take i L then (Inl PrefixMismatch, r4)
             else (Inr False, r4\<lparr>rp_log := rp_log r4 @ [e]\<rparr>)) = (res, r')"
      "rp_log r3 = take i L" for r3
    using that i by (auto simp: Suc)
  show ?thesis
  proof (cases "find (\<lambda>p. rp_log r ! p \<noteq> take i L ! p) [0..<?m]")
    case None
    then have eq: "take ?m (rp_log r) = take ?m (take i L)"
      by (rule find_no_mismatch) (use i in auto)
    show ?thesis
    proof (cases "length (rp_log r) < i")
      case True
      then have "rp_log r @ drop (length (rp_log r)) (take i L) = take i L"
        using eq by (metis append_take_drop_id less_imp_le min.absorb1 take_all_iff order_refl)
      then show ?thesis
        using pushed [of "r1\<lparr>rp_log := take i L\<rparr>"] run None r1 True i noprefix [of "length (rp_log r)"]
        by (simp add: replicate_follower_def r1_def [symmetric] Let_def min_def)
    next
      case False
      then have pre: "take i (rp_log r) = take i L" using eq by (simp add: min_absorb2 not_less)
      have shared: "min (length (rp_log r)) i = i" using False by simp
      have run': "(if i < length (rp_log r1) \<and> rp_log r1 ! i = e then (Inr True, r1)
         else case (if i < length (rp_log r1) then truncate_uncommitted i r1 else Inr r1) of
           Inl e \<Rightarrow> (Inl e, r1)
         | Inr r4 \<Rightarrow>
             if i \<noteq> length (rp_log r4) then (Inl LogGap, r4)
             else if take i (rp_log r4) \<noteq> take i L then (Inl PrefixMismatch, r4)
             else (Inr False, r4\<lparr>rp_log := rp_log r4 @ [e]\<rparr>)) = (res, r')"
        using run None r1(1) shared i(1,3) False
        by (simp add: replicate_follower_def r1_def [symmetric] Let_def)
      show ?thesis
      proof (cases "i < length (rp_log r)")
        case False
        with \<open>\<not> length (rp_log r) < i\<close> have "rp_log r1 = take i L" using pre r1(1) by simp
        with pushed [OF run'] r1 False noprefix [of i] show ?thesis by simp
      next
        case True
        show ?thesis
        proof (cases "rp_log r ! i = e")
          case True
          with \<open>i < length (rp_log r)\<close> run' r1 show ?thesis by simp
        next
          case False
          then have no: "\<not> prefix (take (Suc i) L) (rp_log r)" using noprefix [of i] i(2) by simp
          show ?thesis
          proof (cases "truncate_uncommitted i r1")
            case (Inl err)
            with run' True False r1 show ?thesis by simp
          next
            case (Inr r4)
            then have "r4 = r1\<lparr>rp_log := take i L\<rparr>" using r1(1) pre by (auto dest!: truncate_uncommitted_Inr)
            with Inr run' True False r1 no i(1) show ?thesis by (simp add: Suc min_absorb2) auto
          qed
        qed
      qed
    qed
  next
    case (Some p)
    then have p: "p < ?m \<and> rp_log r ! p \<noteq> take i L ! p \<and> take p (rp_log r) = take p (take i L)"
      by (rule find_first_mismatch) (use i in auto)
    show ?thesis
    proof (cases "truncate_uncommitted p r1")
      case (Inl err)
      then show ?thesis
        using run Some r1 i by (simp add: replicate_follower_def r1_def [symmetric] Let_def)
    next
      case (Inr r2)
      then have r2: "r2 = r1\<lparr>rp_log := take p (take i L)\<rparr>"
        using truncate_uncommitted_Inr [OF Inr] p r1(1) by simp
      have len: "length (rp_log r2) = p" "p < i" using r2 p i(1) by auto
      have whole: "rp_log r2 @ drop p (take i L) = take i L"
      proof -
        have "rp_log r2 = take p (take i L)" by (simp add: r2)
        then show ?thesis by (simp only: append_take_drop_id)
      qed
      have neq: "rp_log r ! p \<noteq> L ! p" using p len(2) by simp
      have "replicate_follower (take i L) e r =
         (if i < length (take i L) \<and> take i L ! i = e then (Inr True, r2\<lparr>rp_log := take i L\<rparr>)
         else case (if i < length (take i L) then truncate_uncommitted i (r2\<lparr>rp_log := take i L\<rparr>)
                    else Inr (r2\<lparr>rp_log := take i L\<rparr>)) of
           Inl e \<Rightarrow> (Inl e, r2\<lparr>rp_log := take i L\<rparr>)
         | Inr r4 \<Rightarrow>
             if i \<noteq> length (rp_log r4) then (Inl LogGap, r4)
             else if take i (rp_log r4) \<noteq> take i L then (Inl PrefixMismatch, r4)
             else (Inr False, r4\<lparr>rp_log := rp_log r4 @ [e]\<rparr>))"
        using Some Inr r1(1) i(1,3) len whole
        by (simp add: replicate_follower_def r1_def [symmetric] Let_def min_absorb2)
      with run pushed [of "r2\<lparr>rp_log := take i L\<rparr>"] noprefix [of p] neq len(2) r1 r2 show ?thesis
        by simp
    qed
  qed
qed

subsection \<open>Commit\<close>

lemma majority_mono:
  assumes "finite (dom f)" and "majority f P" and "\<And>n r. f n = Some r \<Longrightarrow> P r \<Longrightarrow> Q r"
  shows "majority f Q"
proof -
  have "card {n. \<exists>r. f n = Some r \<and> P r} \<le> card {n. \<exists>r. f n = Some r \<and> Q r}"
    by (rule card_mono [OF finite_holders [OF assms(1)]]) (use assms(3) in auto)
  with assms(2) show ?thesis by (simp add: majority_def)
qed

lemma cluster_safe_commit:
  assumes safe: "cluster_safe f (Some l) C" and lr: "f (ld_node l) = Some lr"
    and i: "length C < length (rp_log lr)" and e: "rp_log lr ! length C = e" "le_epoch e = ld_epoch l"
    and maj: "majority f (\<lambda>r. replica_entry r (length C) = Some e)"
  shows "cluster_safe f (Some l) (C @ [e])"
proof -
  note D = cluster_safeD [OF safe]
  note E = leader_okD [OF D(8) [OF refl]]
  have C': "C @ [e] = take (Suc (length C)) (rp_log lr)"
    using E(4) [OF lr] i e(1) by (auto simp: prefix_def take_Suc_conv_app_nth)
  have pre: "prefix (C @ [e]) (rp_log lr)" unfolding C' by (rule take_is_prefix)
  have same: "prefix (C @ [e]) (rp_log r)"
    if "f n = Some r" "length C \<le> k" "k < length (rp_log r)" "k < length (rp_log lr)"
      "le_epoch (rp_log r ! k) = le_epoch (rp_log lr ! k)" for n r k
  proof -
    have "take (Suc k) (rp_log r) = take (Suc k) (rp_log lr)"
      using D(4) [OF that(1) lr] that by (simp add: logs_match_def)
    moreover have "prefix (C @ [e]) (take (Suc k) (rp_log lr))"
      using pre that(2) by (intro prefix_take) auto
    ultimately show ?thesis using take_is_prefix prefix_order.trans by metis
  qed
  have "majority f (\<lambda>r. prefix (C @ [e]) (rp_log r))"
    by (rule majority_mono [OF D(1) maj])
      (use same [of _ _ "length C"] i e in \<open>auto simp: replica_entry_def split: if_splits\<close>)
  moreover have "prefix (C @ [e]) (rp_log r)"
    if n: "f n = Some r" and key: "log_key (C @ [e]) \<le> log_key (rp_log r)" for n r
  proof -
    have kC: "log_key (C @ [e]) = (ld_epoch l, length C)"
      using good_log_key [OF good_log_prefix [OF D(2) [OF lr] pre]] e by simp
    then have ne: "rp_log r \<noteq> []" using key E(1) by (auto simp: log_key_def less_eq_prod_def)
    let ?k = "length (rp_log r) - 1"
    have k: "?k < length (rp_log r)" using ne by simp
    have "log_key (rp_log r) = (le_epoch (rp_log r ! ?k), ?k)" by (rule good_log_key [OF D(2) [OF n] ne])
    with key kC E(5) [OF n k] have "le_epoch (rp_log r ! ?k) = ld_epoch l \<and> length C \<le> ?k"
      by (auto simp: less_eq_prod_def)
    with same [OF n _ k] E(6) [OF lr n k] show ?thesis by simp
  qed
  moreover have "leader_ok f l (C @ [e])"
    unfolding leader_ok_def using E(1) E(2) lr pre E(5) E(6) [OF lr] by (intro conjI exI [of _ lr]) auto
  ultimately show ?thesis
    using D(1-4) unfolding cluster_safe_def by (auto intro: less_SucI)
qed

subsection \<open>Election\<close>

lemma epochs_below_new:
  assumes safe: "cluster_safe f ld C" and V: "V \<subseteq> dom f" "card (dom f) < 2 * card V"
    and fresh: "\<And>n r. n \<in> V \<Longrightarrow> f n = Some r \<Longrightarrow> rp_promised r < ep"
    and r: "f n = Some r" "i < length (rp_log r)"
  shows "le_epoch (rp_log r ! i) < ep"
proof (cases ld)
  case None
  then show ?thesis using cluster_safeD(7) [OF safe None r(1)] r(2) by simp
next
  case (Some l)
  note E = leader_okD [OF cluster_safeD(8) [OF safe Some]]
  obtain m q where "m \<in> V" "f m = Some q" "ld_epoch l \<le> rp_promised q"
    using majority_meets [OF cluster_safeD(1) [OF safe] E(2) V] by auto
  then have "ld_epoch l < ep" using fresh [of m q] by simp
  then show ?thesis using E(5) [OF r] by simp
qed

lemma source_has_committed:
  assumes safe: "cluster_safe f ld C" and V: "V \<subseteq> dom f" "card (dom f) < 2 * card V"
    and s: "f s = Some sr"
    and best: "\<And>n r. n \<in> V \<Longrightarrow> f n = Some r \<Longrightarrow> C \<noteq> [] \<Longrightarrow> length C \<le> length (rp_log r) \<Longrightarrow>
       log_key (rp_log r) \<le> log_key (rp_log sr)"
  shows "prefix C (rp_log sr)"
proof (cases "C = []")
  case False
  obtain v r where v: "v \<in> V" "f v = Some r" "prefix C (rp_log r)"
    using majority_meets [OF cluster_safeD(1) [OF safe] cluster_safeD(5) [OF safe] V] by auto
  have "log_key C \<le> log_key (rp_log r)"
    by (rule log_key_prefix_le [OF cluster_safeD(2) [OF safe v(2)] v(3)])
  also have "\<dots> \<le> log_key (rp_log sr)"
    by (rule best [OF v(1,2) False]) (use v(3) prefix_length_le in blast)
  finally show ?thesis by (rule cluster_safeD(6) [OF safe s False])
qed simp

lemma cluster_safe_elect:
  assumes safe: "cluster_safe f ld C" and c: "f cand = Some r" and s: "f s = Some sr"
    and C: "prefix C (rp_log sr)"
    and low: "\<And>n r i. f n = Some r \<Longrightarrow> i < length (rp_log r) \<Longrightarrow> le_epoch (rp_log r ! i) < ep"
    and maj: "majority f (\<lambda>r. ep \<le> rp_promised r)" and ep: "1 \<le> ep"
    and r': "rp_log r' = rp_log sr" "rp_promised r' = rp_promised r"
      "\<And>x. rp_committed r' = Some x \<Longrightarrow> x < length C"
  shows "cluster_safe (f(cand \<mapsto> r')) (Some \<lparr>ld_node = cand, ld_epoch = ep\<rparr>) C"
proof -
  note D = cluster_safeD [OF safe]
  have maj': "majority (f(cand \<mapsto> r')) (\<lambda>r. ep \<le> rp_promised r)"
    using D(1) maj c by (rule majority_upd) (use r'(2) in auto)
  have lt: "le_epoch (rp_log q ! i) < ep" if "(f(cand \<mapsto> r')) m = Some q" "i < length (rp_log q)" for m q i
    using that low [OF s] low [of m q i] r'(1) by (auto split: if_splits)
  have "leader_ok (f(cand \<mapsto> r')) \<lparr>ld_node = cand, ld_epoch = ep\<rparr> C"
    unfolding leader_ok_def leader.simps
  proof (intro conjI exI [of _ r'] allI impI)
    fix n q i assume "(f(cand \<mapsto> r')) n = Some q" "i < length (rp_log q)"
    then have "le_epoch (rp_log q ! i) < ep" by (rule lt)
    then show "le_epoch (rp_log q ! i) \<le> ep" by simp
    assume "le_epoch (rp_log q ! i) = ep"
    with \<open>le_epoch (rp_log q ! i) < ep\<close>
    show "i < length (rp_log r')" "le_epoch (rp_log r' ! i) = ep" by simp_all
  qed (use ep maj' C r'(1) in simp_all)
  then show ?thesis
    by (intro cluster_safe_upd [OF safe c]) (use C r' D(2) [OF s] D(4) [OF s] in auto)
qed

section \<open>Safety of the modelled operations\<close>

definition pm_safe :: "partition_model \<Rightarrow> log_entry list \<Rightarrow> bool" where
  "pm_safe s C \<longleftrightarrow> bt_wf (pm_replicas s) \<and> bt_wf (pm_committed s) \<and>
     cluster_safe (bt_get (pm_replicas s)) (pm_leader s) C \<and>
     (\<forall>i. bt_get (pm_committed s) i = (if i < length C then Some (le_digest (C ! i)) else None))"

lemma pm_safe_append:
  assumes "pm_safe s C"
  shows "pm_safe (snd (pm_append d s)) C"
proof (cases "pm_leader s")
  case (Some l)
  show ?thesis
  proof (cases "bt_get (pm_replicas s) (ld_node l)")
    case (Some r)
    then have "cluster_safe ((bt_get (pm_replicas s))(ld_node l \<mapsto>
        r\<lparr>rp_log := rp_log r @ [\<lparr>le_offset = length (rp_log r), le_epoch = ld_epoch l, le_digest = d\<rparr>]\<rparr>))
        (Some l) C"
      using assms \<open>pm_leader s = Some l\<close> by (intro cluster_safe_append [where r = r]) (auto simp: pm_safe_def)
    with assms Some \<open>pm_leader s = Some l\<close> show ?thesis
      by (simp add: pm_append_def pm_safe_def Let_def bt_get_insert_fun split: sum.split)
  qed (use assms Some in \<open>simp add: pm_append_def\<close>)
qed (use assms in \<open>simp add: pm_append_def\<close>)

lemma pm_safe_replicate:
  assumes "pm_safe s C"
  shows "pm_safe (snd (pm_replicate n e s)) C"
proof (cases "snd (pm_replicate n e s) = s")
  case False
  then obtain l lr r res r' where l: "pm_leader s = Some l" and ne: "n \<noteq> ld_node l"
    and e: "le_epoch e = ld_epoch l" and lr: "bt_get (pm_replicas s) (ld_node l) = Some lr"
    and ent: "replica_entry lr (le_offset e) = Some e" and r: "bt_get (pm_replicas s) n = Some r"
    and run: "replicate_follower (take (le_offset e) (rp_log lr)) e r = (res, r')"
    by (auto simp: pm_replicate_def split: option.splits if_splits prod.splits)
  let ?i = "le_offset e"
  have i: "?i < length (rp_log lr)" "rp_log lr ! ?i = e"
    using ent by (auto simp: replica_entry_def split: if_splits)
  have safe: "cluster_safe (bt_get (pm_replicas s)) (Some l) C" using assms l by (simp add: pm_safe_def)
  have r': "rp_committed r' = rp_committed r" "rp_promised r \<le> rp_promised r'"
    and log: "rp_log r' = rp_log r \<or>
      rp_log r' = take (Suc ?i) (rp_log lr) \<and> \<not> prefix (take (Suc ?i) (rp_log lr)) (rp_log r)"
    using replicate_follower_cases [OF run i refl] by auto
  from log have "cluster_safe ((bt_get (pm_replicas s))(n \<mapsto> r')) (Some l) C"
  proof
    assume "rp_log r' = rp_log r"
    then show ?thesis
      by (rule cluster_safe_frame [OF safe r]) (use r' cluster_safeD(3) [OF safe r] in simp_all)
  next
    assume "rp_log r' = take (Suc ?i) (rp_log lr) \<and> \<not> prefix (take (Suc ?i) (rp_log lr)) (rp_log r)"
    then show ?thesis
      using cluster_safe_copy [OF safe lr r ne i(1)] i(2) e r' by simp
  qed
  moreover have "snd (pm_replicate n e s) = s\<lparr>pm_replicas := bt_insert n r' (pm_replicas s)\<rparr>"
    using False l ne e lr ent r run i(1)
    by (auto simp: pm_replicate_def Let_def split: if_splits sum.splits bool.splits)
  ultimately show ?thesis using assms l by (simp add: pm_safe_def bt_get_insert_fun)
qed (use assms in simp)

lemma pm_safe_set_committed:
  assumes "pm_safe s C" and "bt_get (pm_replicas s) n = Some r" and "i < length C"
  shows "pm_safe (s\<lparr>pm_replicas := bt_insert n (r\<lparr>rp_committed := Some i\<rparr>) (pm_replicas s)\<rparr>) C"
  using assms cluster_safe_frame [of "bt_get (pm_replicas s)" "pm_leader s" C n r "r\<lparr>rp_committed := Some i\<rparr>"]
  by (simp add: pm_safe_def bt_get_insert_fun)

lemma pm_safe_propagate:
  assumes "pm_safe s C"
  shows "pm_safe (snd (pm_propagate_commit n i s)) C"
proof (cases "snd (pm_propagate_commit n i s) = s")
  case False
  then obtain x r where "bt_get (pm_committed s) i = Some x" and r: "bt_get (pm_replicas s) n = Some r"
    and res: "snd (pm_propagate_commit n i s) =
      s\<lparr>pm_replicas := bt_insert n (r\<lparr>rp_committed := Some i\<rparr>) (pm_replicas s)\<rparr>"
    by (auto simp: pm_propagate_commit_def Let_def split: option.splits if_splits)
  then have "i < length C" using assms by (auto simp: pm_safe_def split: if_splits)
  with assms r res show ?thesis by (simp add: pm_safe_set_committed)
qed (use assms in simp)

lemma pm_safe_commit:
  assumes safe: "pm_safe s C"
  shows "\<exists>D. pm_safe (snd (pm_commit i s)) (C @ D)"
proof (cases "snd (pm_commit i s) = s")
  case True
  then show ?thesis using safe by (intro exI [of _ "[]"]) simp
next
  case False
  let ?R = "pm_replicas s"
  obtain l lr e where l: "pm_leader s = Some l" and lr: "bt_get ?R (ld_node l) = Some lr"
    and ent: "replica_entry lr i = Some e" and e: "le_epoch e = ld_epoch l"
    and count: "\<not> length (filter (\<lambda>r. replica_entry r i = Some e) (bt_values ?R)) < pm_quorum s"
    and gap: "\<not> (i > 0 \<and> \<not> bt_contains (pm_committed s) (i - 1))"
    using False by (auto simp: pm_commit_def bind_eq_Some_conv split: option.splits if_splits)
  let ?s1 = "s\<lparr>pm_committed := bt_insert i (le_digest e) (pm_committed s)\<rparr>"
  let ?s2 = "?s1\<lparr>pm_replicas := bt_insert (ld_node l) (lr\<lparr>rp_committed := Some i\<rparr>) ?R\<rparr>"
  have cs: "cluster_safe (bt_get ?R) (Some l) C"
    and cv: "\<And>k. bt_get (pm_committed s) k = (if k < length C then Some (le_digest (C ! k)) else None)"
    and wf: "bt_wf ?R"
    using safe l by (auto simp: pm_safe_def)
  have i: "i < length (rp_log lr)" "rp_log lr ! i = e"
    using ent by (auto simp: replica_entry_def split: if_splits)
  have le: "i \<le> length C" using gap cv [of "i - 1"] by (auto simp: bt_contains_def split: if_splits)
  obtain D where s1: "pm_safe ?s1 (C @ D)" and iD: "i < length (C @ D)"
    and same: "bt_get (pm_committed s) i \<noteq> None \<Longrightarrow> bt_get (pm_committed s) i = Some (le_digest e)"
  proof (cases "i < length C")
    case True
    have "prefix C (rp_log lr)" using leader_okD(4) [OF cluster_safeD(8) [OF cs refl] lr] .
    then have "C ! i = e" using True i by (auto simp: prefix_def nth_append)
    moreover from this have "pm_safe ?s1 C" using safe True by (auto simp: pm_safe_def)
    ultimately show ?thesis using that [of "[]"] True cv by simp
  next
    case False
    with le have iC: "i = length C" by simp
    have "majority (bt_get ?R) (\<lambda>r. replica_entry r i = Some e)"
      using count count_values [OF wf, of "\<lambda>r. replica_entry r i = Some e"] card_dom_bt [OF wf]
      by (simp add: majority_def pm_quorum_def)
    then have "cluster_safe (bt_get ?R) (Some l) (C @ [e])"
      using cluster_safe_commit [OF cs lr] i e iC by simp
    then have "pm_safe ?s1 (C @ [e])"
      using safe l iC by (auto simp: pm_safe_def nth_append)
    then show ?thesis using that [of "[e]"] iC cv by simp
  qed
  have "(bt_get (pm_committed s) i \<noteq> None \<and> bt_get (pm_committed s) i \<noteq> Some (le_digest e)) = False"
    "(i > 0 \<and> \<not> bt_contains (pm_committed s) (i - 1)) = False"
    using same gap by blast+
  then have "snd (pm_commit i s) = ?s2"
    using l lr ent e count
    by (simp add: pm_commit_def Let_def del: not_None_eq de_Morgan_conj One_nat_def)
  moreover have "pm_safe ?s2 (C @ D)"
    using pm_safe_set_committed [OF s1 _ iD, of "ld_node l" lr] lr by simp
  ultimately show ?thesis by auto
qed

lemma promise_voters_safe:
  assumes "cluster_safe (bt_get R) ld C" and "bt_wf R" and "distinct ns"
    and "\<And>n. n \<in> set ns \<Longrightarrow> \<exists>r. bt_get R n = Some r \<and> rp_promised r < ep"
    and "promise_voters ep ns R = (res, R')"
  shows "res = Inr () \<and> bt_wf R' \<and> cluster_safe (bt_get R') ld C \<and>
     (\<forall>n. bt_get R' n = map_option (\<lambda>r. if n \<in> set ns then r\<lparr>rp_promised := ep\<rparr> else r) (bt_get R n))"
  using assms
proof (induction ns arbitrary: R)
  case Nil
  then show ?case by (auto simp: option.map_ident)
next
  case (Cons n ns)
  obtain r where r: "bt_get R n = Some r" "rp_promised r < ep" using Cons.prems(4) by auto
  let ?R = "bt_insert n (r\<lparr>rp_promised := ep\<rparr>) R"
  have safe: "cluster_safe (bt_get ?R) ld C"
    unfolding bt_get_insert_fun
    by (rule cluster_safe_frame [OF Cons.prems(1) r(1)])
      (use r(2) cluster_safeD(3) [OF Cons.prems(1) r(1)] in auto)
  have "\<exists>q. bt_get ?R m = Some q \<and> rp_promised q < ep" if "m \<in> set ns" for m
    using Cons.prems(3) Cons.prems(4) [of m] that by auto
  moreover have "promise_voters ep ns ?R = (res, R')" using Cons.prems(5) r(1) by simp
  ultimately have IH: "res = Inr () \<and> bt_wf R' \<and> cluster_safe (bt_get R') ld C \<and>
     (\<forall>m. bt_get R' m = map_option (\<lambda>r. if m \<in> set ns then r\<lparr>rp_promised := ep\<rparr> else r) (bt_get ?R m))"
    using Cons.prems(2,3) by (intro Cons.IH [OF safe]) auto
  then have "bt_get R' m = map_option (\<lambda>r. if m \<in> set (n # ns) then r\<lparr>rp_promised := ep\<rparr> else r) (bt_get R m)"
    for m
    using r(1) Cons.prems(3) by (cases "m = n") auto
  with IH show ?case by blast
qed

text \<open>The source chosen by an election is a voter's log, of maximal key among the eligible voters.\<close>

lemma election_source_Some:
  assumes "election_source R V safe = Some src"
  obtains s sr where "s \<in> set V" and "bt_get R s = Some sr" and "src = rp_log sr"
    and "\<And>n r. n \<in> set V \<Longrightarrow> bt_get R n = Some r \<Longrightarrow>
      (\<And>c. safe = Some c \<Longrightarrow> \<exists>x. replica_last_offset r = Some x \<and> c \<le> x) \<Longrightarrow>
      log_key (rp_log r) \<le> log_key src"
proof -
  let ?ok = "\<lambda>(n, r). case safe of None \<Rightarrow> True
                    | Some c \<Rightarrow> (case replica_last_offset r of None \<Rightarrow> False | Some l \<Rightarrow> c \<le> l)"
  let ?xs = "filter ?ok (List.map_filter (\<lambda>n. map_option (Pair n) (bt_get R n)) V)"
  obtain s sr where best: "max_by_key (\<lambda>(n, r). (log_key (rp_log r), n)) ?xs = Some (s, sr)"
    and src: "src = rp_log sr"
    using assms by (auto simp: election_source_def)
  have mem: "(n, r) \<in> set ?xs \<longleftrightarrow> n \<in> set V \<and> bt_get R n = Some r \<and> ?ok (n, r)" for n r
    by (force simp: List.map_filter_def image_iff)
  note M = max_by_key_Some [OF best]
  show ?thesis
  proof (rule that)
    show "s \<in> set V" "bt_get R s = Some sr" using M mem by auto
    show "src = rp_log sr" by (rule src)
    fix n r
    assume "n \<in> set V" "bt_get R n = Some r"
      and "\<And>c. safe = Some c \<Longrightarrow> \<exists>x. replica_last_offset r = Some x \<and> c \<le> x"
    then have "(n, r) \<in> set ?xs" unfolding mem by (auto split: option.splits)
    with M have "(log_key (rp_log r), n) \<le> (log_key (rp_log sr), s)" by fastforce
    then show "log_key (rp_log r) \<le> log_key src" using src by auto
  qed
qed

lemma replica_last_offset_ge:
  assumes "good_log (rp_log r)" and "c < length (rp_log r)"
  shows "\<exists>x. replica_last_offset r = Some x \<and> c \<le> x"
  using assms by (auto simp: replica_last_offset_def good_log_def last_conv_nth)

lemma pm_elect_changed:
  assumes "snd (pm_elect c ep V s) \<noteq> s"
  obtains src where "pm_quorum s \<le> length V" "c \<in> set V" "\<forall>n \<in> set V. bt_contains (pm_replicas s) n"
    "\<forall>n \<in> set V. \<forall>r. bt_get (pm_replicas s) n = Some r \<longrightarrow> rp_promised r < ep"
    "election_source (pm_replicas s) V (safe_committed (pm_replicas s) V) = Some src"
  using assms
  by (auto simp: pm_elect_def Let_def list_ex_iff linorder_not_less linorder_not_le
      split: if_splits option.splits)

definition quorum_of :: "partition_model \<Rightarrow> nat list \<Rightarrow> bool" where
  "quorum_of s V \<longleftrightarrow> distinct V \<and> pm_quorum s \<le> length V \<and> (\<forall>n \<in> set V. bt_contains (pm_replicas s) n)"

lemma quorum_ofD:
  assumes "quorum_of s V" and "bt_wf (pm_replicas s)"
  shows "distinct V" and "set V \<subseteq> dom (bt_get (pm_replicas s))"
    and "card (dom (bt_get (pm_replicas s))) < 2 * card (set V)"
  using assms by (auto simp: quorum_of_def bt_contains_def pm_quorum_def distinct_card card_dom_bt [OF assms(2)])

lemma safe_committed_lt:
  assumes "pm_safe s C" and "safe_committed (pm_replicas s) V = Some x"
  shows "x < length C"
proof -
  have "x \<in> set (List.map_filter (\<lambda>n. Option.bind (bt_get (pm_replicas s) n) rp_committed) V)"
    using list_max_Some assms(2) by (auto simp: safe_committed_def)
  then show ?thesis
    using assms(1) cluster_safeD(3) by (auto simp: pm_safe_def List.map_filter_def bind_eq_Some_conv)
qed

lemma voter_eligible:
  assumes "pm_safe s C" and "bt_get (pm_replicas s) n = Some r" and "length C \<le> length (rp_log r)"
    and "safe_committed (pm_replicas s) V = Some y"
  shows "\<exists>x. replica_last_offset r = Some x \<and> y \<le> x"
proof (rule replica_last_offset_ge)
  have "cluster_safe (bt_get (pm_replicas s)) (pm_leader s) C" using assms(1) by (simp add: pm_safe_def)
  then show "good_log (rp_log r)" using assms(2) by (rule cluster_safeD(2))
  show "y < length (rp_log r)" using safe_committed_lt [OF assms(1,4)] assms(3) by simp
qed

lemma election_source_prefix:
  assumes safe: "pm_safe s C" and V: "quorum_of s V"
    and src: "election_source (pm_replicas s) V (safe_committed (pm_replicas s) V) = Some src"
  obtains z sr where "bt_get (pm_replicas s) z = Some sr" "src = rp_log sr" "prefix C src"
proof -
  let ?R = "pm_replicas s" let ?safe = "safe_committed ?R V"
  have cs: "cluster_safe (bt_get ?R) (pm_leader s) C" and wf: "bt_wf ?R" using safe by (auto simp: pm_safe_def)
  from src obtain z sr where z: "bt_get ?R z = Some sr" "src = rp_log sr"
    and best: "\<And>n r. n \<in> set V \<Longrightarrow> bt_get ?R n = Some r \<Longrightarrow>
      (\<And>c. ?safe = Some c \<Longrightarrow> \<exists>x. replica_last_offset r = Some x \<and> c \<le> x) \<Longrightarrow> log_key (rp_log r) \<le> log_key src"
    by (rule election_source_Some) blast
  have "prefix C (rp_log sr)"
    by (rule source_has_committed [OF cs quorum_ofD(2,3) [OF V wf] z(1)])
      (use best z(2) voter_eligible [OF safe] in simp)
  with z that show thesis by simp
qed

lemma election_source_exists:
  assumes safe: "pm_safe s C" and V: "quorum_of s V"
  shows "\<exists>src. election_source (pm_replicas s) V (safe_committed (pm_replicas s) V) = Some src"
proof -
  let ?R = "pm_replicas s"
  have cs: "cluster_safe (bt_get ?R) (pm_leader s) C" and wf: "bt_wf ?R" using safe by (auto simp: pm_safe_def)
  obtain v r where v: "v \<in> set V" "bt_get ?R v = Some r" "prefix C (rp_log r)"
    using majority_meets [OF cluster_safeD(1,5) [OF cs] quorum_ofD(2,3) [OF V wf]] by auto
  have "\<exists>x. replica_last_offset r = Some x \<and> y \<le> x" if "safe_committed ?R V = Some y" for y
    using voter_eligible [OF safe v(2) _ that] prefix_length_le [OF v(3)] by simp
  then have "case safe_committed ?R V of None \<Rightarrow> True
      | Some c \<Rightarrow> (case replica_last_offset r of None \<Rightarrow> False | Some l \<Rightarrow> c \<le> l)"
    by (auto split: option.splits)
  moreover have "(v, r) \<in> set (List.map_filter (\<lambda>n. map_option (Pair n) (bt_get ?R n)) V)"
    using v by (force simp: List.map_filter_def image_iff)
  ultimately have "election_source ?R V (safe_committed ?R V) \<noteq> None"
    unfolding election_source_def map_option_is_None max_by_key_None filter_empty_conv by fast
  then show ?thesis by blast
qed

lemma majority_promised:
  assumes "finite (dom g)" and dom: "dom g = dom f" and "V \<subseteq> dom f" "card (dom f) < 2 * card V"
    and "\<And>n. n \<in> V \<Longrightarrow> \<exists>r. g n = Some r \<and> ep \<le> rp_promised r"
  shows "majority g (\<lambda>r. ep \<le> rp_promised r)"
proof -
  have "V \<subseteq> {n. \<exists>r. g n = Some r \<and> ep \<le> rp_promised r}" using assms by auto
  then have "card V \<le> card {n. \<exists>r. g n = Some r \<and> ep \<le> rp_promised r}"
    by (rule card_mono [rotated]) (rule finite_holders [OF assms(1)])
  then show ?thesis using assms(4) by (simp add: majority_def dom)
qed

lemma pm_safe_elect:
  assumes safe: "pm_safe s C" and V: "distinct V"
  shows "pm_safe (snd (pm_elect c ep V s)) C"
proof (cases "snd (pm_elect c ep V s) = s")
  case False
  let ?R = "pm_replicas s" let ?safe = "safe_committed ?R V"
  from False obtain src where c: "c \<in> set V" and q: "quorum_of s V"
    and fresh: "\<forall>n \<in> set V. \<forall>r. bt_get ?R n = Some r \<longrightarrow> rp_promised r < ep"
    and src: "election_source ?R V ?safe = Some src"
    using V by (auto simp: quorum_of_def elim: pm_elect_changed)
  have cs: "cluster_safe (bt_get ?R) (pm_leader s) C" and wf: "bt_wf ?R" using safe by (auto simp: pm_safe_def)
  note VR = quorum_ofD(2,3) [OF q wf]
  obtain z sr where z: "bt_get ?R z = Some sr" "src = rp_log sr" "prefix C src"
    by (rule election_source_prefix [OF safe q src])
  obtain res R' where pv: "promise_voters ep V ?R = (res, R')" by fastforce
  have "\<exists>r. bt_get ?R n = Some r \<and> rp_promised r < ep" if "n \<in> set V" for n
    using VR(1) fresh that by auto
  from promise_voters_safe [OF cs wf V this pv]
  have res: "res = Inr ()" and wf': "bt_wf R'" and cs': "cluster_safe (bt_get R') (pm_leader s) C"
    and R': "\<And>n. bt_get R' n = map_option (\<lambda>r. if n \<in> set V then r\<lparr>rp_promised := ep\<rparr> else r) (bt_get ?R n)"
    by auto
  obtain cr where cr: "bt_get R' c = Some cr" using c VR R' by auto
  let ?cr = "cr\<lparr>rp_log := src, rp_committed := ?safe\<rparr>"
  obtain sr' where sr': "bt_get R' z = Some sr'" "rp_log sr' = rp_log sr" using R' z(1) by auto
  have maj: "majority (bt_get R') (\<lambda>r. ep \<le> rp_promised r)"
    by (rule majority_promised [OF cluster_safeD(1) [OF cs'] _ VR]) (use VR(1) R' in auto)
  have low: "le_epoch (rp_log q ! i) < ep" if n: "bt_get R' n = Some q" and i: "i < length (rp_log q)" for n q i
  proof -
    obtain r where r: "bt_get ?R n = Some r" "rp_log q = rp_log r"
      using n R' [of n] by auto
    show ?thesis unfolding r(2)
      by (rule epochs_below_new [OF cs VR _ r(1)]) (use fresh i r(2) in auto)
  qed
  have "cluster_safe ((bt_get R')(c \<mapsto> ?cr)) (Some \<lparr>ld_node = c, ld_epoch = ep\<rparr>) C"
  proof (rule cluster_safe_elect [OF cs' cr sr'(1) _ low maj])
    show "1 \<le> ep" using fresh c VR by fastforce
  qed (use z sr'(2) safe_committed_lt [OF safe] in auto)
  then have "pm_safe (s\<lparr>pm_replicas := bt_insert c ?cr R', pm_leader := Some \<lparr>ld_node = c, ld_epoch = ep\<rparr>\<rparr>) C"
    using safe wf' by (simp add: pm_safe_def bt_get_insert_fun)
  then show ?thesis using src pv res cr safe by (auto simp: pm_elect_def Let_def split: sum.split)
qed (use safe in simp)

end
