(* ===== verification/Partition_Runs.thy ===== *)
theory Partition_Runs
  imports Partition_Safety
begin

text \<open>
  Runs of the replicated partition: the step relation of its five operations, the
  interpretation of the transition-system contract on it, the safety and liveness
  properties of reachable states, and concrete runs that exercise them.
\<close>

section \<open>Runs of the protocol\<close>

inductive pm_step :: "partition_model \<Rightarrow> partition_model \<Rightarrow> bool" where
  elect: "sorted_wrt (<) voters \<Longrightarrow> pm_step s (snd (pm_elect candidate ep voters s))"
| append: "pm_step s (snd (pm_append d s))"
| replicate: "pm_step s (snd (pm_replicate follower entry s))"
| commit: "pm_step s (snd (pm_commit i s))"
| propagate: "pm_step s (snd (pm_propagate_commit n i s))"

text \<open>An executable sequence of requests, for running the protocol on concrete inputs.\<close>

datatype pm_op = Elect nat nat "nat list" | Append nat | Replicate nat log_entry | Commit nat
  | Propagate nat nat

fun pm_exec :: "pm_op \<Rightarrow> partition_model \<Rightarrow> partition_model" where
  "pm_exec (Elect c ep voters) s = (if sorted_wrt (<) voters then snd (pm_elect c ep voters s) else s)"
| "pm_exec (Append d) s = snd (pm_append d s)"
| "pm_exec (Replicate n e) s = snd (pm_replicate n e s)"
| "pm_exec (Commit i) s = snd (pm_commit i s)"
| "pm_exec (Propagate n i) s = snd (pm_propagate_commit n i s)"

lemma pm_exec_step: "pm_step\<^sup>*\<^sup>* s (pm_exec op s)"
  by (cases op) (auto intro: pm_step.intros)

lemma pm_run_steps: "pm_step\<^sup>*\<^sup>* s (fold pm_exec ops s)"
proof (induction ops arbitrary: s)
  case (Cons op ops)
  then show ?case using pm_exec_step [of s op] by (auto intro: rtranclp_trans)
qed simp

definition pm_init :: "partition_model \<Rightarrow> bool" where
  "pm_init s \<longleftrightarrow> (\<exists>nodes. partition_new nodes = Inr s)"

definition committed_le :: "partition_model \<Rightarrow> partition_model \<Rightarrow> bool" where
  "committed_le s t \<longleftrightarrow> bt_get (pm_committed s) \<subseteq>\<^sub>m bt_get (pm_committed t)"

lemma bt_collect_const:
  "bt_get (bt_collect (map (\<lambda>n. (n, v)) ns)) k = Some x \<Longrightarrow> x = v"
proof -
  have "(\<forall>k x. bt_get m k = Some x \<longrightarrow> x = v) \<Longrightarrow>
    bt_get (fold (\<lambda>(k, v) m. bt_insert k v m) (map (\<lambda>n. (n, v)) ns) m) k = Some x \<Longrightarrow> x = v" for m
  proof (induction ns arbitrary: m)
    case (Cons n ns)
    then show ?case using Cons.IH [of "bt_insert n v m"] by simp
  qed simp
  from this [of "[]"] show "bt_get (bt_collect (map (\<lambda>n. (n, v)) ns)) k = Some x \<Longrightarrow> x = v"
    by (simp add: bt_collect_def)
qed

lemma pm_safe_new:
  assumes "partition_new nodes = Inr s"
  shows "pm_safe s []"
proof -
  let ?v = "\<lparr>rp_promised = 0, rp_log = [], rp_committed = None\<rparr>"
  let ?R = "bt_collect (map (\<lambda>n. (n, ?v)) nodes)"
  have s: "s = \<lparr>pm_replicas = ?R, pm_leader = None, pm_committed = []\<rparr>" and len: "3 \<le> length ?R"
    using assms by (auto simp: partition_new_def Let_def split: if_splits)
  have wf: "bt_wf ?R" by (rule bt_wf_collect)
  have all: "rp_log r = [] \<and> rp_committed r = None" if "bt_get ?R n = Some r" for n r
    using bt_collect_const [OF that] by simp
  have "majority (bt_get ?R) (\<lambda>r. prefix [] (rp_log r))"
    using len card_dom_bt [OF wf] by (auto simp: majority_def dom_def)
  moreover have "good_log []" by (simp add: good_log_def)
  ultimately have "cluster_safe (bt_get ?R) None []"
    using finite_dom_bt by (simp add: cluster_safe_def all)
  then show ?thesis using wf s by (simp add: pm_safe_def bt_wf_def bt_get_def)
qed

lemma pm_safe_step:
  assumes "pm_step s t" and "pm_safe s C"
  shows "\<exists>D. pm_safe t (C @ D)"
  using assms
proof (cases rule: pm_step.cases)
  case (elect voters candidate ep)
  then show ?thesis
    using pm_safe_elect [OF assms(2), of voters candidate ep]
    by (intro exI [of _ "[]"]) (simp add: strict_sorted_iff)
next
  case (commit i)
  then show ?thesis using pm_safe_commit [OF assms(2)] by simp
qed (use assms(2) pm_safe_append pm_safe_replicate pm_safe_propagate in \<open>auto intro: exI [of _ "[]"]\<close>)

interpretation pm: monotone_system pm_init pm_step "\<lambda>s. \<exists>C. pm_safe s C" committed_le
proof unfold_locales
  show "pm_init s \<Longrightarrow> \<exists>C. pm_safe s C" for s
    using pm_safe_new by (auto simp: pm_init_def)
  show "\<exists>C. pm_safe s C \<Longrightarrow> pm_step s t \<Longrightarrow> \<exists>C. pm_safe t C" for s t
    using pm_safe_step by blast
  show "committed_le s s" for s by (simp add: committed_le_def)
  show "committed_le s t \<Longrightarrow> committed_le t u \<Longrightarrow> committed_le s u" for s t u
    unfolding committed_le_def by (rule map_le_trans)
  fix s t
  assume "\<exists>C. pm_safe s C" and step: "pm_step s t"
  then obtain C where C: "pm_safe s C" by blast
  then obtain D where "pm_safe t (C @ D)" using pm_safe_step [OF step] by blast
  with C show "committed_le s t"
    by (auto simp: committed_le_def map_le_def pm_safe_def nth_append split: if_splits)
qed

lemma committed_in_C:
  assumes "pm_safe s C" and "bt_get (pm_committed s) i = Some d"
  shows "i < length C" and "le_digest (C ! i) = d"
  using assms by (auto simp: pm_safe_def split: if_splits)

lemma prefix_entry:
  assumes "prefix C (rp_log r)" and "i < length C"
  shows "replica_entry r i = Some (C ! i)"
  using assms by (auto simp: replica_entry_def prefix_def nth_append)

lemma check_source_ok:
  assumes "pm_safe s C" and "prefix C src" and "\<forall>i \<in> set is. i < length C"
  shows "check_source (pm_committed s) src is = Inr ()"
  using assms by (induction "is") (auto simp: pm_safe_def prefix_def nth_append)

text \<open>
  C1. A value committed in a reachable state of the replicated partition is committed with the
  same digest in every later state, whatever operations run in between, elections and failed
  operations included.
\<close>

theorem committed_values_never_change:
  assumes "pm_init s" and "pm_step\<^sup>*\<^sup>* s t" and "bt_get (pm_committed t) i = Some d" and "pm_step\<^sup>*\<^sup>* t u"
  shows "bt_get (pm_committed u) i = Some d"
  using pm.reachable_le [OF assms(1,2,4)] assms(3) by (auto simp: committed_le_def map_le_def dom_def)

text \<open>
  C18. In every reachable state each committed value is held at its offset by at least a quorum
  of the replicas.
\<close>

theorem committed_values_on_a_quorum:
  assumes "pm_init s" and "pm_step\<^sup>*\<^sup>* s t" and d: "bt_get (pm_committed t) i = Some d"
  shows "pm_quorum t \<le> length (filter (\<lambda>r. map_option le_digest (replica_entry r i) = Some d)
            (bt_values (pm_replicas t)))"
proof -
  obtain C where C: "pm_safe t C" using pm.reachable_inv [OF assms(1,2)] by blast
  then have wf: "bt_wf (pm_replicas t)"
    and cs: "cluster_safe (bt_get (pm_replicas t)) (pm_leader t) C" by (auto simp: pm_safe_def)
  note iC = committed_in_C [OF C d]
  have "majority (bt_get (pm_replicas t)) (\<lambda>r. map_option le_digest (replica_entry r i) = Some d)"
    by (rule majority_mono [OF cluster_safeD(1,5) [OF cs]]) (simp add: prefix_entry iC)
  then show ?thesis
    using card_dom_bt [OF wf] count_values [OF wf] by (simp add: majority_def pm_quorum_def)
qed

text \<open>
  C17. In every reachable state the elected leader holds every committed value in its log.
\<close>

theorem leader_completeness:
  assumes "pm_init s" and "pm_step\<^sup>*\<^sup>* s t" and d: "bt_get (pm_committed t) i = Some d"
    and l: "pm_leader t = Some l"
  shows "\<exists>r. bt_get (pm_replicas t) (ld_node l) = Some r \<and> map_option le_digest (replica_entry r i) = Some d"
proof -
  obtain C where C: "pm_safe t C" using pm.reachable_inv [OF assms(1,2)] by blast
  then have "leader_ok (bt_get (pm_replicas t)) l C" using l by (auto simp: pm_safe_def cluster_safe_def)
  from leader_okD(3,4) [OF this] obtain r
    where "bt_get (pm_replicas t) (ld_node l) = Some r" "prefix C (rp_log r)" by auto
  then show ?thesis using committed_in_C [OF C d] by (auto simp: prefix_entry)
qed

text \<open>
  C23. In a reachable state, an election by a quorum of known voters that have promised only
  smaller epochs always finds a safe source log, passes its own safety check, and installs the
  candidate as leader.
\<close>

theorem election_installs_leader:
  assumes "pm_init s" and "pm_step\<^sup>*\<^sup>* s t"
    and V: "sorted_wrt (<) V" "pm_quorum t \<le> length V" "c \<in> set V"
    and fresh: "\<forall>n \<in> set V. \<exists>r. bt_get (pm_replicas t) n = Some r \<and> rp_promised r < ep"
  shows "pm_leader (snd (pm_elect c ep V t)) = Some \<lparr>ld_node = c, ld_epoch = ep\<rparr>"
proof -
  let ?R = "pm_replicas t" let ?safe = "safe_committed ?R V"
  obtain C where C: "pm_safe t C" using pm.reachable_inv [OF assms(1,2)] by blast
  have q: "quorum_of t V" using V fresh by (auto simp: quorum_of_def bt_contains_def strict_sorted_iff)
  obtain src where src: "election_source ?R V ?safe = Some src" using election_source_exists [OF C q] by blast
  have "prefix C src" by (rule election_source_prefix [OF C q src]) simp
  then have chk: "(case ?safe of None \<Rightarrow> Inr () | Some c \<Rightarrow> check_source (pm_committed t) src [0..<Suc c]) = Inr ()"
  proof (cases ?safe)
    case (Some x)
    then have "\<forall>i \<in> set [0..<Suc x]. i < length C" using safe_committed_lt [OF C, of V x] by auto
    with Some show ?thesis using check_source_ok [OF C \<open>prefix C src\<close>] by (simp del: upt_Suc)
  qed simp
  obtain res R' where pv: "promise_voters ep V ?R = (res, R')" by fastforce
  have res: "res = Inr ()"
    and R': "\<And>n. bt_get R' n = map_option (\<lambda>r. if n \<in> set V then r\<lparr>rp_promised := ep\<rparr> else r) (bt_get ?R n)"
    using promise_voters_safe [OF _ _ quorum_ofD(1) [OF q] _ pv] C q fresh by (auto simp: pm_safe_def)
  obtain cr where "bt_get R' c = Some cr" using R' [of c] V(3) fresh by auto
  moreover have "list_ex (\<lambda>n. \<not> bt_contains ?R n) V = False"
    "list_ex (\<lambda>n. case bt_get ?R n of None \<Rightarrow> False | Some r \<Rightarrow> ep \<le> rp_promised r) V = False"
    using fresh by (fastforce simp: list_ex_iff bt_contains_def)+
  ultimately show ?thesis
    using V(2,3) src chk pv res by (simp add: pm_elect_def Let_def)
qed


section \<open>Concrete runs\<close>

definition three_nodes :: partition_model where
  "three_nodes = (case partition_new [0, 1, 2] of Inl _ \<Rightarrow> undefined | Inr s \<Rightarrow> s)"

lemma three_nodes_init: "pm_init three_nodes"
  unfolding pm_init_def three_nodes_def by (rule exI [of _ "[0, 1, 2]"]) code_simp

definition entry_at :: "nat \<Rightarrow> nat \<Rightarrow> nat \<Rightarrow> log_entry" where
  "entry_at i ep d = \<lparr>le_offset = i, le_epoch = ep, le_digest = d\<rparr>"

text \<open>Node 0 appends two entries that stay unreplicated; node 1 is elected and commits two others.\<close>

definition two_leaders :: "pm_op list" where
  "two_leaders = [Elect 0 1 [0, 1], Append 10, Append 11, Elect 1 2 [1, 2], Append 20, Append 11,
     Replicate 2 (entry_at 0 2 20), Replicate 2 (entry_at 1 2 11), Commit 0, Commit 1]"

theorem committed_values_never_change_witness:
  "bt_get (pm_committed (fold pm_exec two_leaders three_nodes)) 0 = Some 20 \<and>
   bt_get (pm_committed (pm_exec (Elect 0 3 [0, 2]) (fold pm_exec two_leaders three_nodes))) 0 = Some 20"
proof -
  have "bt_get (pm_committed (fold pm_exec two_leaders three_nodes)) 0 = Some 20" by code_simp
  then show ?thesis
    using committed_values_never_change [OF three_nodes_init pm_run_steps _ pm_exec_step] by blast
qed

theorem committed_values_on_a_quorum_witness:
  "bt_get (pm_committed (fold pm_exec two_leaders three_nodes)) 1 = Some 11 \<and>
   pm_quorum (fold pm_exec two_leaders three_nodes) \<le>
     length (filter (\<lambda>r. map_option le_digest (replica_entry r 1) = Some 11)
       (bt_values (pm_replicas (fold pm_exec two_leaders three_nodes))))"
proof -
  have "bt_get (pm_committed (fold pm_exec two_leaders three_nodes)) 1 = Some 11" by code_simp
  then show ?thesis
    using committed_values_on_a_quorum [OF three_nodes_init pm_run_steps] by blast
qed

theorem leader_completeness_witness:
  "\<exists>r. bt_get (pm_replicas (fold pm_exec (two_leaders @ [Elect 0 3 [0, 2]]) three_nodes)) 0 = Some r \<and>
     map_option le_digest (replica_entry r 0) = Some 20"
proof -
  let ?t = "fold pm_exec (two_leaders @ [Elect 0 3 [0, 2]]) three_nodes"
  have "bt_get (pm_committed ?t) 0 = Some 20" by code_simp
  moreover have "pm_leader ?t = Some \<lparr>ld_node = 0, ld_epoch = 3\<rparr>" by code_simp
  ultimately show ?thesis
    using leader_completeness [OF three_nodes_init pm_run_steps] by fastforce
qed

theorem election_installs_leader_witness:
  "pm_leader (snd (pm_elect 0 3 [0, 2] (fold pm_exec two_leaders three_nodes))) =
     Some \<lparr>ld_node = 0, ld_epoch = 3\<rparr>"
proof (rule election_installs_leader [OF three_nodes_init pm_run_steps])
  show "sorted_wrt (<) [0, 2::nat]" "(0::nat) \<in> set [0, 2]" by simp_all
  show "pm_quorum (fold pm_exec two_leaders three_nodes) \<le> length [0, 2::nat]" by code_simp
  have "bt_get (pm_replicas (fold pm_exec two_leaders three_nodes)) 0 \<noteq> None \<and>
     bt_get (pm_replicas (fold pm_exec two_leaders three_nodes)) 2 \<noteq> None \<and>
     rp_promised (the (bt_get (pm_replicas (fold pm_exec two_leaders three_nodes)) 0)) < 3 \<and>
     rp_promised (the (bt_get (pm_replicas (fold pm_exec two_leaders three_nodes)) 2)) < 3"
    by code_simp
  then show "\<forall>n \<in> set [0, 2]. \<exists>r. bt_get (pm_replicas (fold pm_exec two_leaders three_nodes)) n = Some r \<and>
     rp_promised r < 3" by auto
qed

lemma propagate_commit_leaves_broken_state:
  defines "s \<equiv> fold pm_exec two_leaders three_nodes"
  shows "pm_check_invariants s = Inr () \<and>
    fst (pm_propagate_commit 0 1 s) = Inl CommittedValueChanged \<and>
    pm_check_invariants (snd (pm_propagate_commit 0 1 s)) = Inl CommittedValueChanged"
  unfolding s_def by code_simp

end
