(* ===== verification/Client_Models.thy ===== *)
theory Client_Models
  imports Partition_Model
begin

text \<open>
  The client-side state machines of \<open>crates/pepper-kafka-model/src/lib.rs\<close>: the
  idempotent producer, the consumer group and the transaction. As in the partition
  model, an operation returns its result and the state it leaves, so that the changes
  made before an error is returned are visible. A producer's sequence numbers tile the
  accepted range, a retry is answered from the recorded batch, and a transaction is
  visible to readers exactly when every partition carries a commit marker.
\<close>

section \<open>Idempotent producer\<close>

record accepted_batch =
  ab_last_sequence :: nat
  ab_base_offset :: nat
  ab_last_offset :: nat
  ab_digest :: nat

datatype produce_outcome = Appended accepted_batch | Duplicate accepted_batch

record producer_state =
  ps_epoch :: nat
  ps_next_sequence :: nat
  ps_accepted :: "(nat, accepted_batch) btree"

definition producer_new :: "nat \<Rightarrow> producer_state" where
  "producer_new ep = \<lparr>ps_epoch = ep, ps_next_sequence = 0, ps_accepted = []\<rparr>"

definition bump_epoch :: "nat \<Rightarrow> producer_state \<Rightarrow> (model_error + unit) \<times> producer_state" where
  "bump_epoch ep s =
     (if ep \<le> ps_epoch s then (Inl ProducerFenced, s)
      else (Inr (), s\<lparr>ps_epoch := ep, ps_next_sequence := 0, ps_accepted := []\<rparr>))"

text \<open>Sequence numbers are \<open>u32\<close> and offsets \<open>u64\<close>.\<close>

definition produce ::
    "nat \<Rightarrow> nat \<Rightarrow> nat \<Rightarrow> nat \<Rightarrow> nat \<Rightarrow> producer_state \<Rightarrow> (model_error + produce_outcome) \<times> producer_state" where
  "produce ep first_sequence count digest next_offset s =
     (if ep \<noteq> ps_epoch s then (Inl ProducerFenced, s)
      else if count = 0 then (Inl EmptyBatch, s)
      else case bt_get (ps_accepted s) first_sequence of
        Some accepted \<Rightarrow>
          if ab_digest accepted = digest then
            (case checked_add 32 first_sequence (count - 1) of
               None \<Rightarrow> (Inl SequenceOverflow, s)
             | Some last_sequence \<Rightarrow>
                 if ab_last_sequence accepted = last_sequence then (Inr (Duplicate accepted), s)
                 else (Inl DuplicateSequenceConflict, s))
          else (Inl DuplicateSequenceConflict, s)
      | None \<Rightarrow>
          if first_sequence \<noteq> ps_next_sequence s then (Inl OutOfOrderSequence, s)
          else (case checked_add 32 first_sequence (count - 1) of
             None \<Rightarrow> (Inl SequenceOverflow, s)
           | Some last_sequence \<Rightarrow>
               (case checked_add 64 next_offset (count - 1) of
                  None \<Rightarrow> (Inl OffsetOverflow, s)
                | Some last_offset \<Rightarrow>
                    (let accepted = \<lparr>ab_last_sequence = last_sequence, ab_base_offset = next_offset,
                                     ab_last_offset = last_offset, ab_digest = digest\<rparr>;
                         s' = s\<lparr>ps_accepted := bt_insert first_sequence accepted (ps_accepted s)\<rparr>
                     in case checked_add 32 last_sequence 1 of
                          None \<Rightarrow> (Inl SequenceOverflow, s')
                        | Some n \<Rightarrow> (Inr (Appended accepted), s'\<lparr>ps_next_sequence := n\<rparr>)))))"

inductive producer_step :: "producer_state \<Rightarrow> producer_state \<Rightarrow> bool" where
  bump: "producer_step s (snd (bump_epoch ep s))"
| produce: "producer_step s (snd (produce ep q count digest off s))"

text \<open>
  Every sequence number below the next one lies in exactly one accepted batch. Only a
  batch that ends at the last representable number may begin at the next one: the
  operation records it and then fails to advance.
\<close>

definition covers :: "producer_state \<Rightarrow> nat \<Rightarrow> nat \<Rightarrow> bool" where
  "covers s q f \<longleftrightarrow> (\<exists>a. bt_get (ps_accepted s) f = Some a \<and> f \<le> q \<and> q \<le> ab_last_sequence a)"

definition batch_ok :: "nat \<Rightarrow> nat \<Rightarrow> accepted_batch \<Rightarrow> bool" where
  "batch_ok n f a \<longleftrightarrow> f \<le> ab_last_sequence a \<and> ab_base_offset a \<le> ab_last_offset a \<and>
     ab_last_offset a - ab_base_offset a = ab_last_sequence a - f \<and>
     (ab_last_sequence a < n \<or> f = n \<and> ab_last_sequence a = 2 ^ 32 - 1)"

definition producer_inv :: "producer_state \<Rightarrow> bool" where
  "producer_inv s \<longleftrightarrow> bt_wf (ps_accepted s) \<and>
     (\<forall>f a. bt_get (ps_accepted s) f = Some a \<longrightarrow> batch_ok (ps_next_sequence s) f a) \<and>
     (\<forall>q < ps_next_sequence s. \<exists>!f. covers s q f)"

lemma producer_invD:
  assumes "producer_inv s"
  shows "bt_wf (ps_accepted s)"
    and "bt_get (ps_accepted s) f = Some a \<Longrightarrow> batch_ok (ps_next_sequence s) f a"
    and "q < ps_next_sequence s \<Longrightarrow> \<exists>!f. covers s q f"
  using assms by (simp_all add: producer_inv_def)

definition producer_le :: "producer_state \<Rightarrow> producer_state \<Rightarrow> bool" where
  "producer_le s t \<longleftrightarrow> ps_epoch s < ps_epoch t \<or>
     ps_epoch s = ps_epoch t \<and> bt_get (ps_accepted s) \<subseteq>\<^sub>m bt_get (ps_accepted t)"

definition new_batch :: "nat \<Rightarrow> nat \<Rightarrow> nat \<Rightarrow> nat \<Rightarrow> accepted_batch" where
  "new_batch q count d off = \<lparr>ab_last_sequence = q + (count - 1), ab_base_offset = off,
     ab_last_offset = off + (count - 1), ab_digest = d\<rparr>"

lemma produce_changed:
  assumes "snd (produce ep q count d off s) \<noteq> s"
  shows "ep = ps_epoch s" and "0 < count" and "bt_get (ps_accepted s) q = None" and "q = ps_next_sequence s"
    and "q + count \<le> 2 ^ 32"
    and "snd (produce ep q count d off s) = s\<lparr>ps_accepted := bt_insert q (new_batch q count d off) (ps_accepted s),
       ps_next_sequence := if q + count < 2 ^ 32 then q + count else q\<rparr>"
proof -
  show ep: "ep = ps_epoch s" and c: "0 < count" and new: "bt_get (ps_accepted s) q = None"
    and q: "q = ps_next_sequence s"
    using assms by (auto simp: produce_def split: if_splits option.splits)
  then have run: "produce ep q count d off s =
      (case checked_add 32 q (count - 1) of
         None \<Rightarrow> (Inl SequenceOverflow, s)
       | Some last_sequence \<Rightarrow>
           (case checked_add 64 off (count - 1) of
              None \<Rightarrow> (Inl OffsetOverflow, s)
            | Some last_offset \<Rightarrow>
                (let accepted = \<lparr>ab_last_sequence = last_sequence, ab_base_offset = off,
                                 ab_last_offset = last_offset, ab_digest = d\<rparr>;
                     s' = s\<lparr>ps_accepted := bt_insert q accepted (ps_accepted s)\<rparr>
                 in case checked_add 32 last_sequence 1 of
                      None \<Rightarrow> (Inl SequenceOverflow, s')
                    | Some n \<Rightarrow> (Inr (Appended accepted), s'\<lparr>ps_next_sequence := n\<rparr>))))"
    by (simp add: produce_def cong: option.case_cong)
  have seq: "checked_add 32 q (count - 1) = Some (q + (count - 1))"
    and off: "checked_add 64 off (count - 1) = Some (off + (count - 1))"
    using assms by (auto simp: run checked_add_Some split: option.splits)
  then show "q + count \<le> 2 ^ 32" using c by (simp add: checked_add_Some)
  show "snd (produce ep q count d off s) = s\<lparr>ps_accepted := bt_insert q (new_batch q count d off) (ps_accepted s),
       ps_next_sequence := if q + count < 2 ^ 32 then q + count else q\<rparr>"
    unfolding run seq off option.case Let_def using c q by (auto simp: new_batch_def checked_add_def)
qed

lemma producer_inv_produce:
  assumes inv: "producer_inv s"
  shows "producer_inv (snd (produce ep q count d off s))"
proof (cases "snd (produce ep q count d off s) = s")
  case False
  note g = produce_changed(2-4) [OF False] and ov = produce_changed(5) [OF False]
  define t where "t = snd (produce ep q count d off s)"
  have acc: "ps_accepted t = bt_insert q (new_batch q count d off) (ps_accepted s)"
    and next_seq: "ps_next_sequence t = (if q + count < 2 ^ 32 then q + count else q)"
    unfolding t_def produce_changed(6) [OF False] by simp_all
  have below: "ab_last_sequence b < q" if "bt_get (ps_accepted s) f = Some b" for f b
    using producer_invD(2) [OF inv that] that g by (auto simp: batch_ok_def)
  have old: "covers t x f \<longleftrightarrow> covers s x f" if "x < q" for x f
    using that g(2) by (auto simp: covers_def acc)
  have new: "covers t x f \<longleftrightarrow> f = q" if "q \<le> x" "x < q + count" for x f
    using that below [of f] by (cases "f = q") (auto simp: covers_def acc new_batch_def)
  have "\<exists>!f. covers t x f" if x: "x < ps_next_sequence t" for x
  proof (cases "x < q")
    case True
    then show ?thesis using producer_invD(3) [OF inv, of x] g(3) by (simp add: old)
  next
    case False
    then have "q \<le> x" "x < q + count" using x by (auto simp: next_seq split: if_splits)
    then show ?thesis by (simp add: new)
  qed
  moreover have "batch_ok (ps_next_sequence t) f b" if fb: "bt_get (ps_accepted t) f = Some b" for f b
  proof (cases "f = q")
    case True
    then show ?thesis using fb g(1) ov by (auto simp: batch_ok_def new_batch_def acc next_seq)
  next
    case False
    then have old_b: "bt_get (ps_accepted s) f = Some b" using fb by (simp add: acc)
    then show ?thesis
      using producer_invD(2) [OF inv old_b] below [OF old_b] by (auto simp: batch_ok_def next_seq)
  qed
  ultimately have "producer_inv t" using producer_invD(1) [OF inv] by (simp add: producer_inv_def acc)
  then show ?thesis by (simp add: t_def)
qed (use inv in simp)

interpretation producer: monotone_system "\<lambda>s. \<exists>ep. s = producer_new ep" producer_step producer_inv producer_le
proof unfold_locales
  show "\<exists>ep. s = producer_new ep \<Longrightarrow> producer_inv s" for s
    by (auto simp: producer_new_def producer_inv_def)
  show "producer_step s t \<Longrightarrow> producer_inv t" if "producer_inv s" for s t
    using that by (auto elim!: producer_step.cases simp: producer_inv_produce)
      (auto simp: bump_epoch_def producer_inv_def)
  show "producer_le s s" for s by (simp add: producer_le_def)
  show "producer_le s t \<Longrightarrow> producer_le t u \<Longrightarrow> producer_le s u" for s t u
    by (auto simp: producer_le_def intro: map_le_trans)
  show "producer_step s t \<Longrightarrow> producer_le s t" for s t
  proof (erule producer_step.cases)
    fix s' ep q count d off
    assume st: "s = s'" "t = snd (produce ep q count d off s')"
    show ?thesis
    proof (cases "t = s")
      case False
      then show ?thesis
        using st produce_changed(3,6) [of ep q count d off s]
        by (auto simp: producer_le_def map_le_def)
    qed (simp add: producer_le_def)
  qed (auto simp: producer_le_def bump_epoch_def)
qed

text \<open>
  C25. In every reachable producer state each sequence number below the next expected one
  belongs to exactly one accepted batch.
\<close>

theorem accepted_sequences_tile:
  assumes "producer_step\<^sup>*\<^sup>* (producer_new ep) s" and "q < ps_next_sequence s"
  shows "\<exists>!f. \<exists>a. bt_get (ps_accepted s) f = Some a \<and> f \<le> q \<and> q \<le> ab_last_sequence a"
proof -
  have "producer_inv s" by (rule producer.reachable_inv [OF _ assms(1)]) blast
  then show ?thesis using producer_invD(3) assms(2) by (simp add: covers_def)
qed

text \<open>
  C24. Idempotence: once a batch has been appended, the same request repeated in any later
  state of the same producer epoch returns the recorded batch as a duplicate and changes nothing.
\<close>

theorem produce_retry_is_duplicate:
  assumes reach: "producer_step\<^sup>*\<^sup>* (producer_new ep0) s"
    and first: "produce ep q count d off s = (Inr (Appended a), t)"
    and run: "producer_step\<^sup>*\<^sup>* t u" and epoch: "ps_epoch u = ps_epoch t"
  shows "produce ep q count d off' u = (Inr (Duplicate a), u)"
proof -
  have inv: "producer_inv s" by (rule producer.reachable_inv [OF _ reach]) blast
  have fresh: "bt_get (ps_accepted s) q = None"
    using first by (auto simp: produce_def split: if_splits option.splits)
  have changed: "snd (produce ep q count d off s) \<noteq> s"
  proof
    assume same: "snd (produce ep q count d off s) = s"
    have "bt_get (ps_accepted t) q \<noteq> None"
      using first by (auto simp: produce_def Let_def split: if_splits option.splits)
    with same first fresh show False by simp
  qed
  note c = produce_changed [OF changed]
  have a: "a = new_batch q count d off"
    using first c(1-4) by (auto simp: produce_def Let_def new_batch_def checked_add_Some split: if_splits option.splits)
  have t: "bt_get (ps_accepted t) q = Some a" "ps_epoch t = ep"
    using c(1,6) first a by simp_all
  have "producer_inv t" using producer_inv_produce [OF inv, of ep q count d off] first by simp
  then have "producer_le t u" by (rule producer.run_le [OF run])
  then have "bt_get (ps_accepted u) q = Some a" using epoch t(1) by (auto simp: producer_le_def map_le_def dom_def)
  then show ?thesis using t(2) epoch c(2,5) a by (simp add: produce_def new_batch_def checked_add_def)
qed

theorem accepted_sequences_tile_witness:
  "\<exists>!f. \<exists>a. bt_get (ps_accepted (snd (produce 1 0 3 9 100 (producer_new 1)))) f = Some a \<and> f \<le> 2 \<and>
     2 \<le> ab_last_sequence a"
proof (rule accepted_sequences_tile)
  show "producer_step\<^sup>*\<^sup>* (producer_new 1) (snd (produce 1 0 3 9 100 (producer_new 1)))"
    by (intro r_into_rtranclp producer_step.produce)
  show "2 < ps_next_sequence (snd (produce 1 0 3 9 100 (producer_new 1)))" by code_simp
qed

theorem produce_retry_is_duplicate_witness:
  "produce 1 0 3 9 500 (snd (produce 1 3 2 7 103 (snd (produce 1 0 3 9 100 (producer_new 1))))) =
     (Inr (Duplicate (new_batch 0 3 9 100)), snd (produce 1 3 2 7 103 (snd (produce 1 0 3 9 100 (producer_new 1)))))"
proof (rule produce_retry_is_duplicate [OF rtranclp.rtrancl_refl])
  show "produce 1 0 3 9 100 (producer_new 1) =
      (Inr (Appended (new_batch 0 3 9 100)), snd (produce 1 0 3 9 100 (producer_new 1)))" by code_simp
  show "producer_step\<^sup>*\<^sup>* (snd (produce 1 0 3 9 100 (producer_new 1)))
      (snd (produce 1 3 2 7 103 (snd (produce 1 0 3 9 100 (producer_new 1)))))"
    by (intro r_into_rtranclp producer_step.produce)
  show "ps_epoch (snd (produce 1 3 2 7 103 (snd (produce 1 0 3 9 100 (producer_new 1))))) =
      ps_epoch (snd (produce 1 0 3 9 100 (producer_new 1)))" by code_simp
qed

text \<open>
  A batch that ends at the last representable sequence number is recorded although the
  operation fails: the caller sees an overflow, and its retry an acknowledged duplicate.
\<close>

lemma produce_overflow_records_batch:
  defines "s \<equiv> \<lparr>ps_epoch = 1, ps_next_sequence = 4294967295, ps_accepted = []\<rparr>"
  shows "fst (produce 1 4294967295 1 9 0 s) = Inl SequenceOverflow \<and>
    fst (produce 1 4294967295 1 9 0 (snd (produce 1 4294967295 1 9 0 s))) =
      Inr (Duplicate \<lparr>ab_last_sequence = 4294967295, ab_base_offset = 0, ab_last_offset = 0, ab_digest = 9\<rparr>)"
  unfolding s_def by (simp add: produce_def checked_add_def)

section \<open>Consumer group\<close>

record group_model =
  gm_generation :: nat
  gm_leader :: "string option"
  gm_members :: "string list"
  gm_assignments :: "(nat, string) btree"
  gm_synchronized :: bool

definition group_new :: group_model where
  "group_new = \<lparr>gm_generation = 0, gm_leader = None, gm_members = [], gm_assignments = [],
     gm_synchronized = False\<rparr>"

definition gm_rebalance :: "group_model \<Rightarrow> (model_error + nat) \<times> group_model" where
  "gm_rebalance g =
     (case checked_add 32 (gm_generation g) 1 of
        None \<Rightarrow> (Inl GenerationOverflow, g)
      | Some n \<Rightarrow>
          (Inr n, g\<lparr>gm_generation := n,
             gm_leader := (if gm_members g = [] then None else Some (hd (gm_members g))),
             gm_assignments := [], gm_synchronized := False\<rparr>))"

definition gm_join :: "string \<Rightarrow> group_model \<Rightarrow> (model_error + nat) \<times> group_model" where
  "gm_join member g =
     (if member = [] then (Inl InvalidMember, g)
      else gm_rebalance (g\<lparr>gm_members := insort_insert member (gm_members g)\<rparr>))"

definition gm_leave :: "string \<Rightarrow> group_model \<Rightarrow> (model_error + nat) \<times> group_model" where
  "gm_leave member g =
     (if member \<notin> set (gm_members g) then (Inl UnknownMember, g)
      else gm_rebalance (g\<lparr>gm_members := remove1 member (gm_members g)\<rparr>))"

definition gm_check_invariants :: "group_model \<Rightarrow> model_error + unit" where
  "gm_check_invariants g =
     (if gm_synchronized g \<and> gm_leader g = None then Inl MissingGroupLeader
      else if list_ex (\<lambda>m. m \<notin> set (gm_members g)) (bt_values (gm_assignments g)) then Inl UnknownMember
      else Inr ())"

definition gm_sync ::
    "string \<Rightarrow> nat \<Rightarrow> (nat, string) btree \<Rightarrow> group_model \<Rightarrow> (model_error + unit) \<times> group_model" where
  "gm_sync leader generation assignments g =
     (if generation \<noteq> gm_generation g then (Inl IllegalGeneration, g)
      else if gm_leader g \<noteq> Some leader then (Inl NotGroupLeader, g)
      else if list_ex (\<lambda>m. m \<notin> set (gm_members g)) (bt_values assignments) then (Inl UnknownMember, g)
      else (let g' = g\<lparr>gm_assignments := assignments, gm_synchronized := True\<rparr>
            in (gm_check_invariants g', g')))"

text \<open>A step that does not run out of generations.\<close>

inductive group_step :: "group_model \<Rightarrow> group_model \<Rightarrow> bool" where
  join: "fst (gm_join m g) \<noteq> Inl GenerationOverflow \<Longrightarrow> group_step g (snd (gm_join m g))"
| leave: "fst (gm_leave m g) \<noteq> Inl GenerationOverflow \<Longrightarrow> group_step g (snd (gm_leave m g))"
| sync: "group_step g (snd (gm_sync l n as g))"

definition group_inv :: "group_model \<Rightarrow> bool" where
  "group_inv g \<longleftrightarrow> sorted_wrt (<) (gm_members g) \<and>
     gm_leader g = (if gm_members g = [] then None else Some (hd (gm_members g))) \<and>
     set (bt_values (gm_assignments g)) \<subseteq> set (gm_members g) \<and>
     (gm_synchronized g \<longrightarrow> gm_leader g \<noteq> None)"

definition group_le :: "group_model \<Rightarrow> group_model \<Rightarrow> bool" where
  "group_le g h \<longleftrightarrow> gm_generation g < gm_generation h \<or>
     gm_generation g = gm_generation h \<and> gm_members g = gm_members h \<and> gm_leader g = gm_leader h"

lemma group_rebalance_inv:
  assumes "sorted_wrt (<) (gm_members g)" and "fst (gm_rebalance g) \<noteq> Inl GenerationOverflow"
  shows "group_inv (snd (gm_rebalance g))"
    and "gm_generation (snd (gm_rebalance g)) = Suc (gm_generation g)"
  using assms by (auto simp: gm_rebalance_def group_inv_def bt_values_def checked_add_def split: if_splits)

lemma group_inv_join:
  "group_inv g \<Longrightarrow> fst (gm_join m g) \<noteq> Inl GenerationOverflow \<Longrightarrow> group_inv (snd (gm_join m g))"
  using group_rebalance_inv(1) [of "g\<lparr>gm_members := insort_insert m (gm_members g)\<rparr>"]
  by (auto simp: gm_join_def strict_sorted_insort_insert group_inv_def [of g])

lemma group_inv_leave:
  "group_inv g \<Longrightarrow> fst (gm_leave m g) \<noteq> Inl GenerationOverflow \<Longrightarrow> group_inv (snd (gm_leave m g))"
  using group_rebalance_inv(1) [of "g\<lparr>gm_members := remove1 m (gm_members g)\<rparr>"]
  by (auto simp: gm_leave_def strict_sorted_remove1 group_inv_def [of g])

lemma group_inv_sync: "group_inv g \<Longrightarrow> group_inv (snd (gm_sync l n as g))"
  by (auto simp: group_inv_def gm_sync_def Let_def list_ex_iff)

interpretation group: monotone_system "\<lambda>g. g = group_new" group_step group_inv group_le
proof unfold_locales
  show "g = group_new \<Longrightarrow> group_inv g" for g
    by (simp add: group_new_def group_inv_def bt_values_def)
  show "group_inv g \<Longrightarrow> group_step g h \<Longrightarrow> group_inv h" for g h
    by (erule group_step.cases) (simp_all add: group_inv_join group_inv_leave group_inv_sync)
  show "group_step g h \<Longrightarrow> group_le g h" if inv: "group_inv g" for g h
  proof (erule group_step.cases)
    have sorted: "sorted_wrt (<) (gm_members g)" using inv by (simp add: group_inv_def)
    show "group_le g h" if "g = g'" "h = snd (gm_join m g')" "fst (gm_join m g') \<noteq> Inl GenerationOverflow" for g' m
      using that sorted group_rebalance_inv(2) [of "g\<lparr>gm_members := insort_insert m (gm_members g)\<rparr>"]
      by (auto simp: gm_join_def group_le_def strict_sorted_insort_insert split: if_splits)
    show "group_le g h" if "g = g'" "h = snd (gm_leave m g')" "fst (gm_leave m g') \<noteq> Inl GenerationOverflow" for g' m
      using that sorted group_rebalance_inv(2) [of "g\<lparr>gm_members := remove1 m (gm_members g)\<rparr>"]
      by (auto simp: gm_leave_def group_le_def strict_sorted_remove1 split: if_splits)
  qed (auto simp: group_le_def gm_sync_def Let_def)
qed (auto simp: group_le_def)

text \<open>
  In every reachable state of the group model its own invariant check succeeds, and the
  leader is the least member.
\<close>

theorem group_invariants_hold:
  assumes "group_step\<^sup>*\<^sup>* group_new g"
  shows "gm_check_invariants g = Inr () \<and>
    gm_leader g = (if gm_members g = [] then None else Some (hd (gm_members g)))"
proof -
  have "group_inv g" by (rule group.reachable_inv [OF refl assms])
  then show ?thesis by (auto simp: group_inv_def gm_check_invariants_def list_ex_iff)
qed

text \<open>
  Two members synchronize, then the first one leaves.
\<close>

definition two_members :: group_model where
  "two_members = snd (gm_sync ''a'' 2 [(0, ''a''), (1, ''b'')]
     (snd (gm_join ''b'' (snd (gm_join ''a'' group_new)))))"

theorem group_invariants_hold_witness:
  "gm_check_invariants (snd (gm_leave ''a'' two_members)) = Inr () \<and>
   gm_leader (snd (gm_leave ''a'' two_members)) = Some ''b''"
proof -
  have step: "group_step group_new (snd (gm_join ''a'' group_new))"
    "group_step (snd (gm_join ''a'' group_new)) (snd (gm_join ''b'' (snd (gm_join ''a'' group_new))))"
    "group_step (snd (gm_join ''b'' (snd (gm_join ''a'' group_new)))) two_members"
    "group_step two_members (snd (gm_leave ''a'' two_members))"
    unfolding two_members_def by (intro group_step.intros; code_simp)+
  then have "group_step\<^sup>*\<^sup>* group_new (snd (gm_leave ''a'' two_members))"
    by (meson rtranclp.rtrancl_into_rtrancl rtranclp.rtrancl_refl)
  moreover have "gm_members (snd (gm_leave ''a'' two_members)) = [''b'']" by code_simp
  ultimately show ?thesis using group_invariants_hold by fastforce
qed

text \<open>
  When the generation counter is exhausted, leaving removes the member, fails, and keeps the
  assignments that name it.
\<close>

lemma leave_at_last_generation_breaks_invariant:
  defines "g \<equiv> two_members\<lparr>gm_generation := 4294967295\<rparr>"
  shows "gm_check_invariants g = Inr () \<and> fst (gm_leave ''b'' g) = Inl GenerationOverflow \<and>
    gm_check_invariants (snd (gm_leave ''b'' g)) = Inl UnknownMember"
  unfolding g_def by code_simp

section \<open>Transaction\<close>

datatype transaction_phase = Empty | Ongoing | PrepareCommit | PrepareAbort | CompleteCommit | CompleteAbort

record transaction_model =
  tm_producer_id :: nat
  tm_producer_epoch :: nat
  tm_phase :: transaction_phase
  tm_first_offset :: "nat option"
  tm_last_offset :: "nat option"
  tm_partitions :: "nat list"
  tm_markers :: "(nat, bool) btree"

definition transaction_new :: "nat \<Rightarrow> nat \<Rightarrow> transaction_model" where
  "transaction_new pid ep = \<lparr>tm_producer_id = pid, tm_producer_epoch = ep, tm_phase = Empty,
     tm_first_offset = None, tm_last_offset = None, tm_partitions = [], tm_markers = []\<rparr>"

definition require_epoch :: "nat \<Rightarrow> transaction_model \<Rightarrow> model_error + unit" where
  "require_epoch ep t = (if ep = tm_producer_epoch t then Inr () else Inl ProducerFenced)"

definition tm_begin :: "nat \<Rightarrow> transaction_model \<Rightarrow> (model_error + unit) \<times> transaction_model" where
  "tm_begin ep t =
     (case require_epoch ep t of
        Inl e \<Rightarrow> (Inl e, t)
      | Inr _ \<Rightarrow>
          if tm_phase t \<notin> {Empty, CompleteCommit, CompleteAbort} then (Inl InvalidTransactionTransition, t)
          else (Inr (), t\<lparr>tm_phase := Ongoing, tm_first_offset := None, tm_last_offset := None,
                          tm_partitions := [], tm_markers := []\<rparr>))"

definition tm_append ::
    "nat \<Rightarrow> nat \<Rightarrow> nat \<Rightarrow> nat \<Rightarrow> transaction_model \<Rightarrow> (model_error + unit) \<times> transaction_model" where
  "tm_append ep part first_offset last_offset t =
     (case require_epoch ep t of
        Inl e \<Rightarrow> (Inl e, t)
      | Inr _ \<Rightarrow>
          if tm_phase t \<noteq> Ongoing \<or> last_offset < first_offset then (Inl InvalidTransactionTransition, t)
          else (Inr (), t\<lparr>tm_partitions := insort_insert part (tm_partitions t),
                  tm_first_offset := Some (case tm_first_offset t of None \<Rightarrow> first_offset
                                             | Some c \<Rightarrow> min c first_offset),
                  tm_last_offset := Some (case tm_last_offset t of None \<Rightarrow> last_offset
                                            | Some c \<Rightarrow> max c last_offset)\<rparr>))"

definition tm_prepare ::
    "nat \<Rightarrow> bool \<Rightarrow> transaction_model \<Rightarrow> (model_error + unit) \<times> transaction_model" where
  "tm_prepare ep commit t =
     (case require_epoch ep t of
        Inl e \<Rightarrow> (Inl e, t)
      | Inr _ \<Rightarrow>
          if tm_phase t \<noteq> Ongoing then (Inl InvalidTransactionTransition, t)
          else (Inr (), t\<lparr>tm_phase := if commit then PrepareCommit else PrepareAbort\<rparr>))"

definition tm_record_marker ::
    "nat \<Rightarrow> nat \<Rightarrow> bool \<Rightarrow> transaction_model \<Rightarrow> (model_error + unit) \<times> transaction_model" where
  "tm_record_marker ep part commit t =
     (case require_epoch ep t of
        Inl e \<Rightarrow> (Inl e, t)
      | Inr _ \<Rightarrow>
          (case (case tm_phase t of PrepareCommit \<Rightarrow> Some True | PrepareAbort \<Rightarrow> Some False | _ \<Rightarrow> None) of
             None \<Rightarrow> (Inl InvalidTransactionTransition, t)
           | Some expected \<Rightarrow>
               if commit \<noteq> expected \<or> part \<notin> set (tm_partitions t) then (Inl InvalidTransactionMarker, t)
               else (let t' = t\<lparr>tm_markers := bt_insert part commit (tm_markers t)\<rparr>
                     in if bt_contains (tm_markers t) part then (Inl DuplicateTransactionMarker, t')
                        else (Inr (), t'))))"

definition tm_complete :: "nat \<Rightarrow> transaction_model \<Rightarrow> (model_error + unit) \<times> transaction_model" where
  "tm_complete ep t =
     (case require_epoch ep t of
        Inl e \<Rightarrow> (Inl e, t)
      | Inr _ \<Rightarrow>
          if length (tm_markers t) \<noteq> length (tm_partitions t) then (Inl MissingTransactionMarker, t)
          else (case tm_phase t of
             PrepareCommit \<Rightarrow> (Inr (), t\<lparr>tm_phase := CompleteCommit\<rparr>)
           | PrepareAbort \<Rightarrow> (Inr (), t\<lparr>tm_phase := CompleteAbort\<rparr>)
           | _ \<Rightarrow> (Inl InvalidTransactionTransition, t)))"

definition read_committed_visible :: "transaction_model \<Rightarrow> bool" where
  "read_committed_visible t \<longleftrightarrow> tm_phase t = CompleteCommit"

definition constrains_last_stable_offset :: "transaction_model \<Rightarrow> nat option" where
  "constrains_last_stable_offset t =
     (if tm_phase t \<in> {Ongoing, PrepareCommit, PrepareAbort} then tm_first_offset t else None)"

inductive transaction_step :: "transaction_model \<Rightarrow> transaction_model \<Rightarrow> bool" where
  start: "transaction_step t (snd (tm_begin ep t))"
| append: "transaction_step t (snd (tm_append ep p f l t))"
| prepare: "transaction_step t (snd (tm_prepare ep c t))"
| marker: "transaction_step t (snd (tm_record_marker ep p c t))"
| complete: "transaction_step t (snd (tm_complete ep t))"

definition decision :: "transaction_phase \<Rightarrow> bool option" where
  "decision ph = (case ph of PrepareCommit \<Rightarrow> Some True | CompleteCommit \<Rightarrow> Some True
     | PrepareAbort \<Rightarrow> Some False | CompleteAbort \<Rightarrow> Some False | _ \<Rightarrow> None)"

definition transaction_inv :: "transaction_model \<Rightarrow> bool" where
  "transaction_inv t \<longleftrightarrow> sorted_wrt (<) (tm_partitions t) \<and> bt_wf (tm_markers t) \<and>
     (\<forall>p c. bt_get (tm_markers t) p = Some c \<longrightarrow> p \<in> set (tm_partitions t) \<and> decision (tm_phase t) = Some c) \<and>
     (tm_phase t \<in> {CompleteCommit, CompleteAbort} \<longrightarrow> length (tm_markers t) = length (tm_partitions t)) \<and>
     (tm_first_offset t = None \<longleftrightarrow> tm_partitions t = []) \<and>
     (case tm_first_offset t of None \<Rightarrow> tm_last_offset t = None
      | Some f \<Rightarrow> (case tm_last_offset t of None \<Rightarrow> False | Some l \<Rightarrow> f \<le> l))"

lemmas transaction_defs = require_epoch_def decision_def transaction_inv_def

lemma transaction_inv_begin: "transaction_inv t \<Longrightarrow> transaction_inv (snd (tm_begin ep t))"
  by (auto simp: tm_begin_def transaction_defs)

lemma transaction_inv_append: "transaction_inv t \<Longrightarrow> transaction_inv (snd (tm_append ep p f l t))"
  by (auto simp: tm_append_def transaction_defs strict_sorted_insort_insert set_insort_insert
      split: option.splits if_splits)

lemma transaction_inv_prepare: "transaction_inv t \<Longrightarrow> transaction_inv (snd (tm_prepare ep c t))"
  by (auto simp: tm_prepare_def transaction_defs)

lemma transaction_inv_marker: "transaction_inv t \<Longrightarrow> transaction_inv (snd (tm_record_marker ep p c t))"
  by (cases "tm_phase t") (auto simp: tm_record_marker_def transaction_defs Let_def split: if_splits)

lemma transaction_inv_complete: "transaction_inv t \<Longrightarrow> transaction_inv (snd (tm_complete ep t))"
  by (cases "tm_phase t") (auto simp: tm_complete_def transaction_defs)

interpretation transaction:
  invariant_system "\<lambda>t. \<exists>pid ep. t = transaction_new pid ep" transaction_step transaction_inv
proof unfold_locales
  show "\<exists>pid ep. t = transaction_new pid ep \<Longrightarrow> transaction_inv t" for t
    by (auto simp: transaction_new_def transaction_inv_def)
  show "transaction_inv t \<Longrightarrow> transaction_step t u \<Longrightarrow> transaction_inv u" for t u
    by (erule transaction_step.cases) (simp_all add: transaction_inv_begin transaction_inv_append
        transaction_inv_prepare transaction_inv_marker transaction_inv_complete)
qed

lemma all_marked:
  assumes inv: "transaction_inv t" and len: "length (tm_markers t) = length (tm_partitions t)"
    and p: "p \<in> set (tm_partitions t)"
  shows "bt_get (tm_markers t) p = decision (tm_phase t) \<and> decision (tm_phase t) \<noteq> None"
proof -
  have wf: "bt_wf (tm_markers t)" using inv by (simp add: transaction_inv_def)
  have "dom (bt_get (tm_markers t)) \<subseteq> set (tm_partitions t)" using inv by (auto simp: transaction_inv_def)
  moreover have "card (dom (bt_get (tm_markers t))) = card (set (tm_partitions t))"
    using inv len card_dom_bt [OF wf] by (simp add: transaction_inv_def strict_sorted_iff distinct_card)
  ultimately have "dom (bt_get (tm_markers t)) = set (tm_partitions t)" by (simp add: card_subset_eq)
  then obtain c where c: "bt_get (tm_markers t) p = Some c" using p by blast
  then show ?thesis using inv by (auto simp: transaction_inv_def)
qed

text \<open>
  C26. In every reachable transaction state that readers see as committed, each partition
  the transaction wrote to carries a commit marker, and no partition an abort marker.
\<close>

theorem visible_iff_all_commit_markers:
  assumes "transaction_step\<^sup>*\<^sup>* (transaction_new pid ep) t" and "read_committed_visible t"
  shows "(\<forall>p \<in> set (tm_partitions t). bt_get (tm_markers t) p = Some True) \<and> False \<notin> set (bt_values (tm_markers t))"
proof -
  have inv: "transaction_inv t" by (rule transaction.reachable_inv [OF _ assms(1)]) blast
  have dec: "decision (tm_phase t) = Some True" "length (tm_markers t) = length (tm_partitions t)"
    using assms(2) inv by (simp_all add: read_committed_visible_def decision_def transaction_inv_def)
  moreover have "c" if "(p, c) \<in> set (tm_markers t)" for p c
    using that inv dec(1) bt_get_iff_mem [of "tm_markers t" p c] by (auto simp: transaction_inv_def)
  then have "False \<notin> set (bt_values (tm_markers t))" by (auto simp: bt_values_def)
  ultimately show ?thesis using all_marked [OF inv] by auto
qed

text \<open>
  While a transaction is open, the offset by which it holds back the last stable offset
  never exceeds the first offset of any batch appended to it.
\<close>

theorem last_stable_offset_covers_append:
  assumes "transaction_step\<^sup>*\<^sup>* (transaction_new pid ep0) t"
    and app: "tm_append ep p f l t = (Inr (), u)"
  shows "\<exists>c. constrains_last_stable_offset u = Some c \<and> c \<le> f \<and>
    (\<forall>c'. constrains_last_stable_offset t = Some c' \<longrightarrow> c \<le> c') \<and>
    (\<exists>l'. tm_last_offset u = Some l' \<and> l \<le> l' \<and> c \<le> l')"
proof -
  have inv: "transaction_inv t" by (rule transaction.reachable_inv [OF _ assms(1)]) blast
  have ph: "tm_phase t = Ongoing" "f \<le> l"
    and u: "u = t\<lparr>tm_partitions := insort_insert p (tm_partitions t),
      tm_first_offset := Some (case tm_first_offset t of None \<Rightarrow> f | Some c \<Rightarrow> min c f),
      tm_last_offset := Some (case tm_last_offset t of None \<Rightarrow> l | Some c \<Rightarrow> max c l)\<rparr>"
    using app by (auto simp: tm_append_def require_epoch_def split: if_splits)
  have "case tm_first_offset t of None \<Rightarrow> tm_last_offset t = None
      | Some f \<Rightarrow> (case tm_last_offset t of None \<Rightarrow> False | Some l \<Rightarrow> f \<le> l)"
    using inv by (simp add: transaction_inv_def)
  then show ?thesis
    using ph by (cases "tm_first_offset t"; cases "tm_last_offset t") (auto simp: u constrains_last_stable_offset_def)
qed

definition open_transaction :: transaction_model where
  "open_transaction = snd (tm_append 1 0 5 9 (snd (tm_begin 1 (transaction_new 7 1))))"

definition committed_transaction :: transaction_model where
  "committed_transaction =
     snd (tm_complete 1 (snd (tm_record_marker 1 0 True (snd (tm_prepare 1 True open_transaction)))))"

lemma open_transaction_reachable: "transaction_step\<^sup>*\<^sup>* (transaction_new 7 1) open_transaction"
  unfolding open_transaction_def
  using rtranclp.rtrancl_into_rtrancl [OF r_into_rtranclp [of transaction_step, OF transaction_step.start]
      transaction_step.append] .

theorem visible_iff_all_commit_markers_witness:
  "tm_partitions committed_transaction = [0] \<and> bt_get (tm_markers committed_transaction) 0 = Some True"
proof -
  have "transaction_step\<^sup>*\<^sup>* (transaction_new 7 1) committed_transaction"
    unfolding committed_transaction_def
    using rtranclp.rtrancl_into_rtrancl [OF rtranclp.rtrancl_into_rtrancl [OF rtranclp.rtrancl_into_rtrancl
      [OF open_transaction_reachable transaction_step.prepare] transaction_step.marker] transaction_step.complete] .
  moreover have "read_committed_visible committed_transaction" by code_simp
  moreover have "tm_partitions committed_transaction = [0]" by code_simp
  ultimately show ?thesis using visible_iff_all_commit_markers by fastforce
qed

theorem last_stable_offset_covers_append_witness:
  "\<exists>c. constrains_last_stable_offset (snd (tm_append 1 2 3 4 open_transaction)) = Some c \<and> c \<le> 3"
proof -
  have "tm_append 1 2 3 4 open_transaction = (Inr (), snd (tm_append 1 2 3 4 open_transaction))" by code_simp
  from last_stable_offset_covers_append [OF open_transaction_reachable this] show ?thesis by blast
qed

end
