(* ===== verification/Rsm.thy ===== *)
theory Rsm
  imports Prelude
begin

text \<open>
  The state-machine host of \<open>crates/pepper-rsm/src/lib.rs\<close>: group identifiers and the
  storage prefixes derived from them, the deterministic host with its snapshots, the
  bounded registry, read leases, the read gate and the lazy batcher. A product's state
  machine is a parameter of the host, an \<open>apply\<close> function that returns its result and
  the state it leaves; \<open>blake3\<close> and the product's codec are parameters as well. The
  contract a product has to meet is the locale \<open>state_machine\<close>.
\<close>

section \<open>Group identifiers and storage scopes\<close>

datatype host_error = InvalidGroupId | GroupExists | GroupMissing | GroupLimit nat | SnapshotDigest
  | Codec string

record group_id =
  gi_product :: string
  gi_group :: string

definition code_in :: "nat \<Rightarrow> nat \<Rightarrow> char \<Rightarrow> bool" where
  "code_in a b c \<longleftrightarrow> a \<le> (of_char c :: nat) \<and> (of_char c :: nat) \<le> b"

definition is_ascii_alphanumeric :: "char \<Rightarrow> bool" where
  "is_ascii_alphanumeric c \<longleftrightarrow> code_in 48 57 c \<or> code_in 65 90 c \<or> code_in 97 122 c"

definition is_ascii_graphic :: "char \<Rightarrow> bool" where
  "is_ascii_graphic c \<longleftrightarrow> code_in 33 126 c"

definition portable_id :: "string \<Rightarrow> bool" where
  "portable_id s \<longleftrightarrow> s \<noteq> [] \<and> length s \<le> 1024 \<and>
     list_all (\<lambda>c. is_ascii_alphanumeric c \<or> c \<in> set ''-_.:'') s"

definition group_component :: "string \<Rightarrow> bool" where
  "group_component s \<longleftrightarrow> s \<noteq> [] \<and> length s \<le> 4096 \<and> list_all is_ascii_graphic s"

definition group_id_new :: "string \<Rightarrow> string \<Rightarrow> host_error + group_id" where
  "group_id_new p g =
     (if \<not> portable_id p \<or> \<not> group_component g then Inl InvalidGroupId
      else Inr \<lparr>gi_product = p, gi_group = g\<rparr>)"

text \<open>\<open>Display\<close> of an unsigned integer, and \<open>length_prefix\<close>.\<close>

definition digit_char :: "nat \<Rightarrow> char" where
  "digit_char d = char_of (48 + d)"

fun show_nat :: "nat \<Rightarrow> string" where
  "show_nat n = (if n < 10 then [digit_char n] else show_nat (n div 10) @ [digit_char (n mod 10)])"

definition length_prefix :: "string \<Rightarrow> string" where
  "length_prefix s = show_nat (length s) @ '':'' @ s"

definition storage_prefix :: "group_id \<Rightarrow> string" where
  "storage_prefix i =
     ''rsm/'' @ length_prefix (gi_product i) @ ''/'' @ length_prefix (gi_group i) @ ''/''"

definition storage_key :: "group_id \<Rightarrow> string \<Rightarrow> string \<Rightarrow> host_error + string" where
  "storage_key i record_class key =
     (if \<not> portable_id record_class then Inl InvalidGroupId
      else Inr (storage_prefix i @ record_class @ ''/'' @ key))"

subsection \<open>Decimal numerals\<close>

declare show_nat.simps [simp del]

lemma digit_char_inj: "a < 10 \<Longrightarrow> b < 10 \<Longrightarrow> digit_char a = digit_char b \<Longrightarrow> a = b"
proof -
  assume "a < 10" "b < 10" "digit_char a = digit_char b"
  then have "(of_char (digit_char a) :: nat) = of_char (digit_char b)" by simp
  then show "a = b" using \<open>a < 10\<close> \<open>b < 10\<close> by (simp add: digit_char_def)
qed

lemma show_nat_not_Nil [simp]: "show_nat n \<noteq> []"
  by (subst show_nat.simps) simp

lemma show_nat_digits: "c \<in> set (show_nat n) \<Longrightarrow> code_in 48 57 c"
proof (induction n rule: show_nat.induct)
  case (1 n)
  show ?case
  proof (cases "n < 10")
    case True
    then show ?thesis using "1.prems" by (auto simp: show_nat.simps [of n] digit_char_def code_in_def)
  next
    case False
    then have "c \<in> set (show_nat (n div 10)) \<or> c = digit_char (n mod 10)"
      using "1.prems" by (auto simp: show_nat.simps [of n])
    then show ?thesis
      using "1.IH" [OF False] by (auto simp: digit_char_def code_in_def)
  qed
qed

lemma show_nat_inj: "show_nat a = show_nat b \<Longrightarrow> a = b"
proof (induction a arbitrary: b rule: show_nat.induct)
  case (1 a)
  have single: "length (show_nat n) = 1 \<longleftrightarrow> n < 10" for n
    by (subst show_nat.simps) simp
  show ?case
  proof (cases "a < 10")
    case True
    then have "b < 10" using "1.prems" single [of a] single [of b] by simp
    with True show ?thesis
      using "1.prems" digit_char_inj [of a b] by (simp add: show_nat.simps [of a] show_nat.simps [of b])
  next
    case False
    then have "\<not> b < 10" using "1.prems" single [of a] single [of b] by simp
    with False have "show_nat (a div 10) = show_nat (b div 10)" "digit_char (a mod 10) = digit_char (b mod 10)"
      using "1.prems" by (simp_all add: show_nat.simps [of a] show_nat.simps [of b])
    then have "a div 10 = b div 10" "a mod 10 = b mod 10"
      using "1.IH" [OF False] digit_char_inj [of "a mod 10" "b mod 10"] by simp_all
    then show ?thesis by (metis div_mult_mod_eq)
  qed
qed

lemma append_at_separator:
  assumes "c \<notin> set xs" and "c \<notin> set xs'" and "xs @ c # ys = xs' @ c # ys'"
  shows "xs = xs' \<and> ys = ys'"
  using assms
proof (induction xs arbitrary: xs')
  case Nil
  then show ?case by (cases xs') auto
next
  case (Cons x xs)
  then show ?case by (cases xs') auto
qed

lemma length_prefix_cancel:
  assumes "length_prefix a @ u = length_prefix b @ v"
  shows "a = b \<and> u = v"
proof -
  have sep: "CHR '':'' \<notin> set (show_nat n)" for n
    using show_nat_digits [of "CHR '':''" n] by (auto simp: code_in_def)
  have "show_nat (length a) @ CHR '':'' # (a @ u) = show_nat (length b) @ CHR '':'' # (b @ v)"
    using assms by (simp add: length_prefix_def)
  then have "show_nat (length a) = show_nat (length b)" "a @ u = b @ v"
    using append_at_separator [OF sep sep] by blast+
  then show ?thesis using show_nat_inj [of "length a" "length b"] by simp
qed

lemma portable_id_no_slash: "portable_id s \<Longrightarrow> CHR ''/'' \<notin> set s"
  by (auto simp: portable_id_def list_all_iff is_ascii_alphanumeric_def code_in_def)

text \<open>
  C30. Storage keys are collision free: two keys of the replicated state-machine store are
  equal only for the same product, group, record class and suffix.
\<close>

theorem storage_key_injective:
  assumes "storage_key i c x = Inr k" and "storage_key j d y = Inr k"
  shows "i = j \<and> c = d \<and> x = y"
proof -
  have ids: "portable_id c" "portable_id d"
    and eq: "storage_prefix i @ c @ ''/'' @ x = storage_prefix j @ d @ ''/'' @ y"
    using assms by (auto simp: storage_key_def split: if_splits)
  then have "length_prefix (gi_product i) @ (''/'' @ length_prefix (gi_group i) @ ''/'' @ c @ ''/'' @ x) =
      length_prefix (gi_product j) @ (''/'' @ length_prefix (gi_group j) @ ''/'' @ d @ ''/'' @ y)"
    by (simp add: storage_prefix_def)
  from length_prefix_cancel [OF this] have p: "gi_product i = gi_product j"
    and eq2: "length_prefix (gi_group i) @ (''/'' @ c @ ''/'' @ x) = length_prefix (gi_group j) @ (''/'' @ d @ ''/'' @ y)"
    by simp_all
  from length_prefix_cancel [OF eq2] have g: "gi_group i = gi_group j" and eq3: "c @ CHR ''/'' # x = d @ CHR ''/'' # y"
    by simp_all
  from eq3 have "c = d \<and> x = y"
    by (rule append_at_separator [OF portable_id_no_slash [OF ids(1)] portable_id_no_slash [OF ids(2)]])
  with p g show ?thesis by simp
qed

theorem storage_key_injective_witness:
  "\<exists>k. storage_key \<lparr>gi_product = ''db'', gi_group = ''a/b''\<rparr> ''log'' ''7'' = Inr k \<and>
     storage_key \<lparr>gi_product = ''db'', gi_group = ''a''\<rparr> ''log'' ''7'' \<noteq> Inr k"
proof -
  let ?i = "\<lparr>gi_product = ''db'', gi_group = ''a/b''\<rparr>" let ?j = "\<lparr>gi_product = ''db'', gi_group = ''a''\<rparr>"
  obtain k where k: "storage_key ?i ''log'' ''7'' = Inr k"
    by (auto simp: storage_key_def portable_id_def is_ascii_alphanumeric_def code_in_def)
  moreover have "storage_key ?j ''log'' ''7'' \<noteq> Inr k"
    using storage_key_injective [OF k, of ?j "''log''" "''7''"] by auto
  ultimately show ?thesis by blast
qed

section \<open>The deterministic host\<close>

record 's hosted =
  h_applied_index :: nat
  h_value :: 's

record snapshot =
  sn_applied_index :: nat
  sn_state_bytes :: "8 word list"
  sn_digest :: "8 word list"

definition host_new :: "'s \<Rightarrow> 's hosted" where
  "host_new s = \<lparr>h_applied_index = 0, h_value = s\<rparr>"

fun apply_all ::
    "('c \<Rightarrow> 's \<Rightarrow> ('e + 'r) \<times> 's) \<Rightarrow> 'c list \<Rightarrow> 's \<Rightarrow> 'e + ('r list \<times> 's)" where
  "apply_all machine [] s = Inr ([], s)"
| "apply_all machine (c # cs) s =
     (case machine c s of
        (Inl e, _) \<Rightarrow> Inl e
      | (Inr r, s') \<Rightarrow>
          (case apply_all machine cs s' of Inl e \<Rightarrow> Inl e | Inr (rs, t) \<Rightarrow> Inr (r # rs, t)))"

text \<open>The state is cloned before the commands run and stored only when all of them succeed.\<close>

definition apply_batch ::
    "('c \<Rightarrow> 's \<Rightarrow> ('e + 'r) \<times> 's) \<Rightarrow> 'c list \<Rightarrow> 's hosted \<Rightarrow> ('e + 'r list) \<times> 's hosted" where
  "apply_batch machine commands h =
     (case apply_all machine commands (h_value h) of
        Inl e \<Rightarrow> (Inl e, h)
      | Inr (rs, s') \<Rightarrow>
          (Inr rs, \<lparr>h_applied_index = saturating_add 64 (h_applied_index h) (length rs), h_value = s'\<rparr>))"

definition host_snapshot ::
    "(8 word list \<Rightarrow> 8 word list) \<Rightarrow> ('s \<Rightarrow> string + 8 word list) \<Rightarrow> 's hosted \<Rightarrow> host_error + snapshot" where
  "host_snapshot hash encode h =
     (case encode (h_value h) of
        Inl msg \<Rightarrow> Inl (Codec msg)
      | Inr bs \<Rightarrow> Inr \<lparr>sn_applied_index = h_applied_index h, sn_state_bytes = bs, sn_digest = hash bs\<rparr>)"

definition host_restore ::
    "(8 word list \<Rightarrow> 8 word list) \<Rightarrow> (8 word list \<Rightarrow> string + 's) \<Rightarrow> snapshot \<Rightarrow> 's hosted
      \<Rightarrow> (host_error + unit) \<times> 's hosted" where
  "host_restore hash decode sn h =
     (if hash (sn_state_bytes sn) \<noteq> sn_digest sn then (Inl SnapshotDigest, h)
      else case decode (sn_state_bytes sn) of
        Inl msg \<Rightarrow> (Inl (Codec msg), h)
      | Inr v \<Rightarrow> (Inr (), \<lparr>h_applied_index = sn_applied_index sn, h_value = v\<rparr>))"

text \<open>One command after the other, each as a batch of its own; the run stops at the first error.\<close>

fun apply_each ::
    "('c \<Rightarrow> 's \<Rightarrow> ('e + 'r) \<times> 's) \<Rightarrow> 'c list \<Rightarrow> 's hosted \<Rightarrow> ('e + 'r list) \<times> 's hosted" where
  "apply_each machine [] h = (Inr [], h)"
| "apply_each machine (c # cs) h =
     (case apply_batch machine [c] h of
        (Inl e, h') \<Rightarrow> (Inl e, h')
      | (Inr rs, h') \<Rightarrow>
          (case apply_each machine cs h' of
             (Inl e, h'') \<Rightarrow> (Inl e, h'') | (Inr rs', h'') \<Rightarrow> (Inr (rs @ rs'), h'')))"

text \<open>
  The contract of a product: an invariant of its state that every successful command keeps.
\<close>

locale state_machine =
  fixes machine :: "'c \<Rightarrow> 's \<Rightarrow> ('e + 'r) \<times> 's" and inv :: "'s \<Rightarrow> bool"
  assumes machine_inv: "inv s \<Longrightarrow> machine c s = (Inr r, s') \<Longrightarrow> inv s'"
begin

lemma apply_all_inv: "inv s \<Longrightarrow> apply_all machine cs s = Inr (rs, t) \<Longrightarrow> inv t"
proof (induction cs arbitrary: s rs)
  case (Cons c cs)
  then show ?case
    using machine_inv by (fastforce split: prod.splits sum.splits)
qed simp

lemma apply_batch_inv: "inv (h_value h) \<Longrightarrow> inv (h_value (snd (apply_batch machine cs h)))"
  using apply_all_inv [of "h_value h" cs] by (auto simp: apply_batch_def split: sum.splits)

end

lemma saturating_add_assoc: "saturating_add w (saturating_add w a b) c = saturating_add w a (b + c)"
  by (auto simp: saturating_add_def)

lemma apply_each_eq:
  "apply_all machine cs (h_value h) = Inr (rs, t) \<Longrightarrow> h_applied_index h < 2 ^ 64 \<Longrightarrow>
   apply_each machine cs h =
     (Inr rs, \<lparr>h_applied_index = saturating_add 64 (h_applied_index h) (length rs), h_value = t\<rparr>)"
proof (induction cs arbitrary: h rs)
  case Nil
  then have "h_applied_index h \<le> 18446744073709551615" by simp
  then show ?case using Nil by (cases h) (simp add: saturating_add_def)
next
  case (Cons c cs)
  obtain r s' rs' where c: "machine c (h_value h) = (Inr r, s')" "apply_all machine cs s' = Inr (rs', t)"
    and rs: "rs = r # rs'"
    using Cons.prems(1) by (auto split: prod.splits sum.splits)
  let ?h = "\<lparr>h_applied_index = saturating_add 64 (h_applied_index h) 1, h_value = s'\<rparr>"
  have "apply_batch machine [c] h = (Inr [r], ?h)" using c(1) by (simp add: apply_batch_def)
  moreover have "apply_each machine cs ?h = (Inr rs',
      \<lparr>h_applied_index = saturating_add 64 (saturating_add 64 (h_applied_index h) 1) (length rs'), h_value = t\<rparr>)"
    using Cons.IH [of ?h rs'] c(2) saturating_add_bound [of 64] by simp
  ultimately show ?case unfolding rs saturating_add_assoc by simp
qed



text \<open>
  C29. A snapshot restores the state and the applied index it was taken from, and a host
  accepts only a snapshot whose bytes carry their own digest.
\<close>

theorem snapshot_restore_roundtrip:
  assumes codec: "\<And>s bs. encode s = Inr bs \<Longrightarrow> decode bs = Inr s"
    and "host_snapshot hash encode h = Inr sn"
  shows "host_restore hash decode sn g = (Inr (), h) \<and>
    (\<forall>d. d \<noteq> sn_digest sn \<longrightarrow> host_restore hash decode (sn\<lparr>sn_digest := d\<rparr>) g = (Inl SnapshotDigest, g))"
  using assms by (auto simp: host_snapshot_def host_restore_def split: sum.splits)

theorem snapshot_restore_roundtrip_witness:
  "host_restore (\<lambda>bs. take 1 bs) (\<lambda>bs. Inr bs)
     \<lparr>sn_applied_index = 3, sn_state_bytes = [7, 8], sn_digest = [7]\<rparr> (host_new []) =
   (Inr (), \<lparr>h_applied_index = 3, h_value = [7, 8]\<rparr>)"
  using snapshot_restore_roundtrip [of "\<lambda>bs. Inr bs" "\<lambda>bs. Inr bs" "\<lambda>bs. take 1 bs"
      "\<lparr>h_applied_index = 3, h_value = [7, 8]\<rparr>" _ "host_new []"]
  by (simp add: host_snapshot_def)

section \<open>Registry and read lease\<close>

record 'h registry =
  rg_capacity :: nat
  rg_groups :: "(group_id \<times> 'h) list"

definition registry_new :: "nat \<Rightarrow> host_error + 'h registry" where
  "registry_new capacity =
     (if capacity = 0 then Inl (GroupLimit 0) else Inr \<lparr>rg_capacity = capacity, rg_groups = []\<rparr>)"

definition registry_insert :: "group_id \<Rightarrow> 'h \<Rightarrow> 'h registry \<Rightarrow> (host_error + unit) \<times> 'h registry" where
  "registry_insert i handle r =
     (if map_of (rg_groups r) i \<noteq> None then (Inl GroupExists, r)
      else if rg_capacity r \<le> length (rg_groups r) then (Inl (GroupLimit (rg_capacity r)), r)
      else (Inr (), r\<lparr>rg_groups := (i, handle) # rg_groups r\<rparr>))"

definition registry_get :: "group_id \<Rightarrow> 'h registry \<Rightarrow> host_error + 'h" where
  "registry_get i r = (case map_of (rg_groups r) i of None \<Rightarrow> Inl GroupMissing | Some h \<Rightarrow> Inr h)"

definition registry_remove :: "group_id \<Rightarrow> 'h registry \<Rightarrow> (host_error + 'h) \<times> 'h registry" where
  "registry_remove i r =
     (case map_of (rg_groups r) i of
        None \<Rightarrow> (Inl GroupMissing, r)
      | Some h \<Rightarrow> (Inr h, r\<lparr>rg_groups := filter (\<lambda>(j, _). j \<noteq> i) (rg_groups r)\<rparr>))"

inductive registry_step :: "'h registry \<Rightarrow> 'h registry \<Rightarrow> bool" where
  insert: "registry_step r (snd (registry_insert i h r))"
| remove: "registry_step r (snd (registry_remove i r))"

definition registry_inv :: "'h registry \<Rightarrow> bool" where
  "registry_inv r \<longleftrightarrow> distinct (map fst (rg_groups r)) \<and> length (rg_groups r) \<le> rg_capacity r"

lemma registry_step_inv: "registry_inv r \<Longrightarrow> registry_step r r' \<Longrightarrow> registry_inv r'"
proof (erule registry_step.cases)
  show "registry_inv r'" if "registry_inv r" "r = q" "r' = snd (registry_insert i h q)" for q i h
    using that by (auto simp: registry_inv_def registry_insert_def map_of_eq_None_iff)
  show "registry_inv r'" if "registry_inv r" "r = q" "r' = snd (registry_remove i q)" for q i
    using that order_trans [OF length_filter_le [of "\<lambda>(j, _). j \<noteq> i" "rg_groups r"]]
    by (auto simp: registry_inv_def registry_remove_def distinct_map_filter split: option.splits)
qed

interpretation registry: invariant_system "\<lambda>r. \<exists>c. registry_new c = Inr r" registry_step registry_inv
proof unfold_locales
  show "registry_inv r" if "\<exists>c. registry_new c = Inr r" for r :: "'a registry"
    using that by (auto simp: registry_new_def registry_inv_def split: if_splits)
qed (rule registry_step_inv)

text \<open>
  A registry never holds more groups than its capacity nor a group twice, and after a
  successful insertion the handle is found under its identifier and all others as before.
\<close>

theorem registry_bounded_lookup:
  assumes "registry_new c = Inr r0" and "registry_step\<^sup>*\<^sup>* r0 r" and "registry_insert i h r = (Inr (), r')"
  shows "length (rg_groups r') \<le> rg_capacity r' \<and> distinct (map fst (rg_groups r')) \<and>
    registry_get j r' = (if j = i then Inr h else registry_get j r)"
proof -
  have "registry_inv r" by (rule registry.reachable_inv [OF _ assms(2)]) (use assms(1) in blast)
  then have "registry_inv r'" using registry_step_inv [OF _ registry_step.insert [of r i h]] assms(3) by simp
  then show ?thesis
    using assms(3) by (auto simp: registry_inv_def registry_insert_def registry_get_def split: if_splits)
qed

theorem registry_bounded_lookup_witness:
  "registry_get \<lparr>gi_product = ''p'', gi_group = ''g''\<rparr>
     \<lparr>rg_capacity = 1, rg_groups = [(\<lparr>gi_product = ''p'', gi_group = ''g''\<rparr>, 5::nat)]\<rparr> = Inr 5"
  using registry_bounded_lookup [of 1 "\<lparr>rg_capacity = 1, rg_groups = []\<rparr>" "\<lparr>rg_capacity = 1, rg_groups = []\<rparr>"
      "\<lparr>gi_product = ''p'', gi_group = ''g''\<rparr>" "5::nat" _ "\<lparr>gi_product = ''p'', gi_group = ''g''\<rparr>"]
  by (simp add: registry_new_def registry_insert_def)

record read_lease =
  rl_local_node :: nat
  rl_current_leader :: "nat option"
  rl_millis_since_quorum_ack :: "nat option"
  rl_maximum_age_millis :: nat
  rl_last_applied_index :: "nat option"
  rl_last_log_index :: "nat option"

text \<open>\<open>Option\<close> is ordered with \<open>None\<close> below every \<open>Some\<close>.\<close>

fun option_ge :: "nat option \<Rightarrow> nat option \<Rightarrow> bool" where
  "option_ge a None = True"
| "option_ge None (Some b) = False"
| "option_ge (Some a) (Some b) = (b \<le> a)"

definition lease_is_current :: "read_lease \<Rightarrow> bool" where
  "lease_is_current l \<longleftrightarrow> rl_current_leader l = Some (rl_local_node l) \<and>
     (case rl_millis_since_quorum_ack l of None \<Rightarrow> False | Some ms \<Rightarrow> ms \<le> rl_maximum_age_millis l) \<and>
     option_ge (rl_last_applied_index l) (rl_last_log_index l)"

section \<open>The read gate\<close>

text \<open>
  Concurrent readers of \<open>LinearizableReadGate::ensure\<close>, one step per access to the shared
  state: take an arrival number, take the lock, return because the number is covered, or
  load the number of arrivals and start a quorum proof, and finish it. The field
  \<open>ga_proofs\<close> records how many readers had arrived when each successful proof started; the
  code does not store it. The counter is a \<open>u64\<close>; a run of fewer than \<open>2 ^ 64\<close> reads never
  wraps it.
\<close>

datatype gate_pc = Waiting nat | Locked nat | Proving nat nat | Passed nat | Failed nat

record gate =
  ga_arrivals :: nat
  ga_covered :: nat
  ga_lock :: "nat option"
  ga_threads :: "(nat, gate_pc) btree"
  ga_proofs :: "nat list"

definition gate_new :: gate where
  "gate_new = \<lparr>ga_arrivals = 0, ga_covered = 0, ga_lock = None, ga_threads = [], ga_proofs = []\<rparr>"

definition set_pc :: "nat \<Rightarrow> gate_pc \<Rightarrow> gate \<Rightarrow> gate" where
  "set_pc t pc g = g\<lparr>ga_threads := bt_insert t pc (ga_threads g)\<rparr>"

inductive gate_step :: "gate \<Rightarrow> gate \<Rightarrow> bool" where
  arrive: "bt_get (ga_threads g) t = None \<Longrightarrow> ga_arrivals g + 1 < 2 ^ 64 \<Longrightarrow>
     gate_step g (set_pc t (Waiting (ga_arrivals g + 1)) (g\<lparr>ga_arrivals := ga_arrivals g + 1\<rparr>))"
| lock: "bt_get (ga_threads g) t = Some (Waiting a) \<Longrightarrow> ga_lock g = None \<Longrightarrow>
     gate_step g (set_pc t (Locked a) (g\<lparr>ga_lock := Some t\<rparr>))"
| covered: "bt_get (ga_threads g) t = Some (Locked a) \<Longrightarrow> a \<le> ga_covered g \<Longrightarrow>
     gate_step g (set_pc t (Passed a) (g\<lparr>ga_lock := None\<rparr>))"
| prove: "bt_get (ga_threads g) t = Some (Locked a) \<Longrightarrow> ga_covered g < a \<Longrightarrow>
     gate_step g (set_pc t (Proving a (ga_arrivals g)) g)"
| proof_ok: "bt_get (ga_threads g) t = Some (Proving a c) \<Longrightarrow>
     gate_step g (set_pc t (Passed a) (g\<lparr>ga_covered := c, ga_lock := None, ga_proofs := c # ga_proofs g\<rparr>))"
| proof_err: "bt_get (ga_threads g) t = Some (Proving a c) \<Longrightarrow>
     gate_step g (set_pc t (Failed a) (g\<lparr>ga_lock := None\<rparr>))"

fun pc_ok :: "gate \<Rightarrow> nat \<Rightarrow> gate_pc \<Rightarrow> bool" where
  "pc_ok g t (Waiting a) \<longleftrightarrow> 1 \<le> a \<and> a \<le> ga_arrivals g"
| "pc_ok g t (Locked a) \<longleftrightarrow> 1 \<le> a \<and> a \<le> ga_arrivals g \<and> ga_lock g = Some t"
| "pc_ok g t (Proving a c) \<longleftrightarrow> 1 \<le> a \<and> a \<le> c \<and> c \<le> ga_arrivals g \<and> ga_lock g = Some t"
| "pc_ok g t (Passed a) \<longleftrightarrow> (\<exists>c \<in> set (ga_proofs g). a \<le> c)"
| "pc_ok g t (Failed a) \<longleftrightarrow> True"

definition gate_inv :: "gate \<Rightarrow> bool" where
  "gate_inv g \<longleftrightarrow> (ga_covered g = 0 \<or> ga_covered g \<in> set (ga_proofs g)) \<and>
     (\<forall>t pc. bt_get (ga_threads g) t = Some pc \<longrightarrow> pc_ok g t pc)"

lemma pc_ok_set_pc [simp]: "pc_ok (set_pc t pc g) t' p = pc_ok g t' p"
  by (cases p) (simp_all add: set_pc_def)

lemma gate_inv_set_pc:
  assumes "gate_inv g" and "ga_threads h = ga_threads g" and "pc_ok h t pc"
    and "ga_covered h = 0 \<or> ga_covered h \<in> set (ga_proofs h)"
    and "\<And>t' p. t' \<noteq> t \<Longrightarrow> pc_ok g t' p \<Longrightarrow> pc_ok h t' p"
  shows "gate_inv (set_pc t pc h)"
proof -
  have "pc_ok h t' p" if "bt_get (ga_threads (set_pc t pc h)) t' = Some p" for t' p
    using that assms by (auto simp: set_pc_def gate_inv_def split: if_splits)
  then show ?thesis using assms(4) by (simp add: gate_inv_def) (simp add: set_pc_def)
qed

lemma gate_step_inv:
  assumes inv: "gate_inv g" and "gate_step g h"
  shows "gate_inv h"
proof -
  have ok: "bt_get (ga_threads g) t = Some pc \<Longrightarrow> pc_ok g t pc" for t pc
    using inv by (simp add: gate_inv_def)
  have cov: "ga_covered g = 0 \<or> ga_covered g \<in> set (ga_proofs g)"
    using inv by (simp add: gate_inv_def)
  have frame: "pc_ok h t' p" if "t' \<noteq> t" "pc_ok g t' p" "ga_lock g \<in> {None, Some t}"
    "ga_arrivals g \<le> ga_arrivals h" "set (ga_proofs g) \<subseteq> set (ga_proofs h)" for h t t' p
    using that by (cases p) auto
  have keep: "pc_ok h t' p" if "pc_ok g t' p" "ga_lock h = ga_lock g" "ga_arrivals g \<le> ga_arrivals h"
    "ga_proofs h = ga_proofs g" for h t' p
    using that by (cases p) auto
  from assms(2) show ?thesis
  proof (cases rule: gate_step.cases)
    case (arrive t)
    show ?thesis unfolding arrive
      by (rule gate_inv_set_pc [OF inv]) (use cov keep in \<open>auto intro: keep\<close>)
  next
    case (lock t a)
    show ?thesis unfolding lock
      by (rule gate_inv_set_pc [OF inv]) (use cov ok [OF lock(2)] lock(3) in \<open>auto intro: frame\<close>)
  next
    case (covered t a)
    have "\<exists>c \<in> set (ga_proofs g). a \<le> c" using cov covered(3) ok [OF covered(2)] by force
    then show ?thesis unfolding covered
      by (intro gate_inv_set_pc [OF inv]) (use cov ok [OF covered(2)] in \<open>auto intro: frame\<close>)
  next
    case (prove t a)
    show ?thesis unfolding prove
      by (rule gate_inv_set_pc [OF inv]) (use cov ok [OF prove(2)] in auto)
  next
    case (proof_ok t a c)
    show ?thesis unfolding proof_ok
      by (rule gate_inv_set_pc [OF inv]) (use cov ok [OF proof_ok(2)] in \<open>auto intro: frame\<close>)
  next
    case (proof_err t a c)
    show ?thesis unfolding proof_err
      by (rule gate_inv_set_pc [OF inv]) (use cov ok [OF proof_err(2)] in \<open>auto intro: frame\<close>)
  qed
qed

interpretation gate: invariant_system "\<lambda>g. g = gate_new" gate_step gate_inv
  by unfold_locales (simp_all add: gate_step_inv, simp add: gate_new_def gate_inv_def)

text \<open>
  C6. A read that the gate lets through is covered by a successful quorum proof that was
  started when at least its own arrival had been counted, so not before the read began.
\<close>

theorem gate_reads_are_covered:
  assumes "gate_step\<^sup>*\<^sup>* gate_new g" and "bt_get (ga_threads g) t = Some (Passed a)"
  shows "\<exists>c \<in> set (ga_proofs g). a \<le> c"
proof -
  have "gate_inv g" by (rule gate.reachable_inv [OF refl assms(1)])
  then show ?thesis using assms(2) by (fastforce simp: gate_inv_def)
qed

text \<open>Two readers arrive; the first one proves for both, the second passes without a proof.\<close>

theorem gate_reads_are_covered_witness:
  "\<exists>g. gate_step\<^sup>*\<^sup>* gate_new g \<and> bt_get (ga_threads g) 2 = Some (Passed 2) \<and> (\<exists>c \<in> set (ga_proofs g). 2 \<le> c)"
proof -
  let ?g1 = "set_pc 1 (Waiting 1) (gate_new\<lparr>ga_arrivals := 1\<rparr>)"
  let ?g2 = "set_pc 2 (Waiting 2) (?g1\<lparr>ga_arrivals := 2\<rparr>)"
  let ?g3 = "set_pc 1 (Locked 1) (?g2\<lparr>ga_lock := Some 1\<rparr>)"
  let ?g4 = "set_pc 1 (Proving 1 2) ?g3"
  let ?g5 = "set_pc 1 (Passed 1) (?g4\<lparr>ga_covered := 2, ga_lock := None, ga_proofs := [2]\<rparr>)"
  let ?g6 = "set_pc 2 (Locked 2) (?g5\<lparr>ga_lock := Some 2\<rparr>)"
  let ?g7 = "set_pc 2 (Passed 2) (?g6\<lparr>ga_lock := None\<rparr>)"
  have "gate_step gate_new ?g1" using gate_step.arrive [of gate_new 1] by (simp add: gate_new_def)
  moreover have "gate_step ?g1 ?g2"
    using gate_step.arrive [of ?g1 2] by (simp add: gate_new_def set_pc_def del: One_nat_def)
  moreover have "gate_step ?g2 ?g3" using gate_step.lock [of ?g2 1 1] by (simp add: gate_new_def set_pc_def)
  moreover have "gate_step ?g3 ?g4" using gate_step.prove [of ?g3 1 1] by (simp add: gate_new_def set_pc_def)
  moreover have "gate_step ?g4 ?g5" using gate_step.proof_ok [of ?g4 1 1 2] by (simp add: gate_new_def set_pc_def)
  moreover have "gate_step ?g5 ?g6" using gate_step.lock [of ?g5 2 2] by (simp add: gate_new_def set_pc_def)
  moreover have "gate_step ?g6 ?g7" using gate_step.covered [of ?g6 2 2] by (simp add: gate_new_def set_pc_def)
  ultimately have run: "gate_step\<^sup>*\<^sup>* gate_new ?g7" by (meson converse_rtranclp_into_rtranclp rtranclp.rtrancl_refl)
  have "bt_get (ga_threads ?g7) 2 = Some (Passed 2)" by (simp add: set_pc_def)
  with run gate_reads_are_covered [OF run this] show ?thesis by blast
qed

section \<open>The lazy batcher\<close>

text \<open>
  Submitters and the runner of \<open>LazyBatcher\<close>, one step per critical section of the queue
  lock and one for the call of the processor. A job carries the number of its submission;
  \<open>ba_responses\<close> lists the results sent on the jobs' channels, and the runner is between
  the two critical sections of a round in the phase \<open>Checking\<close>.
\<close>

datatype 'e batch_error = Processor 'e | OutputCount nat nat | QueueFull nat

datatype runner_phase = Draining | Checking

record 'i job =
  jb_number :: nat
  jb_input :: 'i
  jb_encoded_bytes :: nat

record ('i, 'o, 'e) batcher =
  ba_maximum_items :: nat
  ba_maximum_bytes :: nat
  ba_maximum_queued :: nat
  ba_running :: bool
  ba_queue :: "'i job list"
  ba_phase :: runner_phase
  ba_in_flight :: "'i job list"
  ba_submitted :: nat
  ba_batches :: nat
  ba_maximum_batch_size :: nat
  ba_responses :: "(nat \<times> ('e batch_error + 'o)) list"

definition batcher_new :: "nat \<Rightarrow> nat \<Rightarrow> host_error + ('i, 'o, 'e) batcher" where
  "batcher_new items bytes =
     (if items = 0 \<or> bytes = 0 then Inl (GroupLimit 0)
      else Inr \<lparr>ba_maximum_items = items, ba_maximum_bytes = bytes,
                ba_maximum_queued = saturating_mul 64 items 8, ba_running = False, ba_queue = [],
                ba_phase = Draining, ba_in_flight = [], ba_submitted = 0, ba_batches = 0,
                ba_maximum_batch_size = 0, ba_responses = []\<rparr>)"

definition batch_submit ::
    "'i \<Rightarrow> nat \<Rightarrow> ('i, 'o, 'e) batcher \<Rightarrow> ('e batch_error + unit) \<times> ('i, 'o, 'e) batcher" where
  "batch_submit x encoded_bytes b =
     (if ba_maximum_queued b \<le> length (ba_queue b) then (Inl (QueueFull (ba_maximum_queued b)), b)
      else (Inr (), b\<lparr>ba_queue := ba_queue b @
                [\<lparr>jb_number = ba_submitted b, jb_input = x, jb_encoded_bytes = encoded_bytes\<rparr>],
              ba_submitted := ba_submitted b + 1, ba_running := True\<rparr>))"

fun take_jobs :: "nat \<Rightarrow> nat \<Rightarrow> 'i job list \<Rightarrow> nat \<Rightarrow> 'i job list \<Rightarrow> 'i job list \<times> 'i job list" where
  "take_jobs items maximum_bytes jobs bytes [] = (jobs, [])"
| "take_jobs items maximum_bytes jobs bytes (j # q) =
     (if length jobs < items then
        (let next_bytes = saturating_add 64 bytes (jb_encoded_bytes j) in
         if jobs \<noteq> [] \<and> maximum_bytes < next_bytes then (jobs, j # q)
         else take_jobs items maximum_bytes (jobs @ [j]) next_bytes q)
      else (jobs, j # q))"

definition drain_take :: "('i, 'o, 'e) batcher \<Rightarrow> ('i, 'o, 'e) batcher" where
  "drain_take b =
     (case take_jobs (ba_maximum_items b) (ba_maximum_bytes b) [] 0 (ba_queue b) of
        (jobs, q) \<Rightarrow>
          if jobs = [] then b\<lparr>ba_phase := Checking\<rparr>
          else b\<lparr>ba_queue := q, ba_in_flight := jobs, ba_batches := ba_batches b + 1,
                 ba_maximum_batch_size := max (ba_maximum_batch_size b) (length jobs)\<rparr>)"

definition drain_check :: "('i, 'o, 'e) batcher \<Rightarrow> ('i, 'o, 'e) batcher" where
  "drain_check b =
     (if ba_queue b = [] then b\<lparr>ba_phase := Draining, ba_running := False\<rparr>
      else b\<lparr>ba_phase := Draining\<rparr>)"

definition batch_results ::
    "('i list \<Rightarrow> 'e + 'o list) \<Rightarrow> 'i job list \<Rightarrow> (nat \<times> ('e batch_error + 'o)) list" where
  "batch_results process jobs =
     (case process (map jb_input jobs) of
        Inr outputs \<Rightarrow>
          if length outputs = length jobs then zip (map jb_number jobs) (map Inr outputs)
          else map (\<lambda>j. (jb_number j, Inl (OutputCount (length jobs) (length outputs)))) jobs
      | Inl e \<Rightarrow> map (\<lambda>j. (jb_number j, Inl (Processor e))) jobs)"

definition drain_process ::
    "('i list \<Rightarrow> 'e + 'o list) \<Rightarrow> ('i, 'o, 'e) batcher \<Rightarrow> ('i, 'o, 'e) batcher" where
  "drain_process process b =
     b\<lparr>ba_responses := ba_responses b @ batch_results process (ba_in_flight b), ba_in_flight := []\<rparr>"

inductive batch_step ::
    "('i list \<Rightarrow> 'e + 'o list) \<Rightarrow> ('i, 'o, 'e) batcher \<Rightarrow> ('i, 'o, 'e) batcher \<Rightarrow> bool" for process where
  submit: "batch_step process b (snd (batch_submit x n b))"
| "take": "ba_running b \<Longrightarrow> ba_in_flight b = [] \<Longrightarrow> ba_phase b = Draining \<Longrightarrow> batch_step process b (drain_take b)"
| check: "ba_running b \<Longrightarrow> ba_phase b = Checking \<Longrightarrow> batch_step process b (drain_check b)"
| "process": "ba_in_flight b \<noteq> [] \<Longrightarrow> batch_step process b (drain_process process b)"

lemma take_jobs_split: "take_jobs items m jobs bytes q = (js, r) \<Longrightarrow> js @ r = jobs @ q"
  by (induction items m jobs bytes q rule: take_jobs.induct) (auto simp: Let_def split: if_splits)

lemma take_jobs_grows: "take_jobs items m jobs bytes q = (js, r) \<Longrightarrow> length jobs \<le> length js"
  by (induction items m jobs bytes q rule: take_jobs.induct) (fastforce simp: Let_def split: if_splits)+

lemma take_jobs_progress: "0 < items \<Longrightarrow> take_jobs items m [] 0 (j # q) = (js, r) \<Longrightarrow> js \<noteq> []"
  using take_jobs_grows [of items m "[j]"] by (fastforce simp: Let_def)

lemma take_jobs_bounds:
  "take_jobs items m jobs bytes q = (js, r) \<Longrightarrow> length jobs \<le> items \<Longrightarrow>
   bytes = min (sum_list (map jb_encoded_bytes jobs)) (2 ^ 64 - 1) \<Longrightarrow>
   length jobs \<le> 1 \<or> bytes \<le> m \<Longrightarrow>
   length js \<le> items \<and> (length js \<le> 1 \<or> min (sum_list (map jb_encoded_bytes js)) (2 ^ 64 - 1) \<le> m)"
proof (induction items m jobs bytes q rule: take_jobs.induct)
  case (2 items m jobs bytes j q)
  show ?case
  proof (cases "length jobs < items \<and> \<not> (jobs \<noteq> [] \<and> m < saturating_add 64 bytes (jb_encoded_bytes j))")
    case True
    let ?nb = "saturating_add 64 bytes (jb_encoded_bytes j)"
    have "?nb = min (sum_list (map jb_encoded_bytes (jobs @ [j]))) (2 ^ 64 - 1)"
      using "2.prems"(3) by (simp add: saturating_add_def min_def)
    moreover have "take_jobs items m (jobs @ [j]) ?nb q = (js, r)"
      using "2.prems"(1) True by (simp add: Let_def split: if_splits)
    ultimately show ?thesis using True by (intro "2.IH" [OF _ refl]) auto
  next
    case False
    then show ?thesis using "2.prems" by (auto simp: Let_def split: if_splits)
  qed
qed auto

definition batch_inv :: "('i, 'o, 'e) batcher \<Rightarrow> bool" where
  "batch_inv b \<longleftrightarrow> 0 < ba_maximum_items b \<and>
     map fst (ba_responses b) @ map jb_number (ba_in_flight b @ ba_queue b) = [0..<ba_submitted b] \<and>
     (\<not> ba_running b \<longrightarrow> ba_queue b = [] \<and> ba_in_flight b = []) \<and>
     (ba_phase b = Checking \<longrightarrow> ba_in_flight b = []) \<and>
     length (ba_queue b) \<le> ba_maximum_queued b \<and> length (ba_in_flight b) \<le> ba_maximum_items b \<and>
     ba_maximum_batch_size b \<le> ba_maximum_items b"

lemma map_fst_batch_results [simp]: "map fst (batch_results process jobs) = map jb_number jobs"
  by (auto simp: batch_results_def comp_def split: sum.splits)

lemma batch_inv_take:
  assumes "batch_inv b" and "ba_in_flight b = []" and "ba_running b" and "ba_phase b = Draining"
  shows "batch_inv (drain_take b)"
proof -
  obtain jobs q where t: "take_jobs (ba_maximum_items b) (ba_maximum_bytes b) [] 0 (ba_queue b) = (jobs, q)"
    by fastforce
  have "jobs @ q = ba_queue b" using take_jobs_split [OF t] by simp
  moreover have "length jobs \<le> ba_maximum_items b" using take_jobs_bounds [OF t] by simp
  moreover have "length q \<le> length (ba_queue b)" using calculation(1) by (metis length_append le_add2)
  ultimately show ?thesis
    using assms t by (auto simp: batch_inv_def drain_take_def simp flip: map_append)
qed

lemma batch_step_inv: "batch_inv b \<Longrightarrow> batch_step process b c \<Longrightarrow> batch_inv c"
proof (erule batch_step.cases)
  show "batch_inv c" if "batch_inv b" "b = d" "c = snd (batch_submit x n d)" for d x n
    using that by (auto simp: batch_inv_def batch_submit_def)
  show "batch_inv c" if "batch_inv b" "b = d" "c = drain_take d" "ba_running d" "ba_in_flight d = []"
    "ba_phase d = Draining" for d
    using that batch_inv_take by simp
qed (auto simp: batch_inv_def drain_check_def drain_process_def)

interpretation batcher: invariant_system "\<lambda>b. \<exists>i n. batcher_new i n = Inr b" "batch_step process" batch_inv for process
proof unfold_locales
  show "batch_inv b" if "\<exists>i n. batcher_new i n = Inr b" for b :: "('a, 'b, 'c) batcher"
    using that by (auto simp: batcher_new_def batch_inv_def split: if_splits)
qed (rule batch_step_inv)


definition two_jobs :: "(nat, nat, string) batcher" where
  "two_jobs = snd (batch_submit 8 3 (snd (batch_submit 7 3 (projr (batcher_new 4 4)))))"

lemma two_jobs_reachable: "(batch_step process)\<^sup>*\<^sup>* (projr (batcher_new 4 4)) two_jobs"
proof -
  let ?b = "projr (batcher_new 4 4) :: (nat, nat, string) batcher"
  have "batch_step process ?b (snd (batch_submit 7 3 ?b))" by (rule batch_step.submit)
  moreover have "batch_step process (snd (batch_submit 7 3 ?b)) two_jobs"
    unfolding two_jobs_def by (rule batch_step.submit)
  ultimately show ?thesis by (rule converse_rtranclp_into_rtranclp [OF _ r_into_rtranclp])
qed

definition echo :: "nat list \<Rightarrow> string + nat list" where
  "echo xs = Inr xs"

definition one_answered :: "(nat, nat, string) batcher" where
  "one_answered = drain_process echo (drain_take two_jobs)"

lemma two_jobs_eq:
  "two_jobs = (projr (batcher_new 4 4))\<lparr>ba_running := True, ba_submitted := 2,
       ba_queue := [\<lparr>jb_number = 0, jb_input = 7, jb_encoded_bytes = 3\<rparr>,
                    \<lparr>jb_number = 1, jb_input = 8, jb_encoded_bytes = 3\<rparr>]\<rparr>"
proof -
  have "saturating_mul 64 4 8 = 32" by (simp add: saturating_mul_def)
  then show ?thesis by (simp add: two_jobs_def batch_submit_def batcher_new_def)
qed

lemma two_jobs_fields: "ba_running two_jobs" "ba_in_flight two_jobs = []" "ba_phase two_jobs = Draining"
proof -
  show "ba_running two_jobs" by (simp add: two_jobs_eq)
  show "ba_in_flight two_jobs = []" "ba_phase two_jobs = Draining" by (simp_all add: two_jobs_eq batcher_new_def)
qed

lemma one_answered_eq:
  "ba_in_flight (drain_take two_jobs) \<noteq> []" "ba_submitted one_answered = 2" "ba_responses one_answered = [(0, Inr 7)]"
proof -
  have "saturating_add 64 0 3 = 3" "saturating_add 64 3 3 = 6" by (simp_all add: saturating_add_def)
  then show "ba_in_flight (drain_take two_jobs) \<noteq> []" "ba_submitted one_answered = 2"
    "ba_responses one_answered = [(0, Inr 7)]"
    by (simp_all add: one_answered_def two_jobs_eq batcher_new_def drain_take_def drain_process_def
        batch_results_def echo_def)
qed


text \<open>
  C27. A round of the batcher takes a prefix of the queue that is not empty unless the queue
  is, has at most the maximum number of items, and exceeds the byte limit only as a single item.
\<close>

theorem batch_respects_limits:
  assumes "0 < items" and "take_jobs items maximum_bytes [] 0 q = (js, r)"
  shows "js @ r = q \<and> (js = [] \<longleftrightarrow> q = []) \<and> length js \<le> items \<and>
    (length js \<le> 1 \<or> min (sum_list (map jb_encoded_bytes js)) (2 ^ 64 - 1) \<le> maximum_bytes)"
proof -
  have "js = [] \<longleftrightarrow> q = []"
  proof (cases q)
    case Nil
    then show ?thesis using assms(2) by simp
  next
    case (Cons j q')
    then show ?thesis using take_jobs_progress [OF assms(1)] assms(2) by blast
  qed
  then show ?thesis using take_jobs_split [OF assms(2)] take_jobs_bounds [OF assms(2)] by simp
qed

theorem batch_respects_limits_witness:
  "length (fst (take_jobs 4 4 [] 0 (ba_queue two_jobs))) \<le> 4 \<and> ba_queue two_jobs \<noteq> []"
proof -
  obtain js r where t: "take_jobs 4 4 [] 0 (ba_queue two_jobs) = (js, r)" by fastforce
  moreover have "ba_queue two_jobs \<noteq> []" by (simp add: two_jobs_eq)
  ultimately show ?thesis using batch_respects_limits [of 4 4 "ba_queue two_jobs" js r] by simp
qed

end
