(* ===== verification/Group_Coordinator.thy ===== *)
theory Group_Coordinator
  imports Rsm
begin

text \<open>
  The consumer-group coordinator of \<open>crates/pepper-kafka/src/groups.rs\<close>: the
  \<open>GroupMachine\<close> that the deterministic host runs, and the \<open>GroupCoordinator\<close> that spreads
  groups over shards and persists each shard. Parameters stand for the decoder of consumer
  assignments (\<open>kafka_protocol\<close>), for \<open>blake3\<close>, for \<open>serde_json\<close> and for the outcome of
  the file operations; the clock is an argument of the commands, as in the code. A Rust
  indexing panic is the error value \<open>Panic\<close>.
\<close>

section \<open>State\<close>

datatype group_error = Invalid | UnknownGroup | UnknownMember | IllegalGeneration | InconsistentProtocol
  | RebalanceInProgress | InvalidAssignment | DuplicateAssignment | FencedCoordinator
  | CodecFailed string | Io | Panic

datatype group_phase = Empty | PreparingRebalance | Stable

record group_member =
  mb_member_id :: string
  mb_client_id :: string
  mb_client_host :: string
  mb_session_timeout_ms :: nat
  mb_last_heartbeat_ms :: nat
  mb_protocols :: "(string, bytes) btree"
  mb_assignment :: bytes

text \<open>Group, topic and partition; the derived order of the struct is lexicographic.\<close>

type_synonym offset_key = "string \<times> string \<times> int"

record offset_record =
  of_offset :: int
  of_metadata :: string
  of_commit_timestamp_ms :: nat
  of_expire_timestamp_ms :: "nat option"

record group_record =
  gr_generation :: int
  gr_leader :: string
  gr_protocol_type :: string
  gr_protocol_name :: string
  gr_phase :: group_phase
  gr_members :: "(string, group_member) btree"

record group_state =
  gs_revision :: nat
  gs_coordinator_epoch :: nat
  gs_next_member :: nat
  gs_groups :: "(string, group_record) btree"
  gs_offsets :: "(offset_key, offset_record) btree"

definition group_state_default :: group_state where
  "group_state_default = \<lparr>gs_revision = 0, gs_coordinator_epoch = 1, gs_next_member = 0,
     gs_groups = [], gs_offsets = []\<rparr>"

record persisted_state =
  pe_revision :: nat
  pe_coordinator_epoch :: nat
  pe_next_member :: nat
  pe_groups :: "(string, group_record) btree"
  pe_offsets :: "(offset_key \<times> offset_record) list"

definition persisted_from :: "group_state \<Rightarrow> persisted_state" where
  "persisted_from s = \<lparr>pe_revision = gs_revision s, pe_coordinator_epoch = gs_coordinator_epoch s,
     pe_next_member = gs_next_member s, pe_groups = gs_groups s, pe_offsets = gs_offsets s\<rparr>"

definition state_from :: "persisted_state \<Rightarrow> group_state" where
  "state_from p = \<lparr>gs_revision = pe_revision p, gs_coordinator_epoch = pe_coordinator_epoch p,
     gs_next_member = pe_next_member p, gs_groups = pe_groups p, gs_offsets = bt_collect (pe_offsets p)\<rparr>"

datatype group_command =
    Join string string string string string "(string, bytes) btree" nat nat
  | Sync string int string "(string, bytes) btree"
  | Heartbeat string int string nat
  | Leave string string
  | CommitOffsets string int string "(string \<times> int \<times> int \<times> string) list" "nat option" nat
  | CommitTransactionalOffsets string "(string \<times> int \<times> int \<times> string) list" nat
  | Expire nat
  | Migrate nat

datatype group_response =
    Joined int string string string "(string \<times> bytes) list"
  | Assignment bytes
  | EmptyResponse
  | Expired nat nat
  | Migrated nat

type_synonym assignment_decoder = "int \<Rightarrow> bytes \<Rightarrow> ((string \<times> int list) list \<times> bytes) option"

section \<open>Validation\<close>

definition or_else_nonempty :: "string \<Rightarrow> string option \<Rightarrow> string option" where
  "or_else_nonempty s fallback = (if s = [] then fallback else Some s)"

definition validate_member :: "group_state \<Rightarrow> string \<Rightarrow> int \<Rightarrow> string \<Rightarrow> group_error + group_record" where
  "validate_member s gname generation member =
     (case bt_get (gs_groups s) gname of
        None \<Rightarrow> Inl UnknownGroup
      | Some r \<Rightarrow>
          if gr_generation r \<noteq> generation then Inl IllegalGeneration
          else if \<not> bt_contains (gr_members r) member then Inl UnknownMember
          else Inr r)"

text \<open>\<open>Buf::get_i16\<close> reads two bytes, most significant first.\<close>

definition get_i16 :: "8 word \<Rightarrow> 8 word \<Rightarrow> int" where
  "get_i16 hi lo = (let v = 256 * uint hi + uint lo in if v < 2 ^ 15 then v else v - 2 ^ 16)"

fun insert_partitions :: "string \<Rightarrow> int list \<Rightarrow> (string \<times> int) list \<Rightarrow> (string \<times> int) list option" where
  "insert_partitions topic [] owners = Some owners"
| "insert_partitions topic (p # ps) owners =
     (if (topic, p) \<in> set owners then None
      else insert_partitions topic ps (insort_insert (topic, p) owners))"

fun insert_topics :: "(string \<times> int list) list \<Rightarrow> (string \<times> int) list \<Rightarrow> (string \<times> int) list option" where
  "insert_topics [] owners = Some owners"
| "insert_topics ((topic, ps) # ts) owners =
     (case insert_partitions topic ps owners of None \<Rightarrow> None | Some owners' \<Rightarrow> insert_topics ts owners')"

fun validate_assignments ::
    "assignment_decoder \<Rightarrow> bytes list \<Rightarrow> (string \<times> int) list \<Rightarrow> group_error + unit" where
  "validate_assignments decode [] owners = Inr ()"
| "validate_assignments decode (a # as) owners =
     (case a of
        [] \<Rightarrow> validate_assignments decode as owners
      | [_] \<Rightarrow> Inl InvalidAssignment
      | hi # lo # rest \<Rightarrow>
          (case decode (get_i16 hi lo) rest of
             None \<Rightarrow> Inl InvalidAssignment
           | Some (topics, remaining) \<Rightarrow>
               if remaining \<noteq> [] then Inl InvalidAssignment
               else (case insert_topics topics owners of
                  None \<Rightarrow> Inl DuplicateAssignment
                | Some owners' \<Rightarrow> validate_assignments decode as owners')))"

definition validate_unique_assignments ::
    "assignment_decoder \<Rightarrow> (string, bytes) btree \<Rightarrow> group_error + unit" where
  "validate_unique_assignments decode assignments = validate_assignments decode (bt_values assignments) []"

section \<open>Commands\<close>

definition first_key :: "('k, 'v) btree \<Rightarrow> 'k option" where
  "first_key m = (case m of [] \<Rightarrow> None | (k, _) # _ \<Rightarrow> Some k)"

definition bump_revision :: "group_state \<Rightarrow> group_state" where
  "bump_revision s = s\<lparr>gs_revision := saturating_add 64 (gs_revision s) 1\<rparr>"

definition put_group :: "string \<Rightarrow> group_record \<Rightarrow> group_state \<Rightarrow> group_state" where
  "put_group gname r s = s\<lparr>gs_groups := bt_insert gname r (gs_groups s)\<rparr>"

definition new_record :: "string \<Rightarrow> string \<Rightarrow> (string, bytes) btree \<Rightarrow> group_record" where
  "new_record member_id protocol_type protocols =
     \<lparr>gr_generation = 0, gr_leader = member_id, gr_protocol_type = protocol_type,
      gr_protocol_name = (case first_key protocols of None \<Rightarrow> [] | Some k \<Rightarrow> k),
      gr_phase = Empty, gr_members = []\<rparr>"

definition assign_member_id :: "string \<Rightarrow> group_state \<Rightarrow> string \<times> group_state" where
  "assign_member_id member_id s =
     (if member_id = [] then
        (let n = saturating_add 64 (gs_next_member s) 1
         in (''pepper-member-'' @ show_nat n, s\<lparr>gs_next_member := n\<rparr>))
      else (member_id, s))"

definition joined_record ::
    "string \<Rightarrow> string \<Rightarrow> group_member \<Rightarrow> group_record \<Rightarrow> group_record" where
  "joined_record selected member_id m r =
     (let members = bt_insert member_id m (gr_members r);
          begins = \<not> bt_contains (gr_members r) member_id \<or> gr_phase r \<noteq> PreparingRebalance
      in r\<lparr>gr_protocol_name := selected, gr_members := members,
           gr_generation := (if begins then saturating_add_signed 32 (gr_generation r) 1 else gr_generation r),
           gr_leader := (case first_key members of None \<Rightarrow> gr_leader r | Some k \<Rightarrow> k),
           gr_phase := PreparingRebalance\<rparr>)"

definition new_member ::
    "string \<Rightarrow> string \<Rightarrow> string \<Rightarrow> nat \<Rightarrow> nat \<Rightarrow> (string, bytes) btree \<Rightarrow> group_member" where
  "new_member member_id client_id client_host session_timeout_ms now_ms protocols =
     \<lparr>mb_member_id = member_id, mb_client_id = client_id, mb_client_host = client_host,
      mb_session_timeout_ms = session_timeout_ms, mb_last_heartbeat_ms = now_ms,
      mb_protocols = protocols, mb_assignment = []\<rparr>"

text \<open>
  The second half of a join, once the protocol is agreed. Collecting the members' metadata
  indexes their protocol maps, which panics on a missing key.
\<close>

definition admit_member ::
    "string \<Rightarrow> string \<Rightarrow> string \<Rightarrow> group_member \<Rightarrow> group_record \<Rightarrow> group_state
      \<Rightarrow> (group_error + group_response) \<times> group_state" where
  "admit_member gname selected member_id m r s =
     (let r' = joined_record selected member_id m r;
          s' = put_group gname r' s
      in if first_key (gr_members r') = None then (Inl UnknownMember, s')
         else if list_ex (\<lambda>m. \<not> bt_contains (mb_protocols m) selected) (bt_values (gr_members r'))
         then (Inl Panic, bump_revision s')
         else (Inr (Joined (gr_generation r') selected (gr_leader r') member_id
                 (map (\<lambda>m. (mb_member_id m, the (bt_get (mb_protocols m) selected)))
                    (bt_values (gr_members r')))), bump_revision s'))"

definition gc_join ::
    "string \<Rightarrow> string \<Rightarrow> string \<Rightarrow> string \<Rightarrow> string \<Rightarrow> (string, bytes) btree \<Rightarrow> nat \<Rightarrow> nat \<Rightarrow> group_state
      \<Rightarrow> (group_error + group_response) \<times> group_state" where
  "gc_join gname member_id0 client_id client_host protocol_type protocols session_timeout_ms now_ms s =
     (if gname = [] \<or> protocol_type = [] \<or> protocols = [] \<or> session_timeout_ms = 0 then (Inl Invalid, s)
      else
       (let (member_id, s1) = assign_member_id member_id0 s;
            r = (case bt_get (gs_groups s1) gname of
                   Some r \<Rightarrow> r | None \<Rightarrow> new_record member_id protocol_type protocols);
            s2 = put_group gname r s1
        in if gr_protocol_type r \<noteq> protocol_type then (Inl InconsistentProtocol, s2)
           else (case or_else_nonempty (gr_protocol_name r) (first_key protocols) of
              None \<Rightarrow> (Inl InconsistentProtocol, s2)
            | Some selected \<Rightarrow>
                if \<not> bt_contains protocols selected \<or>
                   list_ex (\<lambda>m. \<not> bt_contains (mb_protocols m) selected) (bt_values (gr_members r))
                then (Inl InconsistentProtocol, s2)
                else admit_member gname selected member_id
                       (new_member member_id client_id client_host session_timeout_ms now_ms protocols) r s2)))"

definition assigned_record :: "(string, bytes) btree \<Rightarrow> group_record \<Rightarrow> group_record" where
  "assigned_record assignments r =
     (if assignments = [] then r
      else r\<lparr>gr_members := bt_map_values (\<lambda>m. m\<lparr>mb_assignment :=
               (case bt_get assignments (mb_member_id m) of None \<Rightarrow> [] | Some a \<Rightarrow> a)\<rparr>) (gr_members r),
             gr_phase := Stable\<rparr>)"

definition gc_sync ::
    "assignment_decoder \<Rightarrow> string \<Rightarrow> int \<Rightarrow> string \<Rightarrow> (string, bytes) btree \<Rightarrow> group_state
      \<Rightarrow> (group_error + group_response) \<times> group_state" where
  "gc_sync decode gname generation member_id assignments s =
     (case validate_member s gname generation member_id of
        Inl e \<Rightarrow> (Inl e, s)
      | Inr r \<Rightarrow>
          if assignments \<noteq> [] \<and> (gr_leader r \<noteq> member_id \<or>
               list_ex (\<lambda>k. \<not> bt_contains (gr_members r) k) (bt_keys assignments)) then (Inl UnknownMember, s)
          else (case (if assignments = [] then Inr () else validate_unique_assignments decode assignments) of
             Inl e \<Rightarrow> (Inl e, s)
           | Inr _ \<Rightarrow>
               (let r' = assigned_record assignments r;
                    s' = put_group gname r' s
                in if gr_phase r' \<noteq> Stable then (Inl RebalanceInProgress, s')
                   else (case bt_get (gr_members r') member_id of
                      None \<Rightarrow> (Inl Panic, s')
                    | Some m \<Rightarrow> (Inr (Assignment (mb_assignment m)), bump_revision s')))))"

definition gc_heartbeat ::
    "string \<Rightarrow> int \<Rightarrow> string \<Rightarrow> nat \<Rightarrow> group_state \<Rightarrow> (group_error + group_response) \<times> group_state" where
  "gc_heartbeat gname generation member_id now_ms s =
     (case validate_member s gname generation member_id of
        Inl e \<Rightarrow> (Inl e, s)
      | Inr r \<Rightarrow>
          if gr_phase r \<noteq> Stable then (Inl RebalanceInProgress, s)
          else (case bt_get (gr_members r) member_id of
             None \<Rightarrow> (Inl UnknownMember, s)
           | Some m \<Rightarrow>
               (Inr EmptyResponse, bump_revision (put_group gname
                  (r\<lparr>gr_members := bt_insert member_id (m\<lparr>mb_last_heartbeat_ms := now_ms\<rparr>) (gr_members r)\<rparr>) s))))"

text \<open>What leaving and expiring do to a record whose members have changed.\<close>

definition shrunk_record :: "(string, group_member) btree \<Rightarrow> group_record \<Rightarrow> group_record" where
  "shrunk_record members r =
     r\<lparr>gr_members := members, gr_generation := saturating_add_signed 32 (gr_generation r) 1,
       gr_leader := (case first_key members of None \<Rightarrow> [] | Some k \<Rightarrow> k),
       gr_phase := (if members = [] then Empty else PreparingRebalance)\<rparr>"

definition gc_leave ::
    "string \<Rightarrow> string \<Rightarrow> group_state \<Rightarrow> (group_error + group_response) \<times> group_state" where
  "gc_leave gname member_id s =
     (case bt_get (gs_groups s) gname of
        None \<Rightarrow> (Inl UnknownGroup, s)
      | Some r \<Rightarrow>
          if \<not> bt_contains (gr_members r) member_id then (Inl UnknownMember, s)
          else (Inr EmptyResponse, bump_revision (put_group gname
                  (shrunk_record (bt_remove member_id (gr_members r)) r) s)))"

definition put_offsets ::
    "string \<Rightarrow> (string \<times> int \<times> int \<times> string) list \<Rightarrow> nat \<Rightarrow> nat option \<Rightarrow> group_state \<Rightarrow> group_state" where
  "put_offsets gname offsets now_ms expire s =
     s\<lparr>gs_offsets := fold (\<lambda>(topic, part, offset, metadata).
         bt_insert (gname, topic, part) \<lparr>of_offset = offset, of_metadata = metadata,
           of_commit_timestamp_ms = now_ms, of_expire_timestamp_ms = expire\<rparr>) offsets (gs_offsets s)\<rparr>"

definition gc_commit_offsets ::
    "string \<Rightarrow> int \<Rightarrow> string \<Rightarrow> (string \<times> int \<times> int \<times> string) list \<Rightarrow> nat option \<Rightarrow> nat \<Rightarrow> group_state
      \<Rightarrow> (group_error + group_response) \<times> group_state" where
  "gc_commit_offsets gname generation member_id offsets retention_ms now_ms s =
     (case validate_member s gname generation member_id of
        Inl e \<Rightarrow> (Inl e, s)
      | Inr _ \<Rightarrow> (Inr EmptyResponse, bump_revision (put_offsets gname offsets now_ms
                    (map_option (saturating_add 64 now_ms) retention_ms) s)))"

definition gc_commit_transactional ::
    "string \<Rightarrow> (string \<times> int \<times> int \<times> string) list \<Rightarrow> nat \<Rightarrow> group_state
      \<Rightarrow> (group_error + group_response) \<times> group_state" where
  "gc_commit_transactional gname offsets now_ms s =
     (Inr EmptyResponse, bump_revision (put_offsets gname offsets now_ms None s))"

definition session_alive :: "nat \<Rightarrow> group_member \<Rightarrow> bool" where
  "session_alive now_ms m \<longleftrightarrow> now_ms - mb_last_heartbeat_ms m \<le> mb_session_timeout_ms m"

definition expire_record :: "nat \<Rightarrow> group_record \<Rightarrow> group_record" where
  "expire_record now_ms r =
     (let members = filter (\<lambda>(_, m). session_alive now_ms m) (gr_members r)
      in if length (gr_members r) \<noteq> length members then shrunk_record members r else r)"

definition offset_kept :: "(string, group_record) btree \<Rightarrow> nat \<Rightarrow> offset_key \<times> offset_record \<Rightarrow> bool" where
  "offset_kept groups now_ms e =
     ((case bt_get groups (fst (fst e)) of None \<Rightarrow> False | Some r \<Rightarrow> gr_members r \<noteq> []) \<or>
      (case of_expire_timestamp_ms (snd e) of None \<Rightarrow> True | Some deadline \<Rightarrow> now_ms < deadline))"

definition gc_expire :: "nat \<Rightarrow> group_state \<Rightarrow> (group_error + group_response) \<times> group_state" where
  "gc_expire now_ms s =
     (let groups = bt_map_values (expire_record now_ms) (gs_groups s);
          members = sum_list (map (\<lambda>r. length (gr_members r) - length (gr_members (expire_record now_ms r)))
                      (bt_values (gs_groups s)));
          offsets = filter (offset_kept groups now_ms) (gs_offsets s);
          gone = length (gs_offsets s) - length offsets;
          s' = s\<lparr>gs_groups := groups, gs_offsets := offsets\<rparr>
      in (Inr (Expired members gone), if members > 0 \<or> gone > 0 then bump_revision s' else s'))"

definition gc_migrate :: "nat \<Rightarrow> group_state \<Rightarrow> (group_error + group_response) \<times> group_state" where
  "gc_migrate expected_epoch s =
     (if gs_coordinator_epoch s \<noteq> expected_epoch then (Inl FencedCoordinator, s)
      else (let s' = s\<lparr>gs_coordinator_epoch := saturating_add 64 (gs_coordinator_epoch s) 1\<rparr>
            in (Inr (Migrated (gs_coordinator_epoch s')), bump_revision s')))"

fun gc_apply ::
    "assignment_decoder \<Rightarrow> group_command \<Rightarrow> group_state \<Rightarrow> (group_error + group_response) \<times> group_state" where
  "gc_apply decode (Join g m c h t ps timeout now) s = gc_join g m c h t ps timeout now s"
| "gc_apply decode (Sync g n m as) s = gc_sync decode g n m as s"
| "gc_apply decode (Heartbeat g n m now) s = gc_heartbeat g n m now s"
| "gc_apply decode (Leave g m) s = gc_leave g m s"
| "gc_apply decode (CommitOffsets g n m os retention now) s = gc_commit_offsets g n m os retention now s"
| "gc_apply decode (CommitTransactionalOffsets g os now) s = gc_commit_transactional g os now s"
| "gc_apply decode (Expire now) s = gc_expire now s"
| "gc_apply decode (Migrate e) s = gc_migrate e s"

end
