(* ===== verification/Group_Safety.thy ===== *)
theory Group_Safety
  imports Group_Coordinator
begin

text \<open>
  Safety of the group machine: the invariant of its state, kept by every command that
  succeeds, and its interpretation as a state machine of the host; exclusive ownership of
  partitions in stable groups, absence of panics, and fencing of old generations.
\<close>

section \<open>Ownership of partitions\<close>

definition flatten_topics :: "(string \<times> int list) list \<Rightarrow> (string \<times> int) list" where
  "flatten_topics topics = concat (map (\<lambda>(t, ps). map (Pair t) ps) topics)"

definition owned :: "assignment_decoder \<Rightarrow> bytes \<Rightarrow> (string \<times> int) list" where
  "owned decode a =
     (case a of hi # lo # rest \<Rightarrow> (case decode (get_i16 hi lo) rest of
                                    None \<Rightarrow> [] | Some (topics, _) \<Rightarrow> flatten_topics topics)
      | _ \<Rightarrow> [])"

lemma insert_partitions_Some:
  "insert_partitions t ps ow = Some ow' \<Longrightarrow>
   set ow' = set ow \<union> Pair t ` set ps \<and> distinct ps \<and> Pair t ` set ps \<inter> set ow = {}"
proof (induction t ps ow rule: insert_partitions.induct)
  case (2 t p ps ow)
  then have new: "(t, p) \<notin> set ow" and rec: "insert_partitions t ps (insort_insert (t, p) ow) = Some ow'"
    by (auto split: if_splits)
  from "2.IH" [OF new rec] new show ?case by (auto simp: set_insort_insert)
qed simp

lemma insert_topics_Some:
  "insert_topics ts ow = Some ow' \<Longrightarrow>
   set ow' = set ow \<union> set (flatten_topics ts) \<and> distinct (flatten_topics ts) \<and> set (flatten_topics ts) \<inter> set ow = {}"
proof (induction ts ow rule: insert_topics.induct)
  case (2 t ps ts ow)
  then obtain ow1 where ow1: "insert_partitions t ps ow = Some ow1" "insert_topics ts ow1 = Some ow'"
    by (auto split: option.splits)
  note A = insert_partitions_Some [OF ow1(1)] and B = "2.IH" [OF ow1(1,2)]
  have "flatten_topics ((t, ps) # ts) = map (Pair t) ps @ flatten_topics ts" by (simp add: flatten_topics_def)
  with A B show ?case by (auto simp: distinct_map inj_on_def)
qed (simp add: flatten_topics_def)

lemma validate_assignments_disjoint:
  "validate_assignments decode as ow = Inr () \<Longrightarrow>
   distinct (concat (map (owned decode) as)) \<and> set (concat (map (owned decode) as)) \<inter> set ow = {}"
proof (induction as arbitrary: ow)
  case (Cons a as)
  show ?case
  proof (cases a)
    case Nil
    then show ?thesis using Cons by (simp add: owned_def)
  next
    case (Cons hi a')
    then obtain lo rest where a: "a = hi # lo # rest" using Cons.prems by (cases a') auto
    then obtain topics ow1 where d: "decode (get_i16 hi lo) rest = Some (topics, [])"
      and ow1: "insert_topics topics ow = Some ow1" and rec: "validate_assignments decode as ow1 = Inr ()"
      using Cons.prems by (auto split: option.splits if_splits)
    have "owned decode a = flatten_topics topics" using a d by (simp add: owned_def)
    then show ?thesis using insert_topics_Some [OF ow1] Cons.IH [OF rec] by auto
  qed
qed simp

definition exclusive :: "assignment_decoder \<Rightarrow> (string, group_member) btree \<Rightarrow> bool" where
  "exclusive decode ms \<longleftrightarrow> (\<forall>k1 k2 m1 m2. k1 \<noteq> k2 \<longrightarrow> bt_get ms k1 = Some m1 \<longrightarrow> bt_get ms k2 = Some m2 \<longrightarrow>
     set (owned decode (mb_assignment m1)) \<inter> set (owned decode (mb_assignment m2)) = {})"

lemma exclusiveD:
  "exclusive decode ms \<Longrightarrow> k1 \<noteq> k2 \<Longrightarrow> bt_get ms k1 = Some m1 \<Longrightarrow> bt_get ms k2 = Some m2 \<Longrightarrow>
   set (owned decode (mb_assignment m1)) \<inter> set (owned decode (mb_assignment m2)) = {}"
  unfolding exclusive_def by blast

lemma distinct_concat_values:
  assumes "distinct (concat (map f (bt_values m)))" and "k1 \<noteq> k2"
    and "bt_get m k1 = Some v1" "bt_get m k2 = Some v2"
  shows "set (f v1) \<inter> set (f v2) = {}"
  using assms
proof (induction m)
  case (Cons e m)
  obtain k v where e: "e = (k, v)" by fastforce
  have dis: "set (f v) \<inter> (\<Union>w \<in> set (bt_values m). set (f w)) = {}"
    and tl: "distinct (concat (map f (bt_values m)))"
    using Cons.prems(1) e by (auto simp: bt_values_def)
  have mem: "w \<in> set (bt_values m)" if "bt_get m j = Some w" for j w
    using bt_get_Some_mem [OF that] by (force simp: bt_values_def)
  consider "k = k1" "k \<noteq> k2" | "k \<noteq> k1" "k = k2" | "k \<noteq> k1" "k \<noteq> k2" using Cons.prems(2) by blast
  then show ?case
  proof cases
    case 1
    then show ?thesis using Cons.prems(3,4) e dis mem [of k2 v2] by auto
  next
    case 2
    then show ?thesis using Cons.prems(3,4) e dis mem [of k1 v1] by auto
  next
    case 3
    then show ?thesis using Cons.IH [OF tl Cons.prems(2)] Cons.prems(3,4) e by simp
  qed
qed simp

section \<open>Invariant\<close>

definition record_ok :: "assignment_decoder \<Rightarrow> group_record \<Rightarrow> bool" where
  "record_ok decode r \<longleftrightarrow> bt_wf (gr_members r) \<and>
     (\<forall>k m. bt_get (gr_members r) k = Some m \<longrightarrow>
        mb_member_id m = k \<and> bt_contains (mb_protocols m) (gr_protocol_name r)) \<and>
     (gr_phase r = Empty \<longleftrightarrow> gr_members r = []) \<and>
     (gr_members r \<noteq> [] \<longrightarrow> first_key (gr_members r) = Some (gr_leader r)) \<and>
     (gr_phase r = Stable \<longrightarrow> exclusive decode (gr_members r)) \<and>
     0 \<le> gr_generation r \<and> gr_generation r \<le> 2 ^ 31 - 1"

lemma next_generation:
  assumes "0 \<le> g" and "g \<le> 2 ^ 31 - 1"
  shows "saturating_add_signed 32 g 1 = (if g < 2 ^ 31 - 1 then g + 1 else g)"
  using assms by (auto simp: saturating_add_signed_def)

definition gs_inv :: "assignment_decoder \<Rightarrow> group_state \<Rightarrow> bool" where
  "gs_inv decode s \<longleftrightarrow> bt_wf (gs_groups s) \<and> bt_wf (gs_offsets s) \<and>
     (\<forall>g r. bt_get (gs_groups s) g = Some r \<longrightarrow> record_ok decode r)"

lemma gs_invD:
  assumes "gs_inv decode s"
  shows "bt_wf (gs_groups s)" and "bt_wf (gs_offsets s)"
    and "bt_get (gs_groups s) g = Some r \<Longrightarrow> record_ok decode r"
  using assms by (simp_all add: gs_inv_def)

lemma record_okD:
  assumes "record_ok decode r"
  shows "bt_wf (gr_members r)"
    and "bt_get (gr_members r) k = Some m \<Longrightarrow> mb_member_id m = k"
    and "bt_get (gr_members r) k = Some m \<Longrightarrow> bt_contains (mb_protocols m) (gr_protocol_name r)"
    and "gr_phase r = Stable \<Longrightarrow> exclusive decode (gr_members r)"
    and "0 \<le> gr_generation r" and "gr_generation r \<le> 2 ^ 31 - 1"
  using assms by (simp_all add: record_ok_def)

lemma gs_inv_bump [simp]: "gs_inv decode (bump_revision s) = gs_inv decode s"
  by (simp add: bump_revision_def gs_inv_def)

lemma gs_inv_put_group: "gs_inv decode s \<Longrightarrow> record_ok decode r \<Longrightarrow> gs_inv decode (put_group g r s)"
  by (simp add: gs_inv_def put_group_def)

lemma first_key_None [simp]: "first_key m = None \<longleftrightarrow> m = []"
  by (cases m) (auto simp: first_key_def)

lemma list_ex_values: "bt_wf m \<Longrightarrow> list_ex P (bt_values m) \<longleftrightarrow> (\<exists>k v. bt_get m k = Some v \<and> P v)"
  by (force simp: list_ex_iff bt_values_def bt_get_iff_mem)

lemma record_ok_joined:
  assumes ok: "record_ok decode r" and sel: "bt_contains (mb_protocols m) selected" "mb_member_id m = i"
    and all: "\<not> list_ex (\<lambda>m. \<not> bt_contains (mb_protocols m) selected) (bt_values (gr_members r))"
  shows "record_ok decode (joined_record selected i m r)"
proof -
  note wf = record_okD(1) [OF ok]
  have "mb_member_id q = k \<and> bt_contains (mb_protocols q) selected"
    if q: "bt_get (bt_insert i m (gr_members r)) k = Some q" for k q
  proof (cases "k = i")
    case False
    then have get: "bt_get (gr_members r) k = Some q" using q by simp
    then show ?thesis using record_okD(2) [OF ok get] all by (auto simp: list_ex_values [OF wf])
  qed (use q sel in simp)
  then show ?thesis
    using wf next_generation [OF record_okD(5,6) [OF ok]] record_okD(5,6) [OF ok]
    by (simp add: joined_record_def record_ok_def Let_def split: option.split)
qed

lemma record_ok_new: "record_ok decode (new_record i t ps)"
  by (simp add: new_record_def record_ok_def)

lemma record_ok_shrunk:
  assumes ok: "record_ok decode r" and "bt_wf ms"
    and sub: "\<And>k m. bt_get ms k = Some m \<Longrightarrow> bt_get (gr_members r) k = Some m"
  shows "record_ok decode (shrunk_record ms r)"
proof -
  have "mb_member_id m = k \<and> bt_contains (mb_protocols m) (gr_protocol_name r)" if "bt_get ms k = Some m" for k m
    using record_okD(2,3) [OF ok sub [OF that]] by simp
  then show ?thesis
    using assms(2) next_generation [OF record_okD(5,6) [OF ok]] record_okD(5,6) [OF ok]
    by (simp add: shrunk_record_def record_ok_def split: option.split)
qed

lemma filter_members:
  assumes "bt_wf m"
  shows "bt_wf (filter P m)" and "bt_get (filter P m) k = Some v \<longleftrightarrow> bt_get m k = Some v \<and> P (k, v)"
proof -
  show wf: "bt_wf (filter P m)" using assms by (induction m) (auto simp: bt_wf_def)
  show "bt_get (filter P m) k = Some v \<longleftrightarrow> bt_get m k = Some v \<and> P (k, v)"
    by (simp add: bt_get_iff_mem [OF wf] bt_get_iff_mem [OF assms])
qed

lemma record_ok_expire:
  assumes ok: "record_ok decode r"
  shows "record_ok decode (expire_record now r)"
proof -
  note F = filter_members [OF record_okD(1) [OF ok], of "\<lambda>(_, m). session_alive now m"]
  have "record_ok decode (shrunk_record (filter (\<lambda>(_, m). session_alive now m) (gr_members r)) r)"
    by (rule record_ok_shrunk [OF ok F(1)]) (simp add: F(2))
  then show ?thesis using ok by (simp add: expire_record_def Let_def)
qed

lemma validate_member_Inr:
  "validate_member s g n m = Inr r \<Longrightarrow>
     bt_get (gs_groups s) g = Some r \<and> gr_generation r = n \<and> bt_contains (gr_members r) m"
  by (auto simp: validate_member_def split: option.splits if_splits)

lemma put_offsets_inv: "gs_inv decode s \<Longrightarrow> gs_inv decode (put_offsets g os now ex s)"
proof -
  assume inv: "gs_inv decode s"
  have "bt_wf (gs_offsets (put_offsets g os now ex s))"
    using gs_invD(2) [OF inv] by (auto simp: put_offsets_def intro!: bt_wf_fold)
  then show ?thesis using inv by (simp add: gs_inv_def) (simp add: put_offsets_def)
qed

lemma put_group_twice [simp]: "put_group g r (put_group g q s) = put_group g r s"
  by (simp add: put_group_def)

subsection \<open>Joining\<close>

lemma gc_join_admits:
  assumes "gc_join g i0 c h t ps timeout now s = (res, s')"
    and "res \<noteq> Inl Invalid" "res \<noteq> Inl InconsistentProtocol"
  obtains i s1 r selected where "assign_member_id i0 s = (i, s1)"
    "r = (case bt_get (gs_groups s1) g of Some r \<Rightarrow> r | None \<Rightarrow> new_record i t ps)"
    "bt_contains ps selected"
    "\<not> list_ex (\<lambda>m. \<not> bt_contains (mb_protocols m) selected) (bt_values (gr_members r))"
    "(res, s') = admit_member g selected i (new_member i c h timeout now ps) r (put_group g r s1)"
proof -
  obtain i s1 where a: "assign_member_id i0 s = (i, s1)" by fastforce
  define r where "r = (case bt_get (gs_groups s1) g of Some r \<Rightarrow> r | None \<Rightarrow> new_record i t ps)"
  obtain selected where "bt_contains ps selected"
    "\<not> list_ex (\<lambda>m. \<not> bt_contains (mb_protocols m) selected) (bt_values (gr_members r))"
    "(res, s') = admit_member g selected i (new_member i c h timeout now ps) r (put_group g r s1)"
    using assms by (auto simp: gc_join_def a Let_def r_def [symmetric] split: if_splits option.splits)
  then show thesis by (rule that [OF a r_def])
qed

lemma assign_member_id_inv: "gs_inv decode s \<Longrightarrow> assign_member_id i0 s = (i, s1) \<Longrightarrow> gs_inv decode s1"
  by (auto simp: assign_member_id_def Let_def gs_inv_def split: if_splits)

lemma gs_groups_assign: "assign_member_id i0 s = (i, s1) \<Longrightarrow> gs_groups s1 = gs_groups s"
  by (auto simp: assign_member_id_def Let_def split: if_splits)

lemma joined_members: "gr_members (joined_record selected i m r) = bt_insert i m (gr_members r)"
  by (simp add: joined_record_def Let_def)

lemma admit_member_ok:
  assumes ok: "record_ok decode r" and sel: "bt_contains (mb_protocols m) selected" "mb_member_id m = i"
    and all: "\<not> list_ex (\<lambda>m. \<not> bt_contains (mb_protocols m) selected) (bt_values (gr_members r))"
  shows "\<exists>resp. admit_member g selected i m r s = (Inr resp, bump_revision (put_group g (joined_record selected i m r) s))"
proof -
  note wf = record_okD(1) [OF ok]
  have "\<not> list_ex (\<lambda>m. \<not> bt_contains (mb_protocols m) selected) (bt_values (bt_insert i m (gr_members r)))"
    using all sel(1) by (auto simp: list_ex_values [OF wf] list_ex_values [OF bt_wf_insert [OF wf]] split: if_splits)
  then show ?thesis by (simp add: admit_member_def Let_def joined_members)
qed

lemma gc_join_ok:
  assumes inv: "gs_inv decode s" and run: "gc_join g i0 c h t ps timeout now s = (res, s')"
    and "res \<noteq> Inl Invalid" "res \<noteq> Inl InconsistentProtocol"
  shows "(\<exists>resp. res = Inr resp) \<and> gs_inv decode s' \<and>
    (\<exists>i m selected r. s' = bump_revision (put_group g (joined_record selected i m r) (snd (assign_member_id i0 s))) \<and>
       r = (case bt_get (gs_groups s) g of Some r \<Rightarrow> r | None \<Rightarrow> new_record i t ps))"
  using run assms(3,4)
proof (rule gc_join_admits)
  fix i s1 r selected
  assume a: "assign_member_id i0 s = (i, s1)"
    and r: "r = (case bt_get (gs_groups s1) g of Some r \<Rightarrow> r | None \<Rightarrow> new_record i t ps)"
    and sel: "bt_contains ps selected"
      "\<not> list_ex (\<lambda>m. \<not> bt_contains (mb_protocols m) selected) (bt_values (gr_members r))"
    and adm: "(res, s') = admit_member g selected i (new_member i c h timeout now ps) r (put_group g r s1)"
  let ?m = "new_member i c h timeout now ps"
  have m: "mb_protocols ?m = ps" "mb_member_id ?m = i" by (simp_all add: new_member_def)
  note inv1 = assign_member_id_inv [OF inv a]
  have ok: "record_ok decode r"
    unfolding r using gs_invD(3) [OF inv1] record_ok_new by (simp split: option.split)
  obtain resp where res: "res = Inr resp"
    and s': "s' = bump_revision (put_group g (joined_record selected i ?m r) s1)"
    using admit_member_ok [OF ok, of ?m selected i g "put_group g r s1"] adm sel m by auto
  have "record_ok decode (joined_record selected i ?m r)"
    using record_ok_joined [OF ok] sel m by simp
  then have "gs_inv decode s'" unfolding s' using inv1 by (simp add: gs_inv_put_group)
  moreover have "s1 = snd (assign_member_id i0 s)" using a by simp
  ultimately show ?thesis using res s' r gs_groups_assign [OF a] by auto
qed

subsection \<open>The other commands\<close>

lemma exclusive_assigned:
  assumes "validate_unique_assignments decode as = Inr ()"
    and ids: "\<And>k m. bt_get ms k = Some m \<Longrightarrow> mb_member_id m = k"
  shows "exclusive decode (bt_map_values (\<lambda>m. m\<lparr>mb_assignment :=
    (case bt_get as (mb_member_id m) of None \<Rightarrow> [] | Some a \<Rightarrow> a)\<rparr>) ms)" (is "exclusive decode ?ms")
proof -
  have dis: "distinct (concat (map (owned decode) (bt_values as)))"
    using validate_assignments_disjoint assms(1) by (auto simp: validate_unique_assignments_def)
  have asg: "mb_assignment m = (case bt_get as k of None \<Rightarrow> [] | Some a \<Rightarrow> a)" if "bt_get ?ms k = Some m" for k m
    using that ids by (auto simp: bt_get_map_values)
  have nil: "owned decode [] = []" by (simp add: owned_def)
  show ?thesis
    unfolding exclusive_def
  proof (intro allI impI)
    fix k1 k2 m1 m2
    assume ne: "k1 \<noteq> k2" and "bt_get ?ms k1 = Some m1" "bt_get ?ms k2 = Some m2"
    then have a: "mb_assignment m1 = (case bt_get as k1 of None \<Rightarrow> [] | Some a \<Rightarrow> a)"
        "mb_assignment m2 = (case bt_get as k2 of None \<Rightarrow> [] | Some a \<Rightarrow> a)"
      using asg by blast+
    show "set (owned decode (mb_assignment m1)) \<inter> set (owned decode (mb_assignment m2)) = {}"
      using distinct_concat_values [OF dis ne] unfolding a by (simp add: nil split: option.split)
  qed
qed

lemma first_key_map_values [simp]: "first_key (bt_map_values f m) = first_key m"
  by (cases m) (auto simp: first_key_def bt_map_values_def)

lemma bt_map_values_Nil [simp]: "bt_map_values f m = [] \<longleftrightarrow> m = []"
  by (simp add: bt_map_values_def)

lemma record_ok_assigned:
  assumes ok: "record_ok decode r" and ne: "gr_members r \<noteq> []"
    and valid: "as \<noteq> [] \<Longrightarrow> validate_unique_assignments decode as = Inr ()"
  shows "record_ok decode (assigned_record as r)"
proof (cases "as = []")
  case False
  have "exclusive decode (gr_members (assigned_record as r))"
    using exclusive_assigned [OF valid [OF False] record_okD(2) [OF ok]] False by (simp add: assigned_record_def)
  then show ?thesis using False ok ne by (auto simp: record_ok_def assigned_record_def)
qed (use ok in \<open>simp add: assigned_record_def\<close>)

lemma validate_member_no_panic: "validate_member s g n i \<noteq> Inl Panic"
  by (simp add: validate_member_def split: option.split)

lemma validate_assignments_no_panic: "validate_assignments decode as ow \<noteq> Inl Panic"
  by (induction decode as ow rule: validate_assignments.induct) (auto split: list.split option.split)

lemma gc_sync_ok:
  assumes inv: "gs_inv decode s" and run: "gc_sync decode g n i as s = (res, s')"
  shows "res \<noteq> Inl Panic \<and> (\<forall>resp. res = Inr resp \<longrightarrow> gs_inv decode s')"
proof (cases "validate_member s g n i")
  case (Inl e)
  then show ?thesis using run validate_member_no_panic [of s g n i] by (auto simp: gc_sync_def)
next
  case (Inr r)
  note V = validate_member_Inr [OF Inr]
  have ok: "record_ok decode r" using V gs_invD(3) [OF inv] by blast
  let ?valid = "if as = [] then Inr () else validate_unique_assignments decode as"
  show ?thesis
  proof (cases "as \<noteq> [] \<and> (gr_leader r \<noteq> i \<or> list_ex (\<lambda>k. \<not> bt_contains (gr_members r) k) (bt_keys as)) \<or> (\<exists>e. ?valid = Inl e)")
    case True
    then show ?thesis
      using run Inr validate_assignments_no_panic [of decode "bt_values as" "[]"]
      by (auto simp: gc_sync_def validate_unique_assignments_def split: if_splits sum.splits)
  next
    case False
    let ?s = "put_group g (assigned_record as r) s"
    have valid: "?valid = Inr ()" using False by (cases ?valid) auto
    have go: "(res, s') = (if gr_phase (assigned_record as r) \<noteq> Stable then (Inl RebalanceInProgress, ?s)
        else case bt_get (gr_members (assigned_record as r)) i of None \<Rightarrow> (Inl Panic, ?s)
          | Some m \<Rightarrow> (Inr (Assignment (mb_assignment m)), bump_revision ?s))"
      using run False valid unfolding gc_sync_def Inr by (auto simp: Let_def split del: if_split)
    have "record_ok decode (assigned_record as r)"
      by (rule record_ok_assigned [OF ok]) (use V valid in \<open>auto simp: bt_contains_def split: if_splits\<close>)
    then have "gs_inv decode ?s" using inv by (simp add: gs_inv_put_group)
    moreover have "bt_get (gr_members (assigned_record as r)) i \<noteq> None"
      using V by (simp add: assigned_record_def bt_contains_def)
    ultimately show ?thesis using go by (auto split: if_splits)
  qed
qed

lemma first_key_insert_present:
  assumes "bt_wf m" and "bt_get m k = Some v"
  shows "first_key (bt_insert k w m) = first_key m"
proof (cases m)
  case (Cons e m')
  then show ?thesis
    using assms bt_get_Some_mem [OF assms(2)] by (cases e) (auto simp: first_key_def bt_wf_def)
qed (use assms in simp)

lemma exclusive_touch:
  assumes "exclusive decode ms" and "bt_get ms i = Some m" and "mb_assignment m' = mb_assignment m"
  shows "exclusive decode (bt_insert i m' ms)"
proof -
  have old: "\<exists>q. bt_get ms k = Some q \<and> mb_assignment p = mb_assignment q" if "bt_get (bt_insert i m' ms) k = Some p" for k p
    using that assms(2,3) by (auto split: if_splits)
  show ?thesis
    unfolding exclusive_def
  proof (intro allI impI)
    fix k1 k2 m1 m2
    assume ne: "k1 \<noteq> k2" and k: "bt_get (bt_insert i m' ms) k1 = Some m1" "bt_get (bt_insert i m' ms) k2 = Some m2"
    obtain q1 where q1: "bt_get ms k1 = Some q1" "mb_assignment m1 = mb_assignment q1" using old [OF k(1)] by blast
    obtain q2 where q2: "bt_get ms k2 = Some q2" "mb_assignment m2 = mb_assignment q2" using old [OF k(2)] by blast
    show "set (owned decode (mb_assignment m1)) \<inter> set (owned decode (mb_assignment m2)) = {}"
      unfolding q1(2) q2(2) by (rule exclusiveD [OF assms(1) ne q1(1) q2(1)])
  qed
qed

lemma gc_heartbeat_ok:
  assumes inv: "gs_inv decode s" and run: "gc_heartbeat g n i now s = (res, s')"
  shows "res \<noteq> Inl Panic \<and> (\<forall>resp. res = Inr resp \<longrightarrow> gs_inv decode s')"
proof (cases "\<exists>resp. res = Inr resp")
  case True
  then obtain r m where r: "validate_member s g n i = Inr r" and m: "bt_get (gr_members r) i = Some m"
    and stable: "gr_phase r = Stable"
    and s': "s' = bump_revision (put_group g
      (r\<lparr>gr_members := bt_insert i (m\<lparr>mb_last_heartbeat_ms := now\<rparr>) (gr_members r)\<rparr>) s)"
    using run by (auto simp: gc_heartbeat_def split: sum.splits if_splits option.splits)
  have ok: "record_ok decode r" using gs_invD(3) [OF inv] validate_member_Inr [OF r] by blast
  have "exclusive decode (bt_insert i (m\<lparr>mb_last_heartbeat_ms := now\<rparr>) (gr_members r))"
    by (rule exclusive_touch [OF record_okD(4) [OF ok stable] m]) simp
  then have "record_ok decode (r\<lparr>gr_members := bt_insert i (m\<lparr>mb_last_heartbeat_ms := now\<rparr>) (gr_members r)\<rparr>)"
    using ok stable m first_key_insert_present [OF record_okD(1) [OF ok] m] by (auto simp: record_ok_def)
  then show ?thesis unfolding s' using inv True by (auto simp: gs_inv_put_group)
next
  case False
  then show ?thesis
    using run validate_member_no_panic [of s g n i]
    by (auto simp: gc_heartbeat_def split: sum.splits if_splits option.splits)
qed

lemma gc_leave_ok:
  assumes inv: "gs_inv decode s" and run: "gc_leave g i s = (res, s')"
  shows "res \<noteq> Inl Panic \<and> (\<forall>resp. res = Inr resp \<longrightarrow> gs_inv decode s')"
proof (cases "\<exists>resp. res = Inr resp")
  case True
  then obtain r where r: "bt_get (gs_groups s) g = Some r"
    and s': "s' = bump_revision (put_group g (shrunk_record (bt_remove i (gr_members r)) r) s)"
    using run by (auto simp: gc_leave_def split: option.splits if_splits)
  have ok: "record_ok decode r" by (rule gs_invD(3) [OF inv r])
  have "record_ok decode (shrunk_record (bt_remove i (gr_members r)) r)"
    by (rule record_ok_shrunk [OF ok]) (use record_okD(1) [OF ok] in \<open>auto split: if_splits\<close>)
  then show ?thesis unfolding s' using inv True by (auto simp: gs_inv_put_group)
qed (use run in \<open>auto simp: gc_leave_def split: option.splits if_splits\<close>)

lemma gc_expire_inv:
  assumes inv: "gs_inv decode s"
  shows "gs_inv decode (snd (gc_expire now s))"
proof -
  let ?s = "s\<lparr>gs_groups := bt_map_values (expire_record now) (gs_groups s),
    gs_offsets := filter (offset_kept (bt_map_values (expire_record now) (gs_groups s)) now) (gs_offsets s)\<rparr>"
  have "gs_inv decode ?s"
    using inv filter_members(1) record_ok_expire by (auto simp: gs_inv_def)
  then show ?thesis by (simp add: gc_expire_def Let_def)
qed

lemma gc_apply_ok:
  assumes inv: "gs_inv decode s" and run: "gc_apply decode c s = (res, s')"
  shows "res \<noteq> Inl Panic \<and> (\<forall>resp. res = Inr resp \<longrightarrow> gs_inv decode s')"
proof (cases c)
  case (Join g i ci h t ps timeout now)
  then show ?thesis
    using run gc_join_ok [OF inv, of g i ci h t ps timeout now res s']
    by (cases "res = Inl Invalid \<or> res = Inl InconsistentProtocol") auto
next
  case (Sync g n m as)
  then show ?thesis using run gc_sync_ok [OF inv] by simp
next
  case (Heartbeat g n m now)
  then show ?thesis using run gc_heartbeat_ok [OF inv] by simp
next
  case (Leave g m)
  then show ?thesis using run gc_leave_ok [OF inv] by simp
next
  case (CommitOffsets g n m os retention now)
  then show ?thesis
    using run inv validate_member_no_panic [of s g n m]
    by (auto simp: gc_commit_offsets_def put_offsets_inv split: sum.splits)
next
  case (CommitTransactionalOffsets g os now)
  then show ?thesis using run inv by (auto simp: gc_commit_transactional_def put_offsets_inv)
next
  case (Expire now)
  then show ?thesis using run gc_expire_inv [OF inv, of now] by (auto simp: gc_expire_def Let_def)
next
  case (Migrate e)
  then show ?thesis
    using run inv by (auto simp: gc_migrate_def Let_def gs_inv_def bump_revision_def split: if_splits)
qed

interpretation group_sm: state_machine "gc_apply decode" "gs_inv decode" for decode
  by unfold_locales (use gc_apply_ok in blast)

section \<open>Reachable states\<close>

inductive gstep :: "assignment_decoder \<Rightarrow> group_state \<Rightarrow> group_state \<Rightarrow> bool" for decode where
  apply_command: "gc_apply decode c s = (Inr r, s') \<Longrightarrow> gstep decode s s'"

interpretation groups: invariant_system "\<lambda>s. s = group_state_default" "gstep decode" "gs_inv decode" for decode
proof unfold_locales
  show "s = group_state_default \<Longrightarrow> gs_inv decode s" for s
    by (simp add: group_state_default_def gs_inv_def)
  show "gs_inv decode s \<Longrightarrow> gstep decode s t \<Longrightarrow> gs_inv decode t" for s t
    using gc_apply_ok by (auto elim!: gstep.cases)
qed

text \<open>
  C5. In every reachable group that is stable, no partition is assigned to two different
  members, whatever bytes the leader sent as assignments.
\<close>

theorem stable_assignments_exclusive:
  assumes "(gstep decode)\<^sup>*\<^sup>* group_state_default s" and "bt_get (gs_groups s) g = Some r"
    and "gr_phase r = Stable" and "i \<noteq> j"
    and "bt_get (gr_members r) i = Some m" and "bt_get (gr_members r) j = Some n"
  shows "set (owned decode (mb_assignment m)) \<inter> set (owned decode (mb_assignment n)) = {}"
proof -
  have "gs_inv decode s" by (rule groups.reachable_inv [OF refl assms(1)])
  then have "exclusive decode (gr_members r)" using gs_invD(3) assms(2,3) record_okD(4) by blast
  then show ?thesis using assms(4-6) by (rule exclusiveD)
qed

text \<open>
  C32. No command panics in a reachable state: the indexing of protocol maps and members
  always finds its key.
\<close>

theorem group_commands_never_panic:
  assumes "(gstep decode)\<^sup>*\<^sup>* group_state_default s"
  shows "fst (gc_apply decode c s) \<noteq> Inl Panic"
  using gc_apply_ok [OF groups.reachable_inv [OF refl assms]] by (metis prod.collapse)

subsection \<open>Fencing\<close>

definition members_of :: "group_record \<Rightarrow> string set" where
  "members_of r = {i. bt_contains (gr_members r) i}"

definition advances :: "group_record \<Rightarrow> group_record \<Rightarrow> bool" where
  "advances r r' \<longleftrightarrow> gr_generation r \<le> gr_generation r' \<and>
     (members_of r \<noteq> members_of r' \<longrightarrow> gr_generation r < gr_generation r' \<or> gr_generation r = 2 ^ 31 - 1)"

lemma advances_refl [simp]: "advances r r"
  by (simp add: advances_def)

lemma advances_joined:
  assumes "record_ok decode r"
  shows "advances r (joined_record selected i m r)"
proof -
  note gen = next_generation [OF record_okD(5,6) [OF assms]]
  have "members_of (joined_record selected i m r) = insert i (members_of r)"
    by (auto simp: members_of_def joined_members)
  then show ?thesis
    using record_okD(5,6) [OF assms] gen
    by (cases "bt_contains (gr_members r) i")
      (auto simp: advances_def joined_record_def Let_def members_of_def)
qed

lemma advances_shrunk:
  assumes "record_ok decode r"
  shows "advances r (shrunk_record ms r)"
  using next_generation [OF record_okD(5,6) [OF assms]] record_okD(5,6) [OF assms]
  by (auto simp: advances_def shrunk_record_def)

lemma advances_assigned: "advances r (assigned_record as r)"
  by (simp add: advances_def assigned_record_def members_of_def bt_contains_def)

lemma get_put_group [simp]: "bt_get (gs_groups (put_group g r s)) k = (if k = g then Some r else bt_get (gs_groups s) k)"
  by (simp add: put_group_def)

lemma groups_bump [simp]: "gs_groups (bump_revision s) = gs_groups s" "gs_offsets (bump_revision s) = gs_offsets s"
  by (simp_all add: bump_revision_def)

lemma groups_put_offsets [simp]: "gs_groups (put_offsets g os now ex s) = gs_groups s"
  by (simp add: put_offsets_def)

lemma step_advances:
  assumes inv: "gs_inv decode s" and r: "bt_get (gs_groups s) g = Some r"
    and run: "gc_apply decode c s = (Inr resp, s')"
  shows "\<exists>r'. bt_get (gs_groups s') g = Some r' \<and> advances r r'"
proof -
  note ok = gs_invD(3) [OF inv r]
  show ?thesis
  proof (cases c)
    case (Join k i ci h t ps timeout now)
    then obtain i' m selected q where s': "s' = bump_revision (put_group k (joined_record selected i' m q) (snd (assign_member_id i s)))"
      and q: "q = (case bt_get (gs_groups s) k of Some r \<Rightarrow> r | None \<Rightarrow> new_record i' t ps)"
      using gc_join_ok [OF inv, of k i ci h t ps timeout now "Inr resp" s'] run by auto
    have "gs_groups (snd (assign_member_id i s)) = gs_groups s" using gs_groups_assign by (metis prod.collapse)
    then show ?thesis using s' q r ok by (auto simp: advances_joined)
  next
    case (Sync k n i as)
    then show ?thesis
      using run r validate_member_Inr [of s k n i]
      by (auto simp: gc_sync_def Let_def advances_assigned split: sum.splits if_splits option.splits)
  next
    case (Heartbeat k n i now)
    then show ?thesis
      using run r validate_member_Inr [of s k n i]
      by (auto simp: gc_heartbeat_def advances_def members_of_def bt_contains_def split: sum.splits if_splits option.splits)
  next
    case (Leave k i)
    then show ?thesis
      using run r ok by (auto simp: gc_leave_def advances_shrunk split: option.splits if_splits)
  next
    case (Expire now)
    have "advances r (expire_record now r)" using ok by (simp add: expire_record_def Let_def advances_shrunk)
    then show ?thesis using Expire run r by (auto simp: gc_expire_def Let_def)
  qed (use run r in \<open>auto simp: gc_commit_offsets_def gc_commit_transactional_def gc_migrate_def Let_def split: sum.splits if_splits\<close>)
qed

text \<open>
  C31. Fencing: when a command changes the members of a group whose generation counter is not
  exhausted, heartbeats, synchronizations and offset commits that carry the old generation are
  refused in the new state.
\<close>

theorem membership_change_fences_generation:
  assumes "(gstep decode)\<^sup>*\<^sup>* group_state_default s" and "bt_get (gs_groups s) g = Some r"
    and "gr_generation r < 2 ^ 31 - 1"
    and "gc_apply decode c s = (Inr resp, s')"
    and "bt_get (gs_groups s') g = Some r'" and "members_of r \<noteq> members_of r'"
  shows "gc_heartbeat g (gr_generation r) i now s' = (Inl IllegalGeneration, s') \<and>
    gc_sync decode g (gr_generation r) i as s' = (Inl IllegalGeneration, s') \<and>
    gc_commit_offsets g (gr_generation r) i os retention now s' = (Inl IllegalGeneration, s')"
proof -
  have "gs_inv decode s" by (rule groups.reachable_inv [OF refl assms(1)])
  then have "gr_generation r < gr_generation r'"
    using step_advances [OF _ assms(2,4)] assms(3,5,6) by (auto simp: advances_def)
  then have "validate_member s' g (gr_generation r) i = Inl IllegalGeneration"
    using assms(5) by (simp add: validate_member_def)
  then show ?thesis by (simp add: gc_heartbeat_def gc_sync_def gc_commit_offsets_def)
qed

end
