(* ===== verification/Group_Shards.thy ===== *)
theory Group_Shards
  imports Group_Safety
begin

text \<open>
  What the coordinator stores: committed offsets are read back, expiry keeps what is alive,
  and the sharded \<open>GroupCoordinator\<close> recovers the same group states from its files after a
  restart. The last section runs a concrete group.
\<close>

section \<open>Committed offsets\<close>

lemma put_offsets_get:
  assumes "distinct (map (\<lambda>(t, p, _). (t, p)) os)"
  shows "bt_get (gs_offsets (put_offsets g os now ex s)) (k, t, p) =
    (case map_of (map (\<lambda>(t, p, off, md). ((t, p), (off, md))) os) (t, p) of
       Some (off, md) \<Rightarrow>
         if k = g then Some \<lparr>of_offset = off, of_metadata = md, of_commit_timestamp_ms = now,
                             of_expire_timestamp_ms = ex\<rparr>
         else bt_get (gs_offsets s) (k, t, p)
     | None \<Rightarrow> bt_get (gs_offsets s) (k, t, p))"
proof -
  let ?f = "\<lambda>(t, p, off, md). bt_insert (g, t, p) \<lparr>of_offset = off, of_metadata = md,
      of_commit_timestamp_ms = now, of_expire_timestamp_ms = ex\<rparr>"
  have "bt_get (fold ?f os m) (k, t, p) =
    (case map_of (map (\<lambda>(t, p, off, md). ((t, p), (off, md))) os) (t, p) of
       Some (off, md) \<Rightarrow>
         if k = g then Some \<lparr>of_offset = off, of_metadata = md, of_commit_timestamp_ms = now,
                             of_expire_timestamp_ms = ex\<rparr>
         else bt_get m (k, t, p)
     | None \<Rightarrow> bt_get m (k, t, p))" for m
    using assms
  proof (induction os arbitrary: m)
    case (Cons o1 os)
    obtain t1 p1 off1 md1 where o1: "o1 = (t1, p1, off1, md1)" by (cases o1)
    have new: "(t1, p1) \<notin> set (map (\<lambda>(t, p, _). (t, p)) os)" and dis: "distinct (map (\<lambda>(t, p, _). (t, p)) os)"
      using Cons.prems o1 by simp_all
    have keys: "fst ` set (map (\<lambda>(t, p, off, md). ((t, p), (off, md))) os) = set (map (\<lambda>(t, p, _). (t, p)) os)"
      by force
    have none: "map_of (map (\<lambda>(t, p, off, md). ((t, p), (off, md))) os) (t1, p1) = None"
      using new keys by (simp add: map_of_eq_None_iff image_image case_prod_beta)
    show ?case
      unfolding o1 using Cons.IH [OF dis] none by (auto split: option.split)
  qed simp
  from this [of "gs_offsets s"] show ?thesis by (simp add: put_offsets_def)
qed

text \<open>
  A successful offset commit of distinct partitions is read back exactly: each committed
  partition of the group has the new offset, metadata and expiry, every other one is unchanged.
\<close>

theorem commit_offsets_readback:
  assumes "gc_commit_offsets g n i os retention now s = (Inr resp, s')"
    and "distinct (map (\<lambda>(t, p, _). (t, p)) os)"
  shows "bt_get (gs_offsets s') (k, t, p) =
    (case map_of (map (\<lambda>(t, p, off, md). ((t, p), (off, md))) os) (t, p) of
       Some (off, md) \<Rightarrow>
         if k = g then Some \<lparr>of_offset = off, of_metadata = md, of_commit_timestamp_ms = now,
                             of_expire_timestamp_ms = map_option (saturating_add 64 now) retention\<rparr>
         else bt_get (gs_offsets s) (k, t, p)
     | None \<Rightarrow> bt_get (gs_offsets s) (k, t, p))"
proof -
  have "s' = bump_revision (put_offsets g os now (map_option (saturating_add 64 now) retention) s)"
    using assms(1) by (auto simp: gc_commit_offsets_def split: sum.splits)
  then show ?thesis using put_offsets_get [OF assms(2)] by simp
qed

section \<open>Expiry\<close>

lemma expire_unchanged: "length (filter P xs) = length xs \<Longrightarrow> filter P xs = xs"
  by (metis filter_id_conv length_filter_less less_irrefl)

lemma expire_record_id:
  assumes "length (gr_members (expire_record now r)) = length (gr_members r)"
  shows "expire_record now r = r"
proof (cases "length (gr_members r) = length (filter (\<lambda>(_, m). session_alive now m) (gr_members r))")
  case False
  then have "gr_members (expire_record now r) = filter (\<lambda>(_, m). session_alive now m) (gr_members r)"
    by (simp add: expire_record_def shrunk_record_def Let_def)
  with assms False show ?thesis by simp
qed (simp add: expire_record_def)

lemma members_expire: "gr_members (expire_record now r) = filter (\<lambda>(_, m). session_alive now m) (gr_members r)"
  using expire_unchanged [of "\<lambda>(_, m). session_alive now m" "gr_members r"]
  by (auto simp: expire_record_def shrunk_record_def Let_def)

lemma gc_expire_result:
  obtains members gone where "fst (gc_expire now s) = Inr (Expired members gone)"
    "gs_groups (snd (gc_expire now s)) = bt_map_values (expire_record now) (gs_groups s)"
    "gs_offsets (snd (gc_expire now s)) =
       filter (offset_kept (bt_map_values (expire_record now) (gs_groups s)) now) (gs_offsets s)"
  by (rule that) (simp_all add: gc_expire_def Let_def)

text \<open>
  Expiry keeps what is alive: a member whose last heartbeat is within its session timeout
  stays in its group, and the offsets of a group with such a member stay committed whatever
  their deadline.
\<close>

theorem expire_keeps_live_members:
  assumes "(gstep decode)\<^sup>*\<^sup>* group_state_default s" and r: "bt_get (gs_groups s) g = Some r"
    and m: "bt_get (gr_members r) i = Some m" and "now - mb_last_heartbeat_ms m \<le> mb_session_timeout_ms m"
  shows "\<exists>r'. bt_get (gs_groups (snd (gc_expire now s))) g = Some r' \<and> bt_get (gr_members r') i = Some m \<and>
    bt_get (gs_offsets (snd (gc_expire now s))) (g, t, p) = bt_get (gs_offsets s) (g, t, p)"
proof -
  have inv: "gs_inv decode s" by (rule groups.reachable_inv [OF refl assms(1)])
  note wf = record_okD(1) [OF gs_invD(3) [OF inv r]]
  have i: "bt_get (gr_members (expire_record now r)) i = Some m"
    unfolding members_expire filter_members(2) [OF wf] using m assms(4) by (simp add: session_alive_def)
  have kept: "offset_kept (bt_map_values (expire_record now) (gs_groups s)) now ((g, t, p), e)" for e
    using i r by (auto simp: offset_kept_def)
  have "bt_get (filter (offset_kept (bt_map_values (expire_record now) (gs_groups s)) now) (gs_offsets s)) (g, t, p) =
      bt_get (gs_offsets s) (g, t, p)"
    using filter_members(2) [OF gs_invD(2) [OF inv]] kept
    by (metis option.exhaust)
  then show ?thesis using r i by (simp add: gc_expire_def Let_def)
qed

text \<open>Expiry that reports nothing has changed nothing, which is why the coordinator need not persist it.\<close>

lemma expire_nothing:
  assumes "fst (gc_expire now s) = Inr (Expired 0 0)"
  shows "snd (gc_expire now s) = s"
proof -
  have sums: "\<forall>r \<in> set (bt_values (gs_groups s)). length (gr_members r) - length (gr_members (expire_record now r)) = 0"
    and offs: "length (gs_offsets s) - length (filter (offset_kept (bt_map_values (expire_record now) (gs_groups s)) now)
      (gs_offsets s)) = 0"
    using assms by (simp_all add: gc_expire_def Let_def)
  have "expire_record now r = r" if "r \<in> set (bt_values (gs_groups s))" for r
  proof (rule expire_record_id)
    have "length (gr_members (expire_record now r)) \<le> length (gr_members r)"
      unfolding members_expire by (rule length_filter_le)
    then show "length (gr_members (expire_record now r)) = length (gr_members r)"
      using sums that by (auto intro: le_antisym)
  qed
  then have groups: "bt_map_values (expire_record now) (gs_groups s) = gs_groups s"
    by (force simp: bt_map_values_def bt_values_def intro: map_idI)
  have "filter (offset_kept (gs_groups s) now) (gs_offsets s) = gs_offsets s"
    using offs length_filter_le [of "offset_kept (gs_groups s) now" "gs_offsets s"]
    by (intro expire_unchanged) (simp add: groups)
  moreover have "(\<Sum>r\<leftarrow>bt_values (gs_groups s). length (gr_members r) - length (gr_members (expire_record now r))) = 0"
    using sums by simp
  ultimately show ?thesis by (simp only: gc_expire_def Let_def groups) simp
qed

section \<open>Shards\<close>

text \<open>
  A coordinator is the list of its shards' hosts and the files that persist them. Writing a
  shard encodes its state and replaces the file; the outcome of the file operations is an
  argument, and a failure may come before or after the rename. The content of a file is of
  any type, whatever the JSON library produces.
\<close>

record 'f coordinator =
  co_shards :: "group_state hosted list"
  co_files :: "'f option list"

definition shard_for :: "(string \<Rightarrow> nat) \<Rightarrow> nat \<Rightarrow> string \<Rightarrow> group_error + nat" where
  "shard_for hash shards gname = (if gname = [] then Inl Invalid else Inr (hash gname mod shards))"

fun open_shards :: "('f \<Rightarrow> string + persisted_state) \<Rightarrow> 'f option list \<Rightarrow> group_error + group_state hosted list" where
  "open_shards from_slice [] = Inr []"
| "open_shards from_slice (file # files) =
     (case (case file of None \<Rightarrow> Inr group_state_default
            | Some bs \<Rightarrow> (case from_slice bs of Inl msg \<Rightarrow> Inl (CodecFailed msg) | Inr p \<Rightarrow> Inr (state_from p))) of
        Inl e \<Rightarrow> Inl e
      | Inr s \<Rightarrow> (case open_shards from_slice files of Inl e \<Rightarrow> Inl e | Inr hs \<Rightarrow> Inr (host_new s # hs)))"

definition coordinator_open :: "('f \<Rightarrow> string + persisted_state) \<Rightarrow> 'f option list \<Rightarrow> group_error + 'f coordinator" where
  "coordinator_open from_slice files =
     (if length files = 0 then Inl Invalid
      else case open_shards from_slice files of
        Inl e \<Rightarrow> Inl e | Inr hs \<Rightarrow> Inr \<lparr>co_shards = hs, co_files = files\<rparr>)"

definition persist ::
    "(persisted_state \<Rightarrow> string + 'f) \<Rightarrow> io_outcome \<Rightarrow> nat \<Rightarrow> 'f coordinator \<Rightarrow> (group_error + unit) \<times> 'f coordinator" where
  "persist to_vec io shard c =
     (case to_vec (persisted_from (h_value (co_shards c ! shard))) of
        Inl msg \<Rightarrow> (Inl (CodecFailed msg), c)
      | Inr bs \<Rightarrow>
          (let c' = c\<lparr>co_files := (co_files c)[shard := Some bs]\<rparr>
           in case io of IoOk \<Rightarrow> (Inr (), c') | IoFailedBefore \<Rightarrow> (Inl Io, c) | IoFailedAfter \<Rightarrow> (Inl Io, c')))"

definition coordinator_apply ::
    "assignment_decoder \<Rightarrow> (string \<Rightarrow> nat) \<Rightarrow> (persisted_state \<Rightarrow> string + 'f) \<Rightarrow> io_outcome
      \<Rightarrow> string \<Rightarrow> group_command \<Rightarrow> 'f coordinator \<Rightarrow> (group_error + group_response) \<times> 'f coordinator" where
  "coordinator_apply decode hash to_vec io gname command c =
     (case shard_for hash (length (co_shards c)) gname of
        Inl e \<Rightarrow> (Inl e, c)
      | Inr shard \<Rightarrow>
          (case apply_batch (gc_apply decode) [command] (co_shards c ! shard) of
             (Inl e, _) \<Rightarrow> (Inl e, c)
           | (Inr responses, h) \<Rightarrow>
               (let c1 = c\<lparr>co_shards := (co_shards c)[shard := h]\<rparr>
                in if responses = [] then (Inl Invalid, c1)
                   else (case persist to_vec io shard c1 of
                      (Inl e, c2) \<Rightarrow> (Inl e, c2)
                    | (Inr _, c2) \<Rightarrow> (Inr (last responses), c2)))))"

definition coordinator_group :: "(string \<Rightarrow> nat) \<Rightarrow> string \<Rightarrow> 'f coordinator \<Rightarrow> group_error + group_record option" where
  "coordinator_group hash gname c =
     (case shard_for hash (length (co_shards c)) gname of
        Inl e \<Rightarrow> Inl e
      | Inr shard \<Rightarrow> Inr (bt_get (gs_groups (h_value (co_shards c ! shard))) gname))"

definition coordinator_offsets ::
    "(string \<Rightarrow> nat) \<Rightarrow> string \<Rightarrow> 'f coordinator \<Rightarrow> group_error + (offset_key, offset_record) btree" where
  "coordinator_offsets hash gname c =
     (case shard_for hash (length (co_shards c)) gname of
        Inl e \<Rightarrow> Inl e
      | Inr shard \<Rightarrow> Inr (filter (\<lambda>(k, _). fst k = gname) (gs_offsets (h_value (co_shards c ! shard)))))"

text \<open>The periodic expiry visits the shards in order and stops at the first failure.\<close>

fun expire_from ::
    "assignment_decoder \<Rightarrow> (persisted_state \<Rightarrow> string + 'f) \<Rightarrow> nat \<Rightarrow> (nat \<times> io_outcome) list \<Rightarrow> nat \<Rightarrow> nat
      \<Rightarrow> 'f coordinator \<Rightarrow> (group_error + nat \<times> nat) \<times> 'f coordinator" where
  "expire_from decode to_vec now [] members offsets c = (Inr (members, offsets), c)"
| "expire_from decode to_vec now ((shard, io) # rest) members offsets c =
     (case apply_batch (gc_apply decode) [Expire now] (co_shards c ! shard) of
        (Inl e, _) \<Rightarrow> (Inl e, c)
      | (Inr responses, h) \<Rightarrow>
          (let c1 = c\<lparr>co_shards := (co_shards c)[shard := h]\<rparr>
           in if responses = [] then (Inl Invalid, c1)
              else case last responses of
                Expired m n \<Rightarrow>
                  if m > 0 \<or> n > 0 then
                    (case persist to_vec io shard c1 of
                       (Inl e, c2) \<Rightarrow> (Inl e, c2)
                     | (Inr _, c2) \<Rightarrow> expire_from decode to_vec now rest (members + m) (offsets + n) c2)
                  else expire_from decode to_vec now rest (members + m) (offsets + n) c1
              | _ \<Rightarrow> expire_from decode to_vec now rest members offsets c1))"

definition coordinator_expire ::
    "assignment_decoder \<Rightarrow> (persisted_state \<Rightarrow> string + 'f) \<Rightarrow> (nat \<Rightarrow> io_outcome) \<Rightarrow> nat
      \<Rightarrow> 'f coordinator \<Rightarrow> (group_error + nat \<times> nat) \<times> 'f coordinator" where
  "coordinator_expire decode to_vec io now c =
     expire_from decode to_vec now (map (\<lambda>i. (i, io i)) [0..<length (co_shards c)]) 0 0 c"

subsection \<open>Files and memory agree\<close>

text \<open>
  The persisted form of a group state is decoded to the same state.
\<close>

theorem persisted_roundtrip:
  assumes "(gstep decode)\<^sup>*\<^sup>* group_state_default s"
  shows "state_from (persisted_from s) = s"
  using gs_invD(2) [OF groups.reachable_inv [OF refl assms]]
  by (simp add: state_from_def persisted_from_def bt_collect_wf)

definition shard_ok ::
    "assignment_decoder \<Rightarrow> ('f \<Rightarrow> string + persisted_state) \<Rightarrow> 'f option \<Rightarrow> group_state hosted \<Rightarrow> bool" where
  "shard_ok decode from_slice stored h \<longleftrightarrow> gs_inv decode (h_value h) \<and>
     (case stored of None \<Rightarrow> h_value h = group_state_default
      | Some bs \<Rightarrow> from_slice bs = Inr (persisted_from (h_value h)))"

definition synced :: "assignment_decoder \<Rightarrow> ('f \<Rightarrow> string + persisted_state) \<Rightarrow> 'f coordinator \<Rightarrow> bool" where
  "synced decode from_slice c \<longleftrightarrow> co_shards c \<noteq> [] \<and>
     list_all2 (shard_ok decode from_slice) (co_files c) (co_shards c)"

lemma syncedD:
  assumes "synced decode from_slice c" and "i < length (co_shards c)"
  shows "gs_inv decode (h_value (co_shards c ! i))"
  using assms by (auto simp: synced_def shard_ok_def list_all2_conv_all_nth)

text \<open>Storing a shard's new state in memory and in its file keeps the two in step.\<close>

lemma synced_persist:
  assumes c: "synced decode from_slice c" and i: "i < length (co_shards c)" and inv: "gs_inv decode (h_value h)"
    and codec: "\<And>p. \<exists>bs. to_vec p = Inr bs \<and> from_slice bs = Inr p"
    and run: "persist to_vec IoOk i (c\<lparr>co_shards := (co_shards c)[i := h]\<rparr>) = (res, c')"
  shows "res = Inr () \<and> synced decode from_slice c' \<and> length (co_shards c') = length (co_shards c)"
proof -
  obtain bs where bs: "to_vec (persisted_from (h_value h)) = Inr bs" "from_slice bs = Inr (persisted_from (h_value h))"
    using codec by blast
  have c': "res = Inr ()" "c' = c\<lparr>co_shards := (co_shards c)[i := h], co_files := (co_files c)[i := Some bs]\<rparr>"
    using run bs(1) i by (simp_all add: persist_def Let_def)
  have "shard_ok decode from_slice (Some bs) h" using inv bs(2) by (simp add: shard_ok_def)
  then show ?thesis using c c' by (auto simp: synced_def intro: list_all2_update_cong)
qed

lemma synced_same_value:
  assumes c: "synced decode from_slice c" and i: "i < length (co_shards c)"
    and "h_value h = h_value (co_shards c ! i)"
  shows "synced decode from_slice (c\<lparr>co_shards := (co_shards c)[i := h]\<rparr>)"
proof -
  have all: "list_all2 (shard_ok decode from_slice) (co_files c) (co_shards c)" using c by (simp add: synced_def)
  have "shard_ok decode from_slice (co_files c ! i) h"
    using list_all2_nthD2 [OF all i] unfolding shard_ok_def assms(3) .
  from list_all2_update_cong [OF all this, of i] show ?thesis using c by (simp add: synced_def)
qed

lemma synced_apply:
  assumes c: "synced decode from_slice c" and codec: "\<And>p. \<exists>bs. to_vec p = Inr bs \<and> from_slice bs = Inr p"
  shows "synced decode from_slice (snd (coordinator_apply decode hash to_vec IoOk g cmd c))"
proof (cases "shard_for hash (length (co_shards c)) g")
  case (Inr i)
  have i: "i < length (co_shards c)" using Inr c by (auto simp: shard_for_def synced_def split: if_splits)
  obtain res h where run: "apply_batch (gc_apply decode) [cmd] (co_shards c ! i) = (res, h)" by fastforce
  have inv: "gs_inv decode (h_value h)"
    using group_sm.apply_batch_inv [OF syncedD(1) [OF c i], of "[cmd]"] run by simp
  show ?thesis
  proof (cases res)
    case (Inr rs)
    have rs: "rs \<noteq> []" using run Inr by (auto simp: apply_batch_def split: sum.splits prod.splits)
    obtain res' c' where p: "persist to_vec IoOk i (c\<lparr>co_shards := (co_shards c)[i := h]\<rparr>) = (res', c')" by fastforce
    show ?thesis
      using synced_persist [OF c i inv codec p] run Inr rs p \<open>shard_for hash (length (co_shards c)) g = Inr i\<close>
      by (simp add: coordinator_apply_def Let_def)
  qed (use run c Inr in \<open>simp add: coordinator_apply_def\<close>)
qed (use c in \<open>simp add: coordinator_apply_def\<close>)

lemma expire_batch:
  "apply_batch (gc_apply decode) [Expire now] h =
     (Inr [projr (fst (gc_expire now (h_value h)))],
      \<lparr>h_applied_index = saturating_add 64 (h_applied_index h) 1, h_value = snd (gc_expire now (h_value h))\<rparr>)"
  by (simp add: apply_batch_def gc_expire_def Let_def)

lemma synced_expire_from:
  assumes codec: "\<And>p. \<exists>bs. to_vec p = Inr bs \<and> from_slice bs = Inr p"
  shows "synced decode from_slice c \<Longrightarrow> \<forall>(i, io) \<in> set todo. i < length (co_shards c) \<and> io = IoOk \<Longrightarrow>
    synced decode from_slice (snd (expire_from decode to_vec now todo ms os c))"
proof (induction todo arbitrary: ms os c)
  case (Cons e todo)
  obtain i where e: "e = (i, IoOk)" and i: "i < length (co_shards c)" using Cons.prems(2) by (cases e) auto
  let ?s = "h_value (co_shards c ! i)"
  let ?h = "\<lparr>h_applied_index = saturating_add 64 (h_applied_index (co_shards c ! i)) 1, h_value = snd (gc_expire now ?s)\<rparr>"
  obtain m n where mn: "fst (gc_expire now ?s) = Inr (Expired m n)" by (rule gc_expire_result)
  have inv: "gs_inv decode (h_value ?h)"
    using gc_expire_inv [OF syncedD(1) [OF Cons.prems(1) i]] by simp
  show ?case
  proof (cases "m > 0 \<or> n > 0")
    case True
    obtain res' c' where p: "persist to_vec IoOk i (c\<lparr>co_shards := (co_shards c)[i := ?h]\<rparr>) = (res', c')" by fastforce
    note P = synced_persist [OF Cons.prems(1) i inv codec p]
    have "\<forall>(i, io) \<in> set todo. i < length (co_shards c') \<and> io = IoOk" using Cons.prems(2) P by auto
    then show ?thesis
      using Cons.IH [of c' "ms + m" "os + n"] P True mn p by (simp add: e expire_batch Let_def)
  next
    case False
    then have "h_value ?h = ?s" using expire_nothing mn by simp
    then have "synced decode from_slice (c\<lparr>co_shards := (co_shards c)[i := ?h]\<rparr>)"
      by (rule synced_same_value [OF Cons.prems(1) i])
    moreover have "\<forall>(i, io) \<in> set todo. i < length (co_shards (c\<lparr>co_shards := (co_shards c)[i := ?h]\<rparr>)) \<and> io = IoOk"
      using Cons.prems(2) by auto
    ultimately show ?thesis
      using Cons.IH [of "c\<lparr>co_shards := (co_shards c)[i := ?h]\<rparr>" "ms + m" "os + n"] False mn
      by (simp add: e expire_batch Let_def)
  qed
qed simp

inductive co_step ::
    "assignment_decoder \<Rightarrow> (string \<Rightarrow> nat) \<Rightarrow> (persisted_state \<Rightarrow> string + 'f) \<Rightarrow> 'f coordinator \<Rightarrow> 'f coordinator \<Rightarrow> bool"
  for decode hash to_vec where
  apply_request: "co_step decode hash to_vec c (snd (coordinator_apply decode hash to_vec IoOk g cmd c))"
| expire_tick: "co_step decode hash to_vec c (snd (coordinator_expire decode to_vec (\<lambda>_. IoOk) now c))"

lemma synced_step:
  assumes codec: "\<And>p. \<exists>bs. to_vec p = Inr bs \<and> from_slice bs = Inr p"
  shows "co_step decode hash to_vec c d \<Longrightarrow> synced decode from_slice c \<Longrightarrow> synced decode from_slice d"
proof (erule co_step.cases)
  show "synced decode from_slice d" if "synced decode from_slice c" "c = c'"
    "d = snd (coordinator_apply decode hash to_vec IoOk g cmd c')" for c' g cmd
    using that synced_apply codec by blast
  show "synced decode from_slice d" if "synced decode from_slice c" "c = c'"
    "d = snd (coordinator_expire decode to_vec (\<lambda>_. IoOk) now c')" for c' now
    using that synced_expire_from [OF codec] by (simp add: coordinator_expire_def)
qed

lemma open_shards_synced:
  "list_all2 (shard_ok decode from_slice) files hs \<Longrightarrow>
   \<exists>hs'. open_shards from_slice files = Inr hs' \<and> map h_value hs' = map h_value hs"
proof (induction rule: list_all2_induct)
  case (Cons f fs h hs)
  have "state_from (persisted_from (h_value h)) = h_value h"
    using Cons.hyps(1) gs_invD(2) by (auto simp: shard_ok_def state_from_def persisted_from_def bt_collect_wf)
  then show ?case using Cons by (cases f) (auto simp: shard_ok_def host_new_def)
qed simp

text \<open>
  C16. A coordinator survives a restart: after any sequence of requests and expiry ticks whose
  writes succeed, opening the files again yields the same state in every shard. The codec
  hypothesis is that JSON encoding succeeds and decoding inverts it.
\<close>

theorem coordinator_survives_restart:
  assumes codec: "\<And>p. \<exists>bs. to_vec p = Inr bs \<and> from_slice bs = Inr p"
    and fresh: "coordinator_open from_slice (replicate n None) = Inr c0"
    and run: "(co_step decode hash to_vec)\<^sup>*\<^sup>* c0 c"
  shows "\<exists>c'. coordinator_open from_slice (co_files c) = Inr c' \<and>
    map h_value (co_shards c') = map h_value (co_shards c)"
proof -
  have open_none: "open_shards from_slice (replicate k None) = Inr (replicate k (host_new group_state_default))" for k
    by (induction k) simp_all
  have c0: "c0 = \<lparr>co_shards = replicate n (host_new group_state_default), co_files = replicate n None\<rparr>" and n: "n \<noteq> 0"
    using fresh by (auto simp: coordinator_open_def open_none split: if_splits)
  have "synced decode from_slice c0"
    unfolding c0 using n
    by (simp add: synced_def shard_ok_def host_new_def group_state_default_def gs_inv_def list_all2_conv_all_nth)
  from run this have c: "synced decode from_slice c"
    by (induction rule: rtranclp_induct) (use synced_step [OF codec] in blast)+
  then have "co_files c \<noteq> []" by (auto simp: synced_def)
  with c show ?thesis using open_shards_synced by (fastforce simp: coordinator_open_def synced_def)
qed
section \<open>A concrete group\<close>

text \<open>A decoder that reads one byte per partition of a single topic, and a group of two members.\<close>

definition demo_decode :: assignment_decoder where
  "demo_decode v bs = Some ([(''t'', map uint bs)], [])"

fun run_commands :: "assignment_decoder \<Rightarrow> group_command list \<Rightarrow> group_state \<Rightarrow> group_state option" where
  "run_commands decode [] s = Some s"
| "run_commands decode (c # cs) s =
     (case gc_apply decode c s of (Inl _, _) \<Rightarrow> None | (Inr _, s') \<Rightarrow> run_commands decode cs s')"

lemma run_commands_steps: "run_commands decode cs s = Some t \<Longrightarrow> (gstep decode)\<^sup>*\<^sup>* s t"
proof (induction cs arbitrary: s)
  case (Cons c cs)
  then obtain r s' where "gc_apply decode c s = (Inr r, s')" "run_commands decode cs s' = Some t"
    by (auto split: prod.splits sum.splits)
  then show ?case using Cons.IH gstep.apply_command converse_rtranclp_into_rtranclp by metis
qed simp

definition demo_commands :: "group_command list" where
  "demo_commands = [Join ''g'' ''a'' ''c'' ''h'' ''consumer'' [(''range'', [])] 10 0,
     Join ''g'' ''b'' ''c'' ''h'' ''consumer'' [(''range'', [])] 10 0,
     Sync ''g'' 2 ''a'' [(''a'', [0, 0, 1]), (''b'', [0, 0, 2])]]"

definition demo_state :: group_state where
  "demo_state = (case run_commands demo_decode demo_commands group_state_default of Some s \<Rightarrow> s | None \<Rightarrow> undefined)"

lemma demo_state_run: "run_commands demo_decode demo_commands group_state_default = Some demo_state"
  unfolding demo_state_def by code_simp

lemmas demo_reachable = run_commands_steps [OF demo_state_run]

definition demo_record :: group_record where
  "demo_record = the (bt_get (gs_groups demo_state) ''g'')"

lemma demo_facts:
  "bt_get (gs_groups demo_state) ''g'' = Some demo_record" "gr_phase demo_record = Stable" "gr_generation demo_record = 2"
  "bt_get (gr_members demo_record) ''a'' = Some (the (bt_get (gr_members demo_record) ''a''))"
  "bt_get (gr_members demo_record) ''b'' = Some (the (bt_get (gr_members demo_record) ''b''))"
  by code_simp+

theorem stable_assignments_exclusive_witness:
  "set (owned demo_decode (mb_assignment (the (bt_get (gr_members demo_record) ''a'')))) \<inter>
   set (owned demo_decode (mb_assignment (the (bt_get (gr_members demo_record) ''b'')))) = {} \<and>
   owned demo_decode (mb_assignment (the (bt_get (gr_members demo_record) ''a''))) = [(''t'', 1)]"
proof -
  have "owned demo_decode (mb_assignment (the (bt_get (gr_members demo_record) ''a''))) = [(''t'', 1)]" by code_simp
  then show ?thesis
    using stable_assignments_exclusive [OF demo_reachable demo_facts(1,2) _ demo_facts(4,5)] by simp
qed

theorem group_commands_never_panic_witness:
  "fst (gc_apply demo_decode (Join ''g'' '''' ''c'' ''h'' ''consumer'' [(''range'', [7])] 10 5) demo_state) \<noteq> Inl Panic"
  by (rule group_commands_never_panic [OF demo_reachable])

theorem membership_change_fences_generation_witness:
  "gc_heartbeat ''g'' 2 ''a'' 3 (snd (gc_apply demo_decode (Leave ''g'' ''b'') demo_state)) =
     (Inl IllegalGeneration, snd (gc_apply demo_decode (Leave ''g'' ''b'') demo_state))"
proof -
  let ?s = "snd (gc_apply demo_decode (Leave ''g'' ''b'') demo_state)"
  let ?r = "the (bt_get (gs_groups ?s) ''g'')"
  have run: "gc_apply demo_decode (Leave ''g'' ''b'') demo_state = (Inr EmptyResponse, ?s)" by code_simp
  have r: "bt_get (gs_groups ?s) ''g'' = Some ?r" by code_simp
  have "bt_contains (gr_members demo_record) ''b''" "\<not> bt_contains (gr_members ?r) ''b''" by code_simp+
  then have "members_of demo_record \<noteq> members_of ?r" by (auto simp: members_of_def)
  then show ?thesis
    using membership_change_fences_generation [OF demo_reachable demo_facts(1) _ run r] demo_facts(3) by simp
qed

theorem commit_offsets_readback_witness:
  "bt_get (gs_offsets (snd (gc_commit_offsets ''g'' 2 ''a'' [(''t'', 1, 40, ''m'')] None 6 demo_state))) (''g'', ''t'', 1) =
     Some \<lparr>of_offset = 40, of_metadata = ''m'', of_commit_timestamp_ms = 6, of_expire_timestamp_ms = None\<rparr>"
proof -
  have run: "gc_commit_offsets ''g'' 2 ''a'' [(''t'', 1, 40, ''m'')] None 6 demo_state =
      (Inr EmptyResponse, snd (gc_commit_offsets ''g'' 2 ''a'' [(''t'', 1, 40, ''m'')] None 6 demo_state))" by code_simp
  from commit_offsets_readback [OF run] show ?thesis by simp
qed

theorem expire_keeps_live_members_witness:
  "\<exists>r'. bt_get (gs_groups (snd (gc_expire 9 demo_state))) ''g'' = Some r' \<and> bt_contains (gr_members r') ''a''"
proof -
  have "9 - mb_last_heartbeat_ms (the (bt_get (gr_members demo_record) ''a'')) \<le>
      mb_session_timeout_ms (the (bt_get (gr_members demo_record) ''a''))" by code_simp
  from expire_keeps_live_members [OF demo_reachable demo_facts(1,4) this, of "''t''" 1] show ?thesis
    by (auto simp: bt_contains_def)
qed

theorem persisted_roundtrip_witness: "state_from (persisted_from demo_state) = demo_state"
  by (rule persisted_roundtrip [OF demo_reachable])

text \<open>Files that hold the persisted form itself satisfy the codec hypothesis.\<close>

theorem coordinator_survives_restart_witness:
  "\<exists>c0 c'. coordinator_open Inr [None, None] = Inr c0 \<and>
     coordinator_open Inr (co_files (snd (coordinator_apply demo_decode length Inr IoOk ''g'' (hd demo_commands) c0))) = Inr c' \<and>
     map h_value (co_shards c') =
       map h_value (co_shards (snd (coordinator_apply demo_decode length Inr IoOk ''g'' (hd demo_commands) c0)))"
proof -
  define c0 where "c0 = \<lparr>co_shards = [host_new group_state_default, host_new group_state_default],
    co_files = [None, None :: persisted_state option]\<rparr>"
  have c0: "coordinator_open Inr (replicate 2 None) = Inr c0"
    by (simp add: coordinator_open_def c0_def numeral_2_eq_2)
  have "(co_step demo_decode length Inr)\<^sup>*\<^sup>* c0 (snd (coordinator_apply demo_decode length Inr IoOk ''g'' (hd demo_commands) c0))"
    by (intro r_into_rtranclp co_step.apply_request)
  from coordinator_survives_restart [OF _ c0 this] show ?thesis
    using c0 by (auto simp: numeral_2_eq_2)
qed

end
