(* ===== verification/Transactions.thy ===== *)
theory Transactions
  imports Rsm
begin

text \<open>
  The transaction coordinator of \<open>crates/pepper-kafka/src/transactions.rs\<close>: producer
  identities and epochs, per-partition sequence state, transactions with their staged
  offsets and aborted ranges, spread over 32 shards with one snapshot file each. An
  operation that locks one shard is a function of that shard which also says whether the
  shard was left alone, marked dirty or persisted. \<open>serde_json\<close>, \<open>blake3\<close> and the outcome
  of the file operations are parameters.
\<close>

section \<open>Data\<close>

datatype tx_error = UnknownProducer | FencedProducer | OutOfOrderSequence | InvalidTransactionState
  | NotTransactional | InvalidRecordBatch | TxCodec string | TxIo

datatype tx_status = TxReady | TxOngoing | TxCommitted | TxAborted

type_synonym tx_partition = "string \<times> int"

record sequence_state =
  sq_next_sequence :: int
  sq_last_base_sequence :: int
  sq_last_record_count :: nat
  sq_last_base_offset :: nat
  sq_last_offset :: nat
  sq_first_transaction_offset :: "nat option"
  sq_pending :: "(int \<times> nat) option"

record pending_offset =
  po_group :: string
  po_topic :: string
  po_partition :: int
  po_offset :: int
  po_metadata :: string

record tx_producer =
  tp_transactional_id :: "string option"
  tp_epoch :: int
  tp_timeout_ms :: nat
  tp_deadline_ms :: nat
  tp_status :: tx_status
  tp_partitions :: "tx_partition list"
  tp_sequences :: "(tx_partition, sequence_state) btree"
  tp_pending_offsets :: "pending_offset list"
  tp_offsets_applied :: bool

record aborted_range =
  ar_producer_id :: int
  ar_first_offset :: nat
  ar_last_offset :: nat

record tx_shard =
  ts_producers :: "(int, tx_producer) btree"
  ts_aborted :: "(tx_partition, aborted_range list) btree"

record tx_metadata =
  tm_next_producer_id :: int
  tm_transactional_ids :: "(string, int) btree"

record tx_legacy =
  tl_next_producer_id :: int
  tl_transactional_ids :: "(string, int) btree"
  tl_producers :: "(int, tx_producer) btree"
  tl_aborted :: "(tx_partition, aborted_range list) btree"

record producer_identity =
  pi_producer_id :: int
  pi_producer_epoch :: int

record batch_identity =
  bi_transactional :: bool
  bi_control :: bool
  bi_producer_id :: int
  bi_producer_epoch :: int
  bi_base_sequence :: int
  bi_record_count :: nat

datatype append_decision = NonIdempotent | AppendBatch | DuplicateBatch nat

definition transaction_shards :: nat where
  "transaction_shards = 32"

definition tx_shard_default :: tx_shard where
  "tx_shard_default = \<lparr>ts_producers = [], ts_aborted = []\<rparr>"

definition tx_metadata_default :: tx_metadata where
  "tx_metadata_default = \<lparr>tm_next_producer_id = 0, tm_transactional_ids = []\<rparr>"

definition producer_shard :: "int \<Rightarrow> nat" where
  "producer_shard pid = nat (pid mod int transaction_shards)"

text \<open>
  The digest input of \<open>partition_shard\<close> is the topic's bytes and the big-endian bytes of the
  partition; \<open>digest\<close> is the first eight bytes of \<open>blake3\<close> as an unsigned integer.
\<close>

definition to_be_bytes_i32 :: "int \<Rightarrow> char list" where
  "to_be_bytes_i32 n =
     (let u = nat (n mod 2 ^ 32)
      in map (\<lambda>k. char_of ((u div 256 ^ k) mod 256)) [3, 2, 1, 0])"

definition partition_shard :: "(char list \<Rightarrow> nat) \<Rightarrow> tx_partition \<Rightarrow> nat" where
  "partition_shard digest p = digest (fst p @ to_be_bytes_i32 (snd p)) mod transaction_shards"

section \<open>The partition codec\<close>

text \<open>
  Map keys are written as \<open>length:topic:partition\<close>. \<open>split_at\<close> panics inside a multi-byte
  character, which is the error \<open>SplitPanic\<close>.
\<close>

datatype partition_codec_error = LengthMissing | LengthInvalid | TopicTruncated | DelimiterMissing
  | IndexInvalid | SplitPanic

definition show_int :: "int \<Rightarrow> string" where
  "show_int i = (if i < 0 then CHR ''-'' # show_nat (nat (- i)) else show_nat (nat i))"

definition serialize_partition :: "tx_partition \<Rightarrow> string" where
  "serialize_partition p = show_nat (length (fst p)) @ '':'' @ fst p @ '':'' @ show_int (snd p)"

definition split_once :: "char \<Rightarrow> string \<Rightarrow> (string \<times> string) option" where
  "split_once c s =
     (case dropWhile (\<lambda>x. x \<noteq> c) s of [] \<Rightarrow> None | _ # rest \<Rightarrow> Some (takeWhile (\<lambda>x. x \<noteq> c) s, rest))"

definition digit_value :: "char \<Rightarrow> nat option" where
  "digit_value c = (if code_in 48 57 c then Some (of_char c - 48) else None)"

text \<open>The digits of \<open>from_str_radix\<close>: the value must stay below the limit at every digit.\<close>

fun parse_digits :: "nat \<Rightarrow> nat \<Rightarrow> string \<Rightarrow> nat option" where
  "parse_digits limit acc [] = Some acc"
| "parse_digits limit acc (c # cs) =
     (case digit_value c of
        None \<Rightarrow> None
      | Some d \<Rightarrow> if acc * 10 + d < limit then parse_digits limit (acc * 10 + d) cs else None)"

definition parse_magnitude :: "nat \<Rightarrow> string \<Rightarrow> nat option" where
  "parse_magnitude limit s = (if s = [] then None else parse_digits limit 0 s)"

definition parse_usize :: "string \<Rightarrow> nat option" where
  "parse_usize s =
     (case s of
        [] \<Rightarrow> None
      | c # rest \<Rightarrow> parse_magnitude (2 ^ 64) (if c = CHR ''+'' then rest else s))"

definition parse_i32 :: "string \<Rightarrow> int option" where
  "parse_i32 s =
     (case s of
        [] \<Rightarrow> None
      | c # rest \<Rightarrow>
          if c = CHR ''-'' then map_option (\<lambda>n. - int n) (parse_magnitude (2 ^ 31 + 1) rest)
          else map_option int (parse_magnitude (2 ^ 31) (if c = CHR ''+'' then rest else s)))"

definition is_char_boundary :: "string \<Rightarrow> nat \<Rightarrow> bool" where
  "is_char_boundary s n \<longleftrightarrow> n = 0 \<or> n = length s \<or> n < length s \<and> \<not> code_in 128 191 (s ! n)"

definition deserialize_partition :: "string \<Rightarrow> partition_codec_error + tx_partition" where
  "deserialize_partition encoded =
     (case split_once (CHR '':'') encoded of
        None \<Rightarrow> Inl LengthMissing
      | Some (len, remainder) \<Rightarrow>
          (case parse_usize len of
             None \<Rightarrow> Inl LengthInvalid
           | Some n \<Rightarrow>
               if length remainder < n then Inl TopicTruncated
               else if \<not> is_char_boundary remainder n then Inl SplitPanic
               else (case drop n remainder of
                   [] \<Rightarrow> Inl DelimiterMissing
                 | c # index \<Rightarrow>
                     if c \<noteq> CHR '':'' then Inl DelimiterMissing
                     else (case parse_i32 index of
                         None \<Rightarrow> Inl IndexInvalid
                       | Some p \<Rightarrow> Inr (take n remainder, p)))))"

section \<open>Operations on a shard\<close>

datatype durability = Unchanged | MarkedDirty | Persisted

type_synonym 'a shard_step = "(tx_error + 'a) \<times> tx_shard \<times> durability"

definition producer_ref :: "tx_shard \<Rightarrow> producer_identity \<Rightarrow> tx_error + tx_producer" where
  "producer_ref s i =
     (case bt_get (ts_producers s) (pi_producer_id i) of
        None \<Rightarrow> Inl UnknownProducer
      | Some p \<Rightarrow> if tp_epoch p \<noteq> pi_producer_epoch i then Inl FencedProducer else Inr p)"

text \<open>\<open>producer_mut\<close> hands out a place in the map: what is written there goes back by \<open>put_producer\<close>.\<close>

definition put_producer :: "int \<Rightarrow> tx_producer \<Rightarrow> tx_shard \<Rightarrow> tx_shard" where
  "put_producer pid p s = s\<lparr>ts_producers := bt_insert pid p (ts_producers s)\<rparr>"

definition batch_producer :: "batch_identity \<Rightarrow> producer_identity" where
  "batch_producer i = \<lparr>pi_producer_id = bi_producer_id i, pi_producer_epoch = bi_producer_epoch i\<rparr>"

definition sequence_default :: sequence_state where
  "sequence_default = \<lparr>sq_next_sequence = 0, sq_last_base_sequence = - 1, sq_last_record_count = 0,
     sq_last_base_offset = 0, sq_last_offset = 0, sq_first_transaction_offset = None, sq_pending = None\<rparr>"

text \<open>\<open>record_count as i32\<close>, and the sequence number after a batch.\<close>

definition as_i32 :: "nat \<Rightarrow> int" where
  "as_i32 n = (let m = int n mod 2 ^ 32 in if m < 2 ^ 31 then m else m - 2 ^ 32)"

definition sequence_after :: "int \<Rightarrow> nat \<Rightarrow> int" where
  "sequence_after base count = saturating_add_signed 32 base (as_i32 count)"

definition get_or_insert :: "'a \<Rightarrow> 'a option \<Rightarrow> 'a option" where
  "get_or_insert v x = (case x of None \<Rightarrow> Some v | Some _ \<Rightarrow> x)"

definition put_sequence :: "tx_partition \<Rightarrow> sequence_state \<Rightarrow> tx_producer \<Rightarrow> tx_producer" where
  "put_sequence part q p = p\<lparr>tp_sequences := bt_insert part q (tp_sequences p)\<rparr>"

definition sequence_entry :: "tx_partition \<Rightarrow> tx_producer \<Rightarrow> sequence_state" where
  "sequence_entry part p = (case bt_get (tp_sequences p) part of Some q \<Rightarrow> q | None \<Rightarrow> sequence_default)"

definition registered_producer :: "string option \<Rightarrow> nat \<Rightarrow> nat \<Rightarrow> int \<Rightarrow> tx_producer" where
  "registered_producer tid timeout now epoch =
     \<lparr>tp_transactional_id = tid, tp_epoch = epoch, tp_timeout_ms = timeout,
      tp_deadline_ms = saturating_add 64 now timeout, tp_status = TxReady, tp_partitions = [],
      tp_sequences = [], tp_pending_offsets = [], tp_offsets_applied = False\<rparr>"

definition sh_register :: "int \<Rightarrow> string option \<Rightarrow> nat \<Rightarrow> nat \<Rightarrow> tx_shard \<Rightarrow> int \<times> tx_shard" where
  "sh_register pid tid timeout now s =
     (let epoch = (case bt_get (ts_producers s) pid of
                     None \<Rightarrow> 0 | Some p \<Rightarrow> saturating_add_signed 16 (tp_epoch p) 1)
      in (epoch, put_producer pid (registered_producer tid timeout now epoch) s))"

definition sh_add_partitions :: "producer_identity \<Rightarrow> tx_partition list \<Rightarrow> nat \<Rightarrow> tx_shard \<Rightarrow> unit shard_step" where
  "sh_add_partitions i parts now s =
     (case producer_ref s i of
        Inl e \<Rightarrow> (Inl e, s, Unchanged)
      | Inr p \<Rightarrow>
          if tp_transactional_id p = None then (Inl NotTransactional, s, Unchanged)
          else (Inr (),
                put_producer (pi_producer_id i)
                  (p\<lparr>tp_partitions := fold insort_insert parts (tp_partitions p), tp_status := TxOngoing,
                     tp_deadline_ms := saturating_add 64 now (tp_timeout_ms p)\<rparr>) s,
                Persisted))"

definition sh_prepare_append :: "tx_partition \<Rightarrow> batch_identity \<Rightarrow> tx_shard \<Rightarrow> append_decision shard_step" where
  "sh_prepare_append part i s =
     (case producer_ref s (batch_producer i) of
        Inl e \<Rightarrow> (Inl e, s, Unchanged)
      | Inr p \<Rightarrow>
          if bi_transactional i \<and> (tp_status p \<noteq> TxOngoing \<or> part \<notin> set (tp_partitions p))
          then (Inl InvalidTransactionState, s, Unchanged)
          else (let q = sequence_entry part p;
                    s' = put_producer (bi_producer_id i) (put_sequence part q p) s
                in if bi_base_sequence i = sq_last_base_sequence q \<and> bi_record_count i = sq_last_record_count q
                   then (Inr (DuplicateBatch (sq_last_base_offset q)), s', Unchanged)
                   else if bi_base_sequence i \<noteq> sq_next_sequence q \<or> sq_pending q \<noteq> None
                   then (Inl OutOfOrderSequence, s', Unchanged)
                   else (Inr AppendBatch,
                         put_producer (bi_producer_id i)
                           (put_sequence part (q\<lparr>sq_pending := Some (bi_base_sequence i, bi_record_count i)\<rparr>) p) s,
                         MarkedDirty)))"

definition completed_sequence :: "batch_identity \<Rightarrow> nat \<Rightarrow> nat \<Rightarrow> sequence_state \<Rightarrow> sequence_state" where
  "completed_sequence i base final q =
     q\<lparr>sq_pending := None, sq_last_base_sequence := bi_base_sequence i,
       sq_last_record_count := bi_record_count i,
       sq_next_sequence := sequence_after (bi_base_sequence i) (bi_record_count i),
       sq_last_base_offset := base, sq_last_offset := final,
       sq_first_transaction_offset :=
         (if bi_transactional i then get_or_insert base (sq_first_transaction_offset q)
          else sq_first_transaction_offset q)\<rparr>"

definition sh_complete_append :: "tx_partition \<Rightarrow> batch_identity \<Rightarrow> nat \<Rightarrow> nat \<Rightarrow> tx_shard \<Rightarrow> unit shard_step" where
  "sh_complete_append part i base final s =
     (case producer_ref s (batch_producer i) of
        Inl e \<Rightarrow> (Inl e, s, Unchanged)
      | Inr p \<Rightarrow>
          (case bt_get (tp_sequences p) part of
             None \<Rightarrow> (Inl OutOfOrderSequence, s, Unchanged)
           | Some q \<Rightarrow>
               if sq_pending q \<noteq> Some (bi_base_sequence i, bi_record_count i)
               then (Inl OutOfOrderSequence, s, Unchanged)
               else (Inr (),
                     put_producer (bi_producer_id i)
                       (put_sequence part (completed_sequence i base final q) p) s,
                     MarkedDirty)))"

definition sh_cancel_append :: "tx_partition \<Rightarrow> batch_identity \<Rightarrow> tx_shard \<Rightarrow> unit shard_step" where
  "sh_cancel_append part i s =
     (case producer_ref s (batch_producer i) of
        Inl e \<Rightarrow> (Inl e, s, Unchanged)
      | Inr p \<Rightarrow>
          (case bt_get (tp_sequences p) part of
             None \<Rightarrow> (Inr (), s, Unchanged)
           | Some q \<Rightarrow>
               if sq_pending q = Some (bi_base_sequence i, bi_record_count i)
               then (Inr (), put_producer (bi_producer_id i) (put_sequence part (q\<lparr>sq_pending := None\<rparr>) p) s, MarkedDirty)
               else (Inr (), s, Unchanged)))"

definition sh_stage_offsets :: "producer_identity \<Rightarrow> pending_offset list \<Rightarrow> tx_shard \<Rightarrow> unit shard_step" where
  "sh_stage_offsets i offsets s =
     (case producer_ref s i of
        Inl e \<Rightarrow> (Inl e, s, Unchanged)
      | Inr p \<Rightarrow>
          if tp_status p \<noteq> TxOngoing then (Inl InvalidTransactionState, s, Unchanged)
          else (Inr (), put_producer (pi_producer_id i)
                  (p\<lparr>tp_pending_offsets := offsets, tp_offsets_applied := False\<rparr>) s, Persisted))"

text \<open>\<open>end_transaction\<close>: the ranges of an abort, the producer it leaves, and the pushes.\<close>

definition abort_ranges :: "int \<Rightarrow> tx_producer \<Rightarrow> (tx_partition \<times> aborted_range) list" where
  "abort_ranges pid p =
     List.map_filter (\<lambda>(part, q).
       map_option (\<lambda>first. (part, \<lparr>ar_producer_id = pid, ar_first_offset = first,
                                   ar_last_offset = sq_last_offset q\<rparr>))
         (sq_first_transaction_offset q)) (tp_sequences p)"

definition ended_producer :: "bool \<Rightarrow> tx_producer \<Rightarrow> tx_producer" where
  "ended_producer commit p =
     (let p' = p\<lparr>tp_status := if commit then TxCommitted else TxAborted,
                 tp_sequences := bt_map_values (\<lambda>q. q\<lparr>sq_first_transaction_offset := None\<rparr>) (tp_sequences p)\<rparr>
      in if commit then p' else p'\<lparr>tp_pending_offsets := [], tp_offsets_applied := True\<rparr>)"

definition push_range ::
    "tx_partition \<times> aborted_range \<Rightarrow> (tx_partition, aborted_range list) btree \<Rightarrow> (tx_partition, aborted_range list) btree" where
  "push_range r m =
     bt_insert (fst r) ((case bt_get m (fst r) of None \<Rightarrow> [] | Some rs \<Rightarrow> rs) @ [snd r]) m"

definition sh_end_transaction :: "producer_identity \<Rightarrow> bool \<Rightarrow> tx_shard \<Rightarrow> pending_offset list shard_step" where
  "sh_end_transaction i commit s =
     (case producer_ref s i of
        Inl e \<Rightarrow> (Inl e, s, Unchanged)
      | Inr p \<Rightarrow>
          if tp_status p = (if commit then TxCommitted else TxAborted)
          then (Inr (if commit \<and> \<not> tp_offsets_applied p then tp_pending_offsets p else []), s, Unchanged)
          else if tp_status p \<noteq> TxOngoing then (Inl InvalidTransactionState, s, Unchanged)
          else (let ranges = (if commit then [] else abort_ranges (pi_producer_id i) p);
                    s' = put_producer (pi_producer_id i) (ended_producer commit p) s
                in (Inr (if commit then tp_pending_offsets p else []),
                    s'\<lparr>ts_aborted := fold push_range ranges (ts_aborted s')\<rparr>, Persisted)))"

definition sh_mark_offsets_applied :: "producer_identity \<Rightarrow> tx_shard \<Rightarrow> unit shard_step" where
  "sh_mark_offsets_applied i s =
     (case producer_ref s i of
        Inl e \<Rightarrow> (Inl e, s, Unchanged)
      | Inr p \<Rightarrow>
          if tp_status p \<noteq> TxCommitted then (Inl InvalidTransactionState, s, Unchanged)
          else (Inr (), put_producer (pi_producer_id i)
                  (p\<lparr>tp_offsets_applied := True, tp_pending_offsets := []\<rparr>) s, Persisted))"

text \<open>
  \<open>recover_partition\<close> on one shard: every pending marker of the partition is cleared, then
  the batches of the log scan are folded in.
\<close>

definition clear_pending :: "tx_partition \<Rightarrow> tx_producer \<Rightarrow> tx_producer" where
  "clear_pending part p =
     (case bt_get (tp_sequences p) part of
        None \<Rightarrow> p | Some q \<Rightarrow> put_sequence part (q\<lparr>sq_pending := None\<rparr>) p)"

definition has_pending :: "tx_partition \<Rightarrow> tx_producer \<Rightarrow> bool" where
  "has_pending part p =
     (case bt_get (tp_sequences p) part of None \<Rightarrow> False | Some q \<Rightarrow> sq_pending q \<noteq> None)"

definition recovered_sequence :: "tx_status \<Rightarrow> batch_identity \<Rightarrow> nat \<Rightarrow> nat \<Rightarrow> sequence_state \<Rightarrow> sequence_state" where
  "recovered_sequence status i base final q =
     q\<lparr>sq_last_base_sequence := bi_base_sequence i, sq_last_record_count := bi_record_count i,
       sq_next_sequence := sequence_after (bi_base_sequence i) (bi_record_count i),
       sq_last_base_offset := base, sq_last_offset := final, sq_pending := None,
       sq_first_transaction_offset :=
         (if bi_transactional i \<and> status = TxOngoing then get_or_insert base (sq_first_transaction_offset q)
          else sq_first_transaction_offset q)\<rparr>"

definition recover_batch ::
    "nat \<Rightarrow> tx_partition \<Rightarrow> batch_identity \<times> nat \<times> nat \<Rightarrow> tx_shard \<times> bool \<Rightarrow> tx_shard \<times> bool" where
  "recover_batch shard part batch st =
     (case (batch, st) of ((i, base, final), (s, changed)) \<Rightarrow>
        if bi_producer_id i < 0 \<or> producer_shard (bi_producer_id i) \<noteq> shard then st
        else (case bt_get (ts_producers s) (bi_producer_id i) of
            None \<Rightarrow> st
          | Some p \<Rightarrow>
              if tp_epoch p \<noteq> bi_producer_epoch i then st
              else (let q = sequence_entry part p
                    in if sq_last_base_sequence q \<le> bi_base_sequence i
                       then (put_producer (bi_producer_id i)
                               (put_sequence part (recovered_sequence (tp_status p) i base final q) p) s, True)
                       else (put_producer (bi_producer_id i) (put_sequence part q p) s, changed))))"

definition sh_recover_partition ::
    "nat \<Rightarrow> tx_partition \<Rightarrow> (batch_identity \<times> nat \<times> nat) list \<Rightarrow> tx_shard \<Rightarrow> unit shard_step" where
  "sh_recover_partition shard part batches s =
     (let cleared = list_ex (has_pending part) (bt_values (ts_producers s));
          s1 = s\<lparr>ts_producers := bt_map_values (clear_pending part) (ts_producers s)\<rparr>;
          (s2, changed) = fold (recover_batch shard part) batches (s1, cleared)
      in (Inr (), s2, if changed then Persisted else Unchanged))"

section \<open>The coordinator\<close>

record 'f tx_files =
  tf_legacy :: "'f option"
  tf_metadata :: "'f option"
  tf_shards :: "'f option list"

record 'f tx_coordinator =
  tc_metadata :: tx_metadata
  tc_shards :: "tx_shard list"
  tc_dirty :: "bool list"
  tc_files :: "'f tx_files"

text \<open>The JSON library: encoders and decoders of the three file formats.\<close>

record 'f tx_json =
  tj_write_metadata :: "tx_metadata \<Rightarrow> string + 'f"
  tj_write_shard :: "tx_shard \<Rightarrow> string + 'f"
  tj_read_metadata :: "'f \<Rightarrow> string + tx_metadata"
  tj_read_shard :: "'f \<Rightarrow> string + tx_shard"
  tj_read_legacy :: "'f \<Rightarrow> string + tx_legacy"

datatype tx_file = MetadataFile | ShardFile nat

definition persist_file :: "('v \<Rightarrow> string + 'f) \<Rightarrow> io_outcome \<Rightarrow> 'v \<Rightarrow> 'f option \<Rightarrow> (tx_error + unit) \<times> 'f option" where
  "persist_file encode io v old =
     (case encode v of
        Inl msg \<Rightarrow> (Inl (TxCodec msg), old)
      | Inr bytes \<Rightarrow>
          (case io of
             IoOk \<Rightarrow> (Inr (), Some bytes)
           | IoFailedBefore \<Rightarrow> (Inl TxIo, old)
           | IoFailedAfter \<Rightarrow> (Inl TxIo, Some bytes)))"

definition persist_metadata ::
    "'f tx_json \<Rightarrow> io_outcome \<Rightarrow> 'f tx_coordinator \<Rightarrow> (tx_error + unit) \<times> 'f tx_coordinator" where
  "persist_metadata json io c =
     (case persist_file (tj_write_metadata json) io (tc_metadata c) (tf_metadata (tc_files c)) of
        (r, file) \<Rightarrow> (r, c\<lparr>tc_files := (tc_files c)\<lparr>tf_metadata := file\<rparr>\<rparr>))"

definition persist_shard ::
    "'f tx_json \<Rightarrow> io_outcome \<Rightarrow> nat \<Rightarrow> 'f tx_coordinator \<Rightarrow> (tx_error + unit) \<times> 'f tx_coordinator" where
  "persist_shard json io shard c =
     (case persist_file (tj_write_shard json) io (tc_shards c ! shard) (tf_shards (tc_files c) ! shard) of
        (r, file) \<Rightarrow> (r, c\<lparr>tc_files := (tc_files c)\<lparr>tf_shards := (tf_shards (tc_files c))[shard := file]\<rparr>\<rparr>))"

definition mark_dirty :: "nat \<Rightarrow> 'f tx_coordinator \<Rightarrow> 'f tx_coordinator" where
  "mark_dirty shard c = c\<lparr>tc_dirty := (tc_dirty c)[shard := True]\<rparr>"

text \<open>An operation that locks one shard.\<close>

definition on_shard ::
    "'f tx_json \<Rightarrow> io_outcome \<Rightarrow> nat \<Rightarrow> (tx_shard \<Rightarrow> 'a shard_step) \<Rightarrow> 'f tx_coordinator
      \<Rightarrow> (tx_error + 'a) \<times> 'f tx_coordinator" where
  "on_shard json io shard step c =
     (case step (tc_shards c ! shard) of
        (r, s, d) \<Rightarrow>
          (let c1 = c\<lparr>tc_shards := (tc_shards c)[shard := s]\<rparr>
           in case d of
                Unchanged \<Rightarrow> (r, c1)
              | MarkedDirty \<Rightarrow> (r, mark_dirty shard c1)
              | Persisted \<Rightarrow>
                  (case persist_shard json io shard c1 of
                     (Inl e, c2) \<Rightarrow> (Inl e, c2)
                   | (Inr _, c2) \<Rightarrow> (r, c2))))"

definition assign_producer_id :: "string option \<Rightarrow> tx_metadata \<Rightarrow> int \<times> tx_metadata" where
  "assign_producer_id tid md =
     (case Option.bind tid (bt_get (tm_transactional_ids md)) of
        Some pid \<Rightarrow> (pid, md)
      | None \<Rightarrow> (let n = saturating_add_signed 64 (tm_next_producer_id md) 1
                 in (n, md\<lparr>tm_next_producer_id := n\<rparr>)))"

definition tx_init_producer ::
    "'f tx_json \<Rightarrow> (tx_file \<Rightarrow> io_outcome) \<Rightarrow> string option \<Rightarrow> nat \<Rightarrow> nat \<Rightarrow> 'f tx_coordinator
      \<Rightarrow> (tx_error + producer_identity) \<times> 'f tx_coordinator" where
  "tx_init_producer json io tid timeout now c =
     (let (pid, md1) = assign_producer_id tid (tc_metadata c);
          shard = producer_shard pid;
          (epoch, s) = sh_register pid tid timeout now (tc_shards c ! shard);
          md2 = (case tid of None \<Rightarrow> md1
                 | Some t \<Rightarrow> md1\<lparr>tm_transactional_ids := bt_insert t pid (tm_transactional_ids md1)\<rparr>);
          c1 = c\<lparr>tc_metadata := md2, tc_shards := (tc_shards c)[shard := s]\<rparr>
      in case persist_metadata json (io MetadataFile) c1 of
           (Inl e, c2) \<Rightarrow> (Inl e, c2)
         | (Inr _, c2) \<Rightarrow>
             (case persist_shard json (io (ShardFile shard)) shard c2 of
                (Inl e, c3) \<Rightarrow> (Inl e, c3)
              | (Inr _, c3) \<Rightarrow> (Inr \<lparr>pi_producer_id = pid, pi_producer_epoch = epoch\<rparr>, c3)))"

definition tx_add_partitions where
  "tx_add_partitions json io i parts now c =
     on_shard json io (producer_shard (pi_producer_id i)) (sh_add_partitions i parts now) c"

definition tx_prepare_append where
  "tx_prepare_append json io part i c =
     (if bi_producer_id i < 0 then (Inr NonIdempotent, c)
      else if bi_control i \<or> bi_record_count i = 0 \<or> bi_base_sequence i < 0 then (Inl InvalidRecordBatch, c)
      else on_shard json io (producer_shard (bi_producer_id i)) (sh_prepare_append part i) c)"

definition tx_complete_append where
  "tx_complete_append json io part i base final c =
     (if bi_producer_id i < 0 then (Inr (), c)
      else on_shard json io (producer_shard (bi_producer_id i)) (sh_complete_append part i base final) c)"

definition tx_cancel_append where
  "tx_cancel_append json io part i c =
     (if bi_producer_id i < 0 then (Inr (), c)
      else on_shard json io (producer_shard (bi_producer_id i)) (sh_cancel_append part i) c)"

definition tx_stage_offsets where
  "tx_stage_offsets json io i offsets c =
     on_shard json io (producer_shard (pi_producer_id i)) (sh_stage_offsets i offsets) c"

definition tx_end_transaction where
  "tx_end_transaction json io i commit c =
     on_shard json io (producer_shard (pi_producer_id i)) (sh_end_transaction i commit) c"

definition tx_mark_offsets_applied where
  "tx_mark_offsets_applied json io i c =
     on_shard json io (producer_shard (pi_producer_id i)) (sh_mark_offsets_applied i) c"

text \<open>
  \<open>expire\<close> lists the overdue transactions and then aborts them one by one; the outcome of
  each write is indexed by its position.
\<close>

definition expired_producers :: "nat \<Rightarrow> tx_shard \<Rightarrow> producer_identity list" where
  "expired_producers now s =
     List.map_filter (\<lambda>(pid, p).
       if tp_status p = TxOngoing \<and> tp_deadline_ms p \<le> now
       then Some \<lparr>pi_producer_id = pid, pi_producer_epoch = tp_epoch p\<rparr> else None) (ts_producers s)"

fun abort_all ::
    "'f tx_json \<Rightarrow> io_outcome list \<Rightarrow> producer_identity list \<Rightarrow> 'f tx_coordinator \<Rightarrow> (tx_error + unit) \<times> 'f tx_coordinator" where
  "abort_all json ios [] c = (Inr (), c)"
| "abort_all json ios (i # rest) c =
     (case tx_end_transaction json (case ios of [] \<Rightarrow> IoOk | io # _ \<Rightarrow> io) i False c of
        (Inl e, c1) \<Rightarrow> (Inl e, c1)
      | (Inr _, c1) \<Rightarrow> abort_all json (tl ios) rest c1)"

definition tx_expire ::
    "'f tx_json \<Rightarrow> io_outcome list \<Rightarrow> nat \<Rightarrow> 'f tx_coordinator \<Rightarrow> (tx_error + nat) \<times> 'f tx_coordinator" where
  "tx_expire json ios now c =
     (let identities = concat (map (expired_producers now) (tc_shards c))
      in case abort_all json ios identities c of
           (Inl e, c1) \<Rightarrow> (Inl e, c1)
         | (Inr _, c1) \<Rightarrow> (Inr (length identities), c1))"

definition open_first_offsets :: "tx_partition \<Rightarrow> tx_shard \<Rightarrow> nat list" where
  "open_first_offsets part s =
     List.map_filter (\<lambda>p. Option.bind (bt_get (tp_sequences p) part) sq_first_transaction_offset)
       (filter (\<lambda>p. tp_status p = TxOngoing) (bt_values (ts_producers s)))"

definition tx_last_stable_offset :: "tx_partition \<Rightarrow> nat \<Rightarrow> 'f tx_coordinator \<Rightarrow> nat" where
  "tx_last_stable_offset part high_watermark c =
     (case fold (\<lambda>s minimum. list_min (open_first_offsets part s @ (case minimum of None \<Rightarrow> [] | Some m \<Rightarrow> [m])))
             (tc_shards c) None of
        None \<Rightarrow> high_watermark | Some m \<Rightarrow> m)"

definition tx_aborted_ranges :: "tx_partition \<Rightarrow> nat \<Rightarrow> nat \<Rightarrow> 'f tx_coordinator \<Rightarrow> aborted_range list" where
  "tx_aborted_ranges part from through c =
     sort_key (\<lambda>r. (ar_first_offset r, ar_producer_id r))
       (concat (map (\<lambda>s. filter (\<lambda>r. from \<le> ar_last_offset r \<and> ar_first_offset r < through)
          (case bt_get (ts_aborted s) part of None \<Rightarrow> [] | Some rs \<Rightarrow> rs)) (tc_shards c)))"

definition tx_lookup_producer :: "int \<Rightarrow> 'f tx_coordinator \<Rightarrow> tx_producer option" where
  "tx_lookup_producer pid c = bt_get (ts_producers (tc_shards c ! producer_shard pid)) pid"

definition tx_pending_committed_offsets :: "'f tx_coordinator \<Rightarrow> (producer_identity \<times> pending_offset list) list" where
  "tx_pending_committed_offsets c =
     sort_key (\<lambda>(i, _). pi_producer_id i)
       (concat (map (\<lambda>s. List.map_filter (\<lambda>(pid, p).
          if tp_status p = TxCommitted \<and> \<not> tp_offsets_applied p \<and> tp_pending_offsets p \<noteq> []
          then Some (\<lparr>pi_producer_id = pid, pi_producer_epoch = tp_epoch p\<rparr>, tp_pending_offsets p)
          else None) (ts_producers s)) (tc_shards c)))"

fun recover_shards where
  "recover_shards json ios part batches [] c = (Inr (), c)"
| "recover_shards json ios part batches (shard # rest) c =
     (case on_shard json (ios shard) shard (sh_recover_partition shard part batches) c of
        (Inl e, c1) \<Rightarrow> (Inl e, c1)
      | (Inr _, c1) \<Rightarrow> recover_shards json ios part batches rest c1)"

definition tx_recover_partition ::
    "'f tx_json \<Rightarrow> (nat \<Rightarrow> io_outcome) \<Rightarrow> tx_partition \<Rightarrow> (batch_identity \<times> nat \<times> nat) list
      \<Rightarrow> 'f tx_coordinator \<Rightarrow> (tx_error + unit) \<times> 'f tx_coordinator" where
  "tx_recover_partition json ios part batches c =
     recover_shards json ios part batches [0..<length (tc_shards c)] c"

definition tx_validate_transaction :: "producer_identity \<Rightarrow> string \<Rightarrow> 'f tx_coordinator \<Rightarrow> tx_error + unit" where
  "tx_validate_transaction i tid c =
     (case producer_ref (tc_shards c ! producer_shard (pi_producer_id i)) i of
        Inl e \<Rightarrow> Inl e
      | Inr p \<Rightarrow>
          if tp_transactional_id p \<noteq> Some tid then Inl FencedProducer
          else if tp_status p \<noteq> TxOngoing then Inl InvalidTransactionState
          else Inr ())"

fun flush_shards ::
    "'f tx_json \<Rightarrow> (nat \<Rightarrow> io_outcome) \<Rightarrow> nat list \<Rightarrow> nat \<Rightarrow> 'f tx_coordinator \<Rightarrow> (tx_error + nat) \<times> 'f tx_coordinator" where
  "flush_shards json ios [] flushed c = (Inr flushed, c)"
| "flush_shards json ios (shard # rest) flushed c =
     (if \<not> tc_dirty c ! shard then flush_shards json ios rest flushed c
      else let c1 = c\<lparr>tc_dirty := (tc_dirty c)[shard := False]\<rparr>
           in case persist_shard json (ios shard) shard c1 of
                (Inl e, c2) \<Rightarrow> (Inl e, mark_dirty shard c2)
              | (Inr _, c2) \<Rightarrow> flush_shards json ios rest (flushed + 1) c2)"

definition tx_flush_dirty ::
    "'f tx_json \<Rightarrow> (nat \<Rightarrow> io_outcome) \<Rightarrow> 'f tx_coordinator \<Rightarrow> (tx_error + nat) \<times> 'f tx_coordinator" where
  "tx_flush_dirty json ios c = flush_shards json ios [0..<length (tc_shards c)] 0 c"

text \<open>
  \<open>open\<close>: the snapshot files, or the single file of the first format when no snapshot exists
  yet. An import is persisted, metadata first, and then the old file is renamed away.
\<close>

fun read_shards :: "'f tx_json \<Rightarrow> 'f option list \<Rightarrow> tx_error + tx_shard list" where
  "read_shards json [] = Inr []"
| "read_shards json (file # files) =
     (case (case file of None \<Rightarrow> Inr tx_shard_default
            | Some f \<Rightarrow> (case tj_read_shard json f of Inl m \<Rightarrow> Inl (TxCodec m) | Inr s \<Rightarrow> Inr s)) of
        Inl e \<Rightarrow> Inl e
      | Inr s \<Rightarrow> (case read_shards json files of Inl e \<Rightarrow> Inl e | Inr ss \<Rightarrow> Inr (s # ss)))"

definition import_legacy :: "(char list \<Rightarrow> nat) \<Rightarrow> tx_legacy \<Rightarrow> tx_shard list \<Rightarrow> tx_shard list" where
  "import_legacy digest old shards =
     fold (\<lambda>(part, ranges) ss.
         (let k = partition_shard digest part
          in ss[k := (ss ! k)\<lparr>ts_aborted := bt_insert part ranges (ts_aborted (ss ! k))\<rparr>]))
       (tl_aborted old)
       (fold (\<lambda>(pid, p) ss. (let k = producer_shard pid in ss[k := put_producer pid p (ss ! k)]))
         (tl_producers old) shards)"

fun persist_all_shards ::
    "'f tx_json \<Rightarrow> (tx_file \<Rightarrow> io_outcome) \<Rightarrow> nat list \<Rightarrow> 'f tx_coordinator \<Rightarrow> (tx_error + unit) \<times> 'f tx_coordinator" where
  "persist_all_shards json io [] c = (Inr (), c)"
| "persist_all_shards json io (shard # rest) c =
     (case persist_shard json (io (ShardFile shard)) shard c of
        (Inl e, c1) \<Rightarrow> (Inl e, c1)
      | (Inr _, c1) \<Rightarrow> persist_all_shards json io rest c1)"

definition read_legacy :: "'f tx_json \<Rightarrow> 'f tx_files \<Rightarrow> tx_error + tx_legacy option" where
  "read_legacy json files =
     (case tf_legacy files of
        Some f \<Rightarrow>
          if tf_metadata files = None \<and> tf_shards files ! 0 = None
          then (case tj_read_legacy json f of Inl m \<Rightarrow> Inl (TxCodec m) | Inr l \<Rightarrow> Inr (Some l))
          else Inr None
      | None \<Rightarrow> Inr None)"

definition read_metadata :: "'f tx_json \<Rightarrow> 'f option \<Rightarrow> tx_legacy option \<Rightarrow> tx_error + tx_metadata" where
  "read_metadata json file old =
     (case file of
        Some f \<Rightarrow> (case tj_read_metadata json f of Inl m \<Rightarrow> Inl (TxCodec m) | Inr md \<Rightarrow> Inr md)
      | None \<Rightarrow>
          (case old of
             Some l \<Rightarrow> Inr \<lparr>tm_next_producer_id = tl_next_producer_id l, tm_transactional_ids = tl_transactional_ids l\<rparr>
           | None \<Rightarrow> Inr tx_metadata_default))"

text \<open>The result is paired with the files it leaves, which a failed import has changed too.\<close>

definition finish_import ::
    "'f tx_json \<Rightarrow> (tx_file \<Rightarrow> io_outcome) \<Rightarrow> io_outcome \<Rightarrow> 'f tx_coordinator
      \<Rightarrow> (tx_error + 'f tx_coordinator) \<times> 'f tx_files" where
  "finish_import json io rename_io c =
     (case persist_metadata json (io MetadataFile) c of
        (Inl e, c1) \<Rightarrow> (Inl e, tc_files c1)
      | (Inr _, c1) \<Rightarrow>
          (case persist_all_shards json io [0..<transaction_shards] c1 of
             (Inl e, c2) \<Rightarrow> (Inl e, tc_files c2)
           | (Inr _, c2) \<Rightarrow>
               (let c3 = c2\<lparr>tc_files := (tc_files c2)\<lparr>tf_legacy := None\<rparr>\<rparr>
                in case rename_io of
                     IoOk \<Rightarrow> (Inr c3, tc_files c3)
                   | IoFailedBefore \<Rightarrow> (Inl TxIo, tc_files c2)
                   | IoFailedAfter \<Rightarrow> (Inl TxIo, tc_files c3))))"

definition tx_open ::
    "(char list \<Rightarrow> nat) \<Rightarrow> 'f tx_json \<Rightarrow> (tx_file \<Rightarrow> io_outcome) \<Rightarrow> io_outcome \<Rightarrow> 'f tx_files
      \<Rightarrow> (tx_error + 'f tx_coordinator) \<times> 'f tx_files" where
  "tx_open digest json io rename_io files =
     (case read_legacy json files of
        Inl e \<Rightarrow> (Inl e, files)
      | Inr old \<Rightarrow>
          (case read_metadata json (tf_metadata files) old of
             Inl e \<Rightarrow> (Inl e, files)
           | Inr md \<Rightarrow>
               (case read_shards json (tf_shards files) of
                  Inl e \<Rightarrow> (Inl e, files)
                | Inr shards \<Rightarrow>
                    (let c = (\<lambda>ss. \<lparr>tc_metadata = md, tc_shards = ss,
                                      tc_dirty = replicate transaction_shards False, tc_files = files\<rparr>)
                     in case old of
                          None \<Rightarrow> (Inr (c shards), files)
                        | Some l \<Rightarrow> finish_import json io rename_io (c (import_legacy digest l shards))))))"

section \<open>Laws of the codec and of the shard steps\<close>

lemma digit_value_digit_char: "d < 10 \<Longrightarrow> digit_value (digit_char d) = Some d"
  by (simp add: digit_value_def digit_char_def code_in_def)

lemma parse_digits_append:
  "parse_digits limit acc (xs @ ys) =
     (case parse_digits limit acc xs of None \<Rightarrow> None | Some n \<Rightarrow> parse_digits limit n ys)"
  by (induction limit acc xs rule: parse_digits.induct) (auto split: option.splits)

lemma parse_digits_show_nat: "n < limit \<Longrightarrow> parse_digits limit 0 (show_nat n) = Some n"
proof (induction n rule: show_nat.induct)
  case (1 n)
  show ?case
  proof (cases "n < 10")
    case True
    then show ?thesis using 1 by (simp add: show_nat.simps [of n] digit_value_digit_char)
  next
    case False
    have "n div 10 < limit" using 1(2) by simp
    then show ?thesis
      using 1 False by (simp add: show_nat.simps [of n] parse_digits_append digit_value_digit_char)
  qed
qed

lemma parse_magnitude_show_nat [simp]: "n < limit \<Longrightarrow> parse_magnitude limit (show_nat n) = Some n"
  by (simp add: parse_magnitude_def parse_digits_show_nat)

lemma show_nat_head: "\<exists>c cs. show_nat n = c # cs \<and> code_in 48 57 c"
  using show_nat_digits [of "hd (show_nat n)" n] by (cases "show_nat n") auto

lemma parse_usize_show_nat: "n < 2 ^ 64 \<Longrightarrow> parse_usize (show_nat n) = Some n"
proof -
  assume n: "n < 2 ^ 64"
  obtain c cs where s: "show_nat n = c # cs" "code_in 48 57 c" using show_nat_head by blast
  then have "c \<noteq> CHR ''+''" by (auto simp: code_in_def)
  then show ?thesis using parse_magnitude_show_nat [OF n] s by (auto simp: parse_usize_def)
qed

lemma parse_i32_show_int: "- (2 ^ 31) \<le> i \<Longrightarrow> i < 2 ^ 31 \<Longrightarrow> parse_i32 (show_int i) = Some i"
proof (cases "i < 0")
  case True
  assume "- (2 ^ 31) \<le> i"
  then have "parse_magnitude (2 ^ 31 + 1) (show_nat (nat (- i))) = Some (nat (- i))"
    using True by (intro parse_magnitude_show_nat) simp
  then show ?thesis using True by (simp add: parse_i32_def show_int_def)
next
  case False
  assume "i < 2 ^ 31"
  then have m: "parse_magnitude (2 ^ 31) (show_nat (nat i)) = Some (nat i)"
    using False by (intro parse_magnitude_show_nat) simp
  obtain c cs where s: "show_nat (nat i) = c # cs" "code_in 48 57 c" using show_nat_head by blast
  then have "c \<noteq> CHR ''+''" "c \<noteq> CHR ''-''" by (auto simp: code_in_def)
  then show ?thesis using m s False by (auto simp: parse_i32_def show_int_def)
qed

lemma split_once_show_nat: "split_once (CHR '':'') (show_nat n @ CHR '':'' # rest) = Some (show_nat n, rest)"
proof -
  have "\<forall>c \<in> set (show_nat n). c \<noteq> CHR '':''" using show_nat_digits by (fastforce simp: code_in_def)
  then show ?thesis by (simp add: split_once_def dropWhile_append takeWhile_append)
qed

text \<open>
  A transaction partition key survives its textual encoding: for every topic, whatever
  bytes or separators it contains, and every 32-bit partition index, decoding
  \<open>length:topic:partition\<close> gives back the pair, with no error and no panic.
\<close>

lemma partition_codec_roundtrip:
  assumes "length (fst p) < 2 ^ 64" and "- (2 ^ 31) \<le> snd p" and "snd p < 2 ^ 31"
  shows "deserialize_partition (serialize_partition p) = Inr p"
proof -
  let ?r = "fst p @ CHR '':'' # show_int (snd p)"
  have "split_once (CHR '':'') (serialize_partition p) = Some (show_nat (length (fst p)), ?r)"
    by (simp add: serialize_partition_def split_once_show_nat)
  moreover have "is_char_boundary ?r (length (fst p))"
    by (simp add: is_char_boundary_def code_in_def nth_append)
  ultimately show ?thesis
    using assms by (simp add: deserialize_partition_def parse_usize_show_nat parse_i32_show_int)
qed

lemma partition_codec_roundtrip_witness:
  "deserialize_partition (serialize_partition (''a:b'', - 7)) = Inr (''a:b'', - 7)"
  using partition_codec_roundtrip [of "(''a:b'', - 7)"] by simp

lemma producer_shard_less [simp]: "producer_shard pid < 32"
  by (simp add: producer_shard_def transaction_shards_def nat_less_iff)

lemma shards_persist_metadata [simp]: "tc_shards (snd (persist_metadata json io c)) = tc_shards c"
  by (simp add: persist_metadata_def split: prod.split)

lemma shards_persist_shard [simp]: "tc_shards (snd (persist_shard json io k c)) = tc_shards c"
  by (simp add: persist_shard_def split: prod.split)

lemma shards_on_shard:
  "tc_shards (snd (on_shard json io k f c)) = (tc_shards c)[k := fst (snd (f (tc_shards c ! k)))]"
proof -
  obtain r s d where f: "f (tc_shards c ! k) = (r, s, d)" by (metis prod_cases3)
  let ?c = "c\<lparr>tc_shards := (tc_shards c)[k := s]\<rparr>"
  obtain r' c' where p: "persist_shard json io k ?c = (r', c')" by fastforce
  then have "tc_shards c' = (tc_shards c)[k := s]" using shards_persist_shard [of json io k ?c] by simp
  then show ?thesis by (cases d; cases r') (simp_all add: on_shard_def f p mark_dirty_def)
qed

lemma shards_init_producer:
  "tc_shards (snd (tx_init_producer json io tid timeout now c)) =
     (let pid = fst (assign_producer_id tid (tc_metadata c)); k = producer_shard pid
      in (tc_shards c)[k := snd (sh_register pid tid timeout now (tc_shards c ! k))])"
proof -
  obtain pid md where a: "assign_producer_id tid (tc_metadata c) = (pid, md)" by fastforce
  obtain epoch s where r: "sh_register pid tid timeout now (tc_shards c ! producer_shard pid) = (epoch, s)" by fastforce
  let ?md = "case tid of None \<Rightarrow> md | Some t \<Rightarrow> md\<lparr>tm_transactional_ids := bt_insert t pid (tm_transactional_ids md)\<rparr>"
  let ?c = "c\<lparr>tc_metadata := ?md, tc_shards := (tc_shards c)[producer_shard pid := s]\<rparr>"
  obtain r1 c1 where p1: "persist_metadata json (io MetadataFile) ?c = (r1, c1)" by fastforce
  obtain r2 c2 where p2: "persist_shard json (io (ShardFile (producer_shard pid))) (producer_shard pid) c1 = (r2, c2)"
    by fastforce
  have "tc_shards c1 = (tc_shards c)[producer_shard pid := s]"
    using shards_persist_metadata [of json "io MetadataFile" ?c] p1 by simp
  moreover have "tc_shards c2 = tc_shards c1"
    using shards_persist_shard [of json "io (ShardFile (producer_shard pid))" "producer_shard pid" c1] p2 by simp
  ultimately show ?thesis
    unfolding tx_init_producer_def a r Let_def prod.case p1 by (cases r1; cases r2) (simp_all add: p2 r)
qed

end
