(* ===== verification/Transaction_Isolation.thy ===== *)
theory Transaction_Isolation
  imports Transactions
begin

text \<open>
  Isolation of transactional data. The coordinator runs beside the partition logs of
  \<open>crates/pepper-kafka/src/lib.rs\<close>: \<open>append_records\<close> prepares a batch, appends it to the log
  and completes it (or cancels it when the append failed). The state below adds to the
  coordinator what the logs know: the batches in flight, the end of each log, the batches of
  the transactions still open and those of the aborted ones. It is shown that a reader who
  stops at the last stable offset and skips the reported aborted ranges sees neither.
\<close>

section \<open>The coordinator beside the logs\<close>

record 'f iso_state =
  is_coord :: "'f tx_coordinator"
  is_inflight :: "(tx_partition \<times> batch_identity) list"
  is_end :: "tx_partition \<Rightarrow> nat"
  is_open :: "(int \<times> tx_partition \<times> nat \<times> nat) list"
  is_aborted :: "(int \<times> tx_partition \<times> nat \<times> nat) list"

definition iso_init :: "'f iso_state \<Rightarrow> bool" where
  "iso_init s \<longleftrightarrow> tc_shards (is_coord s) = replicate transaction_shards tx_shard_default \<and>
     is_inflight s = [] \<and> is_open s = [] \<and> is_aborted s = []"

definition ends_transaction :: "'f tx_coordinator \<Rightarrow> producer_identity \<Rightarrow> bool" where
  "ends_transaction c i =
     (case producer_ref (tc_shards c ! producer_shard (pi_producer_id i)) i of
        Inl _ \<Rightarrow> False | Inr p \<Rightarrow> tp_status p = TxOngoing)"

definition idle :: "'f iso_state \<Rightarrow> int \<Rightarrow> bool" where
  "idle s pid \<longleftrightarrow> list_all (\<lambda>(part, i). bi_producer_id i \<noteq> pid) (is_inflight s)"

definition not_ongoing :: "'f tx_coordinator \<Rightarrow> int \<Rightarrow> bool" where
  "not_ongoing c pid = (case tx_lookup_producer pid c of None \<Rightarrow> True | Some p \<Rightarrow> tp_status p \<noteq> TxOngoing)"

text \<open>
  Two rules carry a side condition that the code does not check: a transaction is ended, and
  a producer registered again, only while none of its batches is in flight, and a producer is
  not registered again in the middle of a transaction. The lemmas at the end of this theory
  show what happens otherwise. An expiry is a sequence of aborts.
\<close>

inductive iso_step :: "'f tx_json \<Rightarrow> 'f iso_state \<Rightarrow> 'f iso_state \<Rightarrow> bool" for json where
  register: "not_ongoing (is_coord s) (fst (assign_producer_id tid (tc_metadata (is_coord s)))) \<Longrightarrow>
     idle s (fst (assign_producer_id tid (tc_metadata (is_coord s)))) \<Longrightarrow>
     iso_step json s (s\<lparr>is_coord := snd (tx_init_producer json io tid timeout now (is_coord s))\<rparr>)"
| add_partitions: "iso_step json s (s\<lparr>is_coord := snd (tx_add_partitions json io1 pid parts now (is_coord s))\<rparr>)"
| stage: "iso_step json s (s\<lparr>is_coord := snd (tx_stage_offsets json io1 pid offsets (is_coord s))\<rparr>)"
| applied: "iso_step json s (s\<lparr>is_coord := snd (tx_mark_offsets_applied json io1 pid (is_coord s))\<rparr>)"
| prepare: "tx_prepare_append json io1 part i (is_coord s) = (r, c) \<Longrightarrow>
     iso_step json s (s\<lparr>is_coord := c,
       is_inflight := (if r = Inr AppendBatch then (part, i) # is_inflight s else is_inflight s)\<rparr>)"
| complete: "(part, i) \<in> set (is_inflight s) \<Longrightarrow> is_end s part \<le> base \<Longrightarrow> base \<le> final \<Longrightarrow>
     iso_step json s (s\<lparr>is_coord := snd (tx_complete_append json io1 part i base final (is_coord s)),
       is_inflight := remove1 (part, i) (is_inflight s),
       is_end := (is_end s)(part := final + 1),
       is_open := (if bi_transactional i then (bi_producer_id i, part, base, final) # is_open s else is_open s)\<rparr>)"
| cancel: "(part, i) \<in> set (is_inflight s) \<Longrightarrow>
     iso_step json s (s\<lparr>is_coord := snd (tx_cancel_append json io1 part i (is_coord s)),
       is_inflight := remove1 (part, i) (is_inflight s)\<rparr>)"
| commit: "idle s (pi_producer_id pid) \<Longrightarrow>
     iso_step json s (s\<lparr>is_coord := snd (tx_end_transaction json io1 pid True (is_coord s)),
       is_open := (if ends_transaction (is_coord s) pid
                   then filter (\<lambda>b. fst b \<noteq> pi_producer_id pid) (is_open s) else is_open s)\<rparr>)"
| abort: "idle s (pi_producer_id pid) \<Longrightarrow>
     iso_step json s (s\<lparr>is_coord := snd (tx_end_transaction json io1 pid False (is_coord s)),
       is_open := (if ends_transaction (is_coord s) pid
                   then filter (\<lambda>b. fst b \<noteq> pi_producer_id pid) (is_open s) else is_open s),
       is_aborted := (if ends_transaction (is_coord s) pid
                   then filter (\<lambda>b. fst b = pi_producer_id pid) (is_open s) @ is_aborted s else is_aborted s)\<rparr>)"

section \<open>Invariant\<close>

definition seq_of :: "tx_shard list \<Rightarrow> int \<Rightarrow> tx_partition \<Rightarrow> (tx_producer \<times> sequence_state) option" where
  "seq_of ss pid part =
     (case bt_get (ts_producers (ss ! producer_shard pid)) pid of
        None \<Rightarrow> None
      | Some p \<Rightarrow> map_option (Pair p) (bt_get (tp_sequences p) part))"

definition ranges_of :: "tx_shard list \<Rightarrow> int \<Rightarrow> tx_partition \<Rightarrow> aborted_range list" where
  "ranges_of ss pid part = (case bt_get (ts_aborted (ss ! producer_shard pid)) part of None \<Rightarrow> [] | Some rs \<Rightarrow> rs)"

definition open_ok :: "tx_shard list \<Rightarrow> (tx_partition \<Rightarrow> nat) \<Rightarrow> int \<times> tx_partition \<times> nat \<times> nat \<Rightarrow> bool" where
  "open_ok ss ends = (\<lambda>(pid, part, b, l). b \<le> l \<and> l < ends part \<and>
     (\<exists>p q f. seq_of ss pid part = Some (p, q) \<and> tp_status p = TxOngoing \<and>
        sq_first_transaction_offset q = Some f \<and> f \<le> b \<and> l \<le> sq_last_offset q))"

definition inflight_ok :: "tx_shard list \<Rightarrow> tx_partition \<times> batch_identity \<Rightarrow> bool" where
  "inflight_ok ss = (\<lambda>(part, i). 0 \<le> bi_producer_id i \<and>
     (\<exists>p q. seq_of ss (bi_producer_id i) part = Some (p, q) \<and> tp_epoch p = bi_producer_epoch i \<and>
        sq_pending q = Some (bi_base_sequence i, bi_record_count i) \<and>
        (bi_transactional i \<longrightarrow> tp_status p = TxOngoing)))"

definition aborted_ok :: "tx_shard list \<Rightarrow> int \<times> tx_partition \<times> nat \<times> nat \<Rightarrow> bool" where
  "aborted_ok ss = (\<lambda>(pid, part, b, l). b \<le> l \<and>
     (\<exists>r \<in> set (ranges_of ss pid part). ar_producer_id r = pid \<and> ar_first_offset r \<le> b \<and> l \<le> ar_last_offset r))"

definition firsts_ok :: "tx_shard list \<Rightarrow> (tx_partition \<Rightarrow> nat) \<Rightarrow> bool" where
  "firsts_ok ss ends \<longleftrightarrow> (\<forall>pid part p q f. seq_of ss pid part = Some (p, q) \<longrightarrow>
     sq_first_transaction_offset q = Some f \<longrightarrow> f < ends part)"

definition inflight_key :: "tx_partition \<times> batch_identity \<Rightarrow> int \<times> tx_partition" where
  "inflight_key e = (bi_producer_id (snd e), fst e)"

definition iso_core ::
    "tx_shard list \<Rightarrow> (tx_partition \<Rightarrow> nat) \<Rightarrow> (int \<times> tx_partition \<times> nat \<times> nat) list
      \<Rightarrow> (int \<times> tx_partition \<times> nat \<times> nat) list \<Rightarrow> bool" where
  "iso_core ss ends opened aborted \<longleftrightarrow> length ss = transaction_shards \<and> firsts_ok ss ends \<and>
     (\<forall>e \<in> set opened. open_ok ss ends e) \<and> (\<forall>e \<in> set aborted. aborted_ok ss e)"

definition inflights_ok :: "tx_shard list \<Rightarrow> (tx_partition \<times> batch_identity) list \<Rightarrow> bool" where
  "inflights_ok ss es \<longleftrightarrow> distinct (map inflight_key es) \<and> (\<forall>e \<in> set es. inflight_ok ss e)"

definition iso_inv :: "'f iso_state \<Rightarrow> bool" where
  "iso_inv s \<longleftrightarrow> iso_core (tc_shards (is_coord s)) (is_end s) (is_open s) (is_aborted s) \<and>
     inflights_ok (tc_shards (is_coord s)) (is_inflight s)"

text \<open>
  A producer update that moves no transaction: epoch and open status stay, and each sequence
  entry keeps its transaction offsets and, in the strict form, its marker.
\<close>

definition same_offsets :: "sequence_state \<Rightarrow> sequence_state \<Rightarrow> bool" where
  "same_offsets q q' \<longleftrightarrow> sq_first_transaction_offset q' = sq_first_transaction_offset q \<and> sq_last_offset q' = sq_last_offset q"

definition keeps :: "tx_producer \<Rightarrow> tx_producer \<Rightarrow> bool" where
  "keeps p p' \<longleftrightarrow> tp_epoch p' = tp_epoch p \<and> (tp_status p = TxOngoing \<longrightarrow> tp_status p' = TxOngoing) \<and>
     (\<forall>part q. bt_get (tp_sequences p) part = Some q \<longrightarrow>
        (\<exists>q'. bt_get (tp_sequences p') part = Some q' \<and> same_offsets q q')) \<and>
     (\<forall>part q'. bt_get (tp_sequences p') part = Some q' \<longrightarrow> sq_first_transaction_offset q' \<noteq> None \<longrightarrow>
        (\<exists>q. bt_get (tp_sequences p) part = Some q \<and> same_offsets q q'))"

definition keeps_pending :: "tx_producer \<Rightarrow> tx_producer \<Rightarrow> tx_partition \<Rightarrow> bool" where
  "keeps_pending p p' part \<longleftrightarrow> (\<forall>q. bt_get (tp_sequences p) part = Some q \<longrightarrow>
     (\<exists>q'. bt_get (tp_sequences p') part = Some q' \<and> sq_pending q' = sq_pending q))"

lemma producer_ref_get: "producer_ref s i = Inr p \<Longrightarrow> bt_get (ts_producers s) (pi_producer_id i) = Some p"
  by (auto simp: producer_ref_def split: option.splits if_splits)

lemma producer_ref_epoch: "producer_ref s i = Inr p \<Longrightarrow> tp_epoch p = pi_producer_epoch i"
  by (auto simp: producer_ref_def split: option.splits if_splits)

lemma keeps_fields: "tp_epoch p' = tp_epoch p \<Longrightarrow> tp_sequences p' = tp_sequences p \<Longrightarrow>
    (tp_status p = TxOngoing \<Longrightarrow> tp_status p' = TxOngoing) \<Longrightarrow> keeps p p'"
  by (simp add: keeps_def same_offsets_def)

lemma keeps_put_sequence:
  assumes "same_offsets (sequence_entry part p) q"
  shows "keeps p (put_sequence part q p)"
  using assms by (auto simp: keeps_def put_sequence_def same_offsets_def sequence_entry_def sequence_default_def split: option.splits)

lemma seq_of_put:
  assumes "length ss = transaction_shards"
  shows "seq_of (ss[producer_shard pid := put_producer pid p' (ss ! producer_shard pid)]) pid' part =
    (if pid' = pid then map_option (Pair p') (bt_get (tp_sequences p') part) else seq_of ss pid' part)"
  using assms by (auto simp: seq_of_def put_producer_def transaction_shards_def nth_list_update)

lemma ranges_of_put:
  assumes "length ss = transaction_shards"
  shows "ranges_of (ss[producer_shard pid := put_producer pid p' (ss ! producer_shard pid)]) pid' part = ranges_of ss pid' part"
  using assms by (auto simp: ranges_of_def put_producer_def transaction_shards_def nth_list_update)

lemma seq_of_Some: "seq_of ss pid part = Some (p, q) \<longleftrightarrow>
    bt_get (ts_producers (ss ! producer_shard pid)) pid = Some p \<and> bt_get (tp_sequences p) part = Some q"
  by (auto simp: seq_of_def split: option.splits)

lemma firsts_okD: "firsts_ok ss ends \<Longrightarrow> seq_of ss pid part = Some (p, q) \<Longrightarrow>
    sq_first_transaction_offset q = Some f \<Longrightarrow> f < ends part"
  unfolding firsts_ok_def by blast

lemma iso_core_put:
  assumes core: "iso_core ss ends opened aborted"
    and p: "bt_get (ts_producers (ss ! producer_shard pid)) pid = Some p" and k: "keeps p p'"
  shows "iso_core (ss[producer_shard pid := put_producer pid p' (ss ! producer_shard pid)]) ends opened aborted"
proof -
  let ?ss = "ss[producer_shard pid := put_producer pid p' (ss ! producer_shard pid)]"
  have len: "length ss = transaction_shards" using core by (simp add: iso_core_def)
  have "f < ends part" if q: "seq_of ?ss pid' part = Some (x, q)" and f: "sq_first_transaction_offset q = Some f"
    for pid' part x q f
  proof (cases "pid' = pid")
    case True
    then have "bt_get (tp_sequences p') part = Some q" using q by (auto simp: seq_of_put [OF len])
    then obtain q0 where "bt_get (tp_sequences p) part = Some q0" "same_offsets q0 q"
      using k f unfolding keeps_def by blast
    then show ?thesis
      using core p f True firsts_okD [of ss ends pid part p q0 f]
      by (simp add: seq_of_Some same_offsets_def iso_core_def)
  next
    case False
    then show ?thesis
      using q f core firsts_okD [of ss ends pid' part x q f] by (simp add: iso_core_def seq_of_put [OF len])
  qed
  then have "firsts_ok ?ss ends" by (simp add: firsts_ok_def)
  moreover have "open_ok ?ss ends e" if e: "open_ok ss ends e" for e
  proof -
    obtain pid' part b l where e4: "e = (pid', part, b, l)" by (metis prod_cases4)
    then obtain x q f where q: "seq_of ss pid' part = Some (x, q)" "tp_status x = TxOngoing"
        "sq_first_transaction_offset q = Some f" "f \<le> b" "l \<le> sq_last_offset q" "b \<le> l" "l < ends part"
      using e by (auto simp: open_ok_def)
    show ?thesis
    proof (cases "pid' = pid")
      case True
      then have "x = p" "bt_get (tp_sequences p) part = Some q" using q(1) p by (auto simp: seq_of_Some)
      then obtain q' where "bt_get (tp_sequences p') part = Some q'" "same_offsets q q'" "tp_status p' = TxOngoing"
        using k q(2) unfolding keeps_def by blast
      then show ?thesis using q True by (simp add: e4 open_ok_def seq_of_put [OF len] same_offsets_def)
    next
      case False
      then show ?thesis using q by (simp add: e4 open_ok_def seq_of_put [OF len])
    qed
  qed
  moreover have "aborted_ok ?ss e" if "aborted_ok ss e" for e
    using that by (simp add: aborted_ok_def ranges_of_put [OF len] split: prod.splits)
  ultimately show ?thesis using core by (simp add: iso_core_def)
qed

lemma inflight_ok_put:
  assumes len: "length ss = transaction_shards" and e: "inflight_ok ss e"
    and p: "bt_get (ts_producers (ss ! producer_shard pid)) pid = Some p"
    and k: "tp_epoch p' = tp_epoch p" "tp_status p = TxOngoing \<Longrightarrow> tp_status p' = TxOngoing"
    and pend: "bi_producer_id (snd e) = pid \<Longrightarrow> keeps_pending p p' (fst e)"
  shows "inflight_ok (ss[producer_shard pid := put_producer pid p' (ss ! producer_shard pid)]) e"
proof -
  obtain part i where e2: "e = (part, i)" by fastforce
  obtain x q where q: "seq_of ss (bi_producer_id i) part = Some (x, q)" "tp_epoch x = bi_producer_epoch i"
      "sq_pending q = Some (bi_base_sequence i, bi_record_count i)" "bi_transactional i \<longrightarrow> tp_status x = TxOngoing"
      "0 \<le> bi_producer_id i"
    using e by (auto simp: e2 inflight_ok_def)
  show ?thesis
  proof (cases "bi_producer_id i = pid")
    case True
    then have "x = p" "bt_get (tp_sequences p) part = Some q" using q(1) p by (auto simp: seq_of_Some)
    then obtain q' where "bt_get (tp_sequences p') part = Some q'" "sq_pending q' = sq_pending q"
      using pend True unfolding keeps_pending_def e2 by auto
    then show ?thesis using q True k \<open>x = p\<close> by (simp add: e2 inflight_ok_def seq_of_put [OF len])
  next
    case False
    then show ?thesis using q by (simp add: e2 inflight_ok_def seq_of_put [OF len])
  qed
qed

lemma iso_coreD: "iso_core ss ends opened aborted \<Longrightarrow> length ss = transaction_shards"
  by (simp add: iso_core_def)

section \<open>Each step\<close>

text \<open>Steps that touch neither offsets nor markers.\<close>

definition quiet :: "int \<Rightarrow> tx_shard \<Rightarrow> tx_shard \<Rightarrow> bool" where
  "quiet pid s s' \<longleftrightarrow> s' = s \<or>
     (\<exists>p p'. bt_get (ts_producers s) pid = Some p \<and> s' = put_producer pid p' s \<and> keeps p p' \<and> (\<forall>part. keeps_pending p p' part))"

lemma quietI: "bt_get (ts_producers s) pid = Some p \<Longrightarrow> tp_epoch p' = tp_epoch p \<Longrightarrow>
    tp_sequences p' = tp_sequences p \<Longrightarrow> (tp_status p = TxOngoing \<Longrightarrow> tp_status p' = TxOngoing) \<Longrightarrow>
    quiet pid s (put_producer pid p' s)"
  unfolding quiet_def using keeps_fields [of p' p] by (auto simp: keeps_pending_def)

lemma quiet_refl [simp]: "quiet pid s s"
  by (simp add: quiet_def)

lemma quiet_add_partitions: "quiet (pi_producer_id i) s (fst (snd (sh_add_partitions i parts now s)))"
  by (auto simp: sh_add_partitions_def dest!: producer_ref_get intro: quietI split: sum.split)

lemma quiet_stage_offsets: "quiet (pi_producer_id i) s (fst (snd (sh_stage_offsets i offsets s)))"
  by (auto simp: sh_stage_offsets_def dest!: producer_ref_get intro: quietI split: sum.split)

lemma quiet_mark_applied: "quiet (pi_producer_id i) s (fst (snd (sh_mark_offsets_applied i s)))"
  by (auto simp: sh_mark_offsets_applied_def dest!: producer_ref_get intro: quietI split: sum.split)

lemma iso_inv_quiet:
  assumes inv: "iso_inv s" and q: "\<And>sh. quiet pid sh (fst (snd (f sh)))"
  shows "iso_inv (s\<lparr>is_coord := snd (on_shard json io (producer_shard pid) f (is_coord s))\<rparr>)"
proof -
  let ?ss = "tc_shards (is_coord s)"
  let ?k = "producer_shard pid"
  consider "fst (snd (f (?ss ! ?k))) = ?ss ! ?k"
    | p p' where "bt_get (ts_producers (?ss ! ?k)) pid = Some p" "fst (snd (f (?ss ! ?k))) = put_producer pid p' (?ss ! ?k)"
        "keeps p p'" "\<forall>part. keeps_pending p p' part"
    using q [of "?ss ! ?k"] unfolding quiet_def by blast
  then show ?thesis
  proof cases
    case 1
    then show ?thesis using inv by (simp add: iso_inv_def shards_on_shard)
  next
    case 2
    then show ?thesis
      using inv iso_core_put [of ?ss _ _ _ pid p p'] inflight_ok_put [of ?ss _ pid p p'] iso_coreD [of ?ss]
      by (auto simp: iso_inv_def shards_on_shard inflights_ok_def keeps_def)
  qed
qed

text \<open>Preparing, cancelling and completing a batch.\<close>

lemma on_shard_result: "f (tc_shards c ! k) = (r, sh, d) \<Longrightarrow> d \<noteq> Persisted \<Longrightarrow> fst (on_shard json io k f c) = r"
  by (cases d) (simp_all add: on_shard_def)

lemma prepare_cases:
  assumes "sh_prepare_append part i s = (r, s', d)"
  shows "d \<noteq> Persisted" and "r \<noteq> Inr AppendBatch \<and> s' = s \<or>
    (\<exists>p q. producer_ref s (batch_producer i) = Inr p \<and> q = sequence_entry part p \<and>
       (r \<noteq> Inr AppendBatch \<and> s' = put_producer (bi_producer_id i) (put_sequence part q p) s \<or>
        r = Inr AppendBatch \<and> sq_pending q = None \<and> (bi_transactional i \<longrightarrow> tp_status p = TxOngoing) \<and>
        s' = put_producer (bi_producer_id i)
               (put_sequence part (q\<lparr>sq_pending := Some (bi_base_sequence i, bi_record_count i)\<rparr>) p) s))"
  using assms by (auto simp: sh_prepare_append_def Let_def simp del: not_None_eq split_paired_All split: sum.splits if_splits)

lemma batch_producer_get:
  "producer_ref s (batch_producer i) = Inr p \<Longrightarrow>
     bt_get (ts_producers s) (bi_producer_id i) = Some p \<and> tp_epoch p = bi_producer_epoch i"
  using producer_ref_get [of s "batch_producer i" p] producer_ref_epoch [of s "batch_producer i" p]
  by (simp add: batch_producer_def)

lemma keeps_pending_put_sequence:
  "part \<noteq> part' \<or> sq_pending q = sq_pending (sequence_entry part' p) \<Longrightarrow> keeps_pending p (put_sequence part q p) part'"
  by (auto simp: keeps_pending_def put_sequence_def sequence_entry_def)

lemma put_sequence_fields [simp]:
  "tp_epoch (put_sequence part q p) = tp_epoch p" "tp_status (put_sequence part q p) = tp_status p"
  by (simp_all add: put_sequence_def)

lemma iso_inv_prepare:
  assumes inv: "iso_inv s" and run: "tx_prepare_append json io part i (is_coord s) = (r, c)"
  shows "iso_inv (s\<lparr>is_coord := c,
    is_inflight := (if r = Inr AppendBatch then (part, i) # is_inflight s else is_inflight s)\<rparr>)"
proof -
  let ?ss = "tc_shards (is_coord s)"
  let ?pid = "bi_producer_id i"
  let ?sh = "?ss ! producer_shard ?pid"
  have len: "length ?ss = transaction_shards" using inv by (simp add: iso_inv_def iso_core_def)
  show ?thesis
  proof (cases "?pid < 0 \<or> bi_control i \<or> bi_record_count i = 0 \<or> bi_base_sequence i < 0")
    case True
    then have "c = is_coord s" "r \<noteq> Inr AppendBatch" using run by (auto simp: tx_prepare_append_def split: if_splits)
    then show ?thesis using inv by simp
  next
    case False
    obtain r' sh' d where f: "sh_prepare_append part i ?sh = (r', sh', d)" by (metis prod_cases3)
    have on: "on_shard json io (producer_shard ?pid) (sh_prepare_append part i) (is_coord s) = (r, c)"
      using run False by (simp add: tx_prepare_append_def)
    have r: "r = r'" using on_shard_result [of "sh_prepare_append part i" "is_coord s" "producer_shard ?pid", OF f prepare_cases(1) [OF f], of json io] on by simp
    have c: "tc_shards c = ?ss[producer_shard ?pid := sh']"
      using shards_on_shard [of json io "producer_shard ?pid" "sh_prepare_append part i" "is_coord s"] on f by simp
    consider (same) "r \<noteq> Inr AppendBatch" "sh' = ?sh"
      | (entry) p where "r \<noteq> Inr AppendBatch" "producer_ref ?sh (batch_producer i) = Inr p"
          "sh' = put_producer ?pid (put_sequence part (sequence_entry part p) p) ?sh"
      | (marked) p q where "r = Inr AppendBatch" "producer_ref ?sh (batch_producer i) = Inr p" "q = sequence_entry part p"
          "sq_pending q = None" "bi_transactional i \<longrightarrow> tp_status p = TxOngoing"
          "sh' = put_producer ?pid (put_sequence part (q\<lparr>sq_pending := Some (bi_base_sequence i, bi_record_count i)\<rparr>) p) ?sh"
      using prepare_cases(2) [OF f] unfolding r by blast
    then show ?thesis
    proof cases
      case same
      then show ?thesis using inv c by (simp add: iso_inv_def)
    next
      case entry
      have k: "keeps p (put_sequence part (sequence_entry part p) p)"
        by (intro keeps_put_sequence) (simp add: same_offsets_def)
      have "keeps_pending p (put_sequence part (sequence_entry part p) p) part'" for part'
        by (cases "part = part'") (simp_all add: keeps_pending_put_sequence)
      then show ?thesis
        using entry k inv iso_core_put [of ?ss _ _ _ ?pid p] inflight_ok_put [OF len, of _ ?pid p]
          batch_producer_get [OF entry(2)]
        by (simp add: iso_inv_def inflights_ok_def c)
    next
      case marked
      let ?q = "q\<lparr>sq_pending := Some (bi_base_sequence i, bi_record_count i)\<rparr>"
      let ?ss' = "?ss[producer_shard ?pid := sh']"
      have get: "bt_get (ts_producers ?sh) ?pid = Some p" "tp_epoch p = bi_producer_epoch i"
        using batch_producer_get [OF marked(2)] by simp_all
      have k: "keeps p (put_sequence part ?q p)"
        by (intro keeps_put_sequence) (simp add: same_offsets_def marked(3))
      have fresh: "inflight_key e \<noteq> (?pid, part)" if "e \<in> set (is_inflight s)" for e
      proof
        assume key: "inflight_key e = (?pid, part)"
        have "inflight_ok ?ss e" using inv that by (simp add: iso_inv_def inflights_ok_def)
        then have "\<exists>q'. bt_get (tp_sequences p) part = Some q' \<and> sq_pending q' \<noteq> None"
          using key get(1) by (cases e) (auto simp: inflight_ok_def inflight_key_def seq_of_Some)
        then show False using marked(3,4) by (auto simp: sequence_entry_def)
      qed
      have "inflight_ok ?ss' e" if e: "e \<in> set (is_inflight s)" for e
      proof -
        have "bi_producer_id (snd e) = ?pid \<Longrightarrow> keeps_pending p (put_sequence part ?q p) (fst e)"
          using fresh [OF e] by (intro keeps_pending_put_sequence) (auto simp: inflight_key_def)
        then show ?thesis
          using inv e unfolding marked(6) by (intro inflight_ok_put [OF len _ get(1)]) (simp_all add: iso_inv_def inflights_ok_def)
      qed
      moreover have "inflight_ok ?ss' (part, i)"
        using marked get False by (simp add: inflight_ok_def seq_of_put [OF len]) (simp add: put_sequence_def)
      moreover have "(?pid, part) \<notin> inflight_key ` set (is_inflight s)" using fresh by force
      ultimately have "inflights_ok ?ss' ((part, i) # is_inflight s)"
        using inv by (auto simp: inflights_ok_def iso_inv_def inflight_key_def)
      moreover have "iso_core ?ss' (is_end s) (is_open s) (is_aborted s)"
        unfolding marked(6) using inv get(1) k by (intro iso_core_put) (simp_all add: iso_inv_def)
      ultimately show ?thesis using marked(1) c by (simp add: iso_inv_def)
    qed
  qed
qed

lemma inflight_complete:
  assumes "inflight_ok ss (part, i)"
  obtains p q where "bt_get (ts_producers (ss ! producer_shard (bi_producer_id i))) (bi_producer_id i) = Some p"
    "producer_ref (ss ! producer_shard (bi_producer_id i)) (batch_producer i) = Inr p"
    "bt_get (tp_sequences p) part = Some q" "sq_pending q = Some (bi_base_sequence i, bi_record_count i)"
    "bi_transactional i \<longrightarrow> tp_status p = TxOngoing" "0 \<le> bi_producer_id i"
  using assms by (auto simp: inflight_ok_def seq_of_Some producer_ref_def batch_producer_def split: option.splits)

lemma inflights_remove:
  assumes ok: "inflights_ok ss es" and mem: "(part, i) \<in> set es" and len: "length ss = transaction_shards"
    and p: "bt_get (ts_producers (ss ! producer_shard (bi_producer_id i))) (bi_producer_id i) = Some p"
  shows "inflights_ok (ss[producer_shard (bi_producer_id i) :=
     put_producer (bi_producer_id i) (put_sequence part q p) (ss ! producer_shard (bi_producer_id i))]) (remove1 (part, i) es)"
proof -
  have d: "distinct (map inflight_key es)" and all: "\<forall>e \<in> set es. inflight_ok ss e"
    using ok by (auto simp: inflights_ok_def)
  have de: "distinct es" using d by (simp add: distinct_map)
  have "distinct (map inflight_key (remove1 (part, i) es))"
    using d by (metis distinct_map distinct_remove1 inj_on_subset set_remove1_subset)
  moreover have "inflight_ok (ss[producer_shard (bi_producer_id i) :=
     put_producer (bi_producer_id i) (put_sequence part q p) (ss ! producer_shard (bi_producer_id i))]) e"
    if e: "e \<in> set (remove1 (part, i) es)" for e
  proof -
    have e': "e \<in> set es" "e \<noteq> (part, i)" using e de by auto
    then have "inflight_key e \<noteq> inflight_key (part, i)"
      using d mem by (metis distinct_map inj_onD)
    then have "bi_producer_id (snd e) = bi_producer_id i \<Longrightarrow> keeps_pending p (put_sequence part q p) (fst e)"
      by (intro keeps_pending_put_sequence) (auto simp: inflight_key_def)
    then show ?thesis using all e'(1) by (intro inflight_ok_put [OF len _ p]) simp_all
  qed
  ultimately show ?thesis by (simp add: inflights_ok_def)
qed

lemma iso_inv_cancel:
  assumes inv: "iso_inv s" and mem: "(part, i) \<in> set (is_inflight s)"
  shows "iso_inv (s\<lparr>is_coord := snd (tx_cancel_append json io part i (is_coord s)),
    is_inflight := remove1 (part, i) (is_inflight s)\<rparr>)"
proof -
  let ?ss = "tc_shards (is_coord s)"
  have ok: "inflight_ok ?ss (part, i)" and len: "length ?ss = transaction_shards"
    and all: "inflights_ok ?ss (is_inflight s)"
    using inv mem by (simp_all add: iso_inv_def inflights_ok_def iso_core_def)
  obtain p q where pq: "bt_get (ts_producers (?ss ! producer_shard (bi_producer_id i))) (bi_producer_id i) = Some p"
    "producer_ref (?ss ! producer_shard (bi_producer_id i)) (batch_producer i) = Inr p"
    "bt_get (tp_sequences p) part = Some q" "sq_pending q = Some (bi_base_sequence i, bi_record_count i)"
    "0 \<le> bi_producer_id i"
    using inflight_complete [OF ok] by metis
  have "keeps p (put_sequence part (q\<lparr>sq_pending := None\<rparr>) p)"
    by (intro keeps_put_sequence) (simp add: same_offsets_def sequence_entry_def pq(3))
  then show ?thesis
    using inv inflights_remove [OF all mem len pq(1)] iso_core_put [of ?ss _ _ _ "bi_producer_id i" p, OF _ pq(1)] pq
    by (simp add: iso_inv_def tx_cancel_append_def shards_on_shard sh_cancel_append_def)
qed
lemma iso_core_complete:
  assumes core: "iso_core ss ends opened aborted"
    and p: "bt_get (ts_producers (ss ! producer_shard pid)) pid = Some p"
    and q: "bt_get (tp_sequences p) part = Some q" and tx: "bi_transactional i \<longrightarrow> tp_status p = TxOngoing"
    and order: "ends part \<le> base" "base \<le> final"
  shows "iso_core (ss[producer_shard pid := put_producer pid (put_sequence part (completed_sequence i base final q) p) (ss ! producer_shard pid)])
    (ends(part := final + 1)) (if bi_transactional i then (pid, part, base, final) # opened else opened) aborted"
proof -
  let ?q = "completed_sequence i base final q"
  let ?p = "put_sequence part ?q p"
  let ?ss = "ss[producer_shard pid := put_producer pid ?p (ss ! producer_shard pid)]"
  let ?ends = "ends(part := final + 1)"
  have len: "length ss = transaction_shards" and fs: "firsts_ok ss ends"
    using core by (simp_all add: iso_core_def)
  have seqs: "seq_of ?ss pid' part' =
      (if pid' = pid then map_option (Pair ?p) (if part' = part then Some ?q else bt_get (tp_sequences p) part')
       else seq_of ss pid' part')" for pid' part'
    by (simp add: seq_of_put [OF len]) (simp add: put_sequence_def)
  have ends: "ends x \<le> ?ends x" for x using order by simp
  have old: "f < ends part" if "sq_first_transaction_offset q = Some f" for f
    using firsts_okD [OF fs _ that, of pid part p] p q by (simp add: seq_of_Some)
  have qlast: "sq_last_offset ?q = final" by (simp add: completed_sequence_def)
  have qfirst: "sq_first_transaction_offset ?q = Some f" if "sq_first_transaction_offset q = Some f" for f
    using that by (simp add: completed_sequence_def get_or_insert_def)
  have first: "\<exists>f. sq_first_transaction_offset ?q = Some f \<and> f \<le> base" if "bi_transactional i"
    using old order that
    by (cases "sq_first_transaction_offset q") (force simp: completed_sequence_def get_or_insert_def)+
  have "f < ?ends part'" if "seq_of ?ss pid' part' = Some (x, y)" "sq_first_transaction_offset y = Some f"
    for pid' part' x y f
  proof (cases "pid' = pid \<and> part' = part")
    case True
    then have "y = ?q" using that(1) by (simp add: seqs)
    moreover have "f \<le> final" if "sq_first_transaction_offset ?q = Some f"
      using old [of f] order that
      by (cases "sq_first_transaction_offset q") (auto simp: completed_sequence_def get_or_insert_def split: if_splits)
    ultimately show ?thesis using True that by simp
  next
    case False
    then have "\<exists>x. seq_of ss pid' part' = Some (x, y)"
      using that(1) p by (auto simp: seqs seq_of_Some split: if_splits)
    then have "f < ends part'" using firsts_okD [OF fs _ that(2)] by blast
    then show ?thesis using ends [of part'] by simp
  qed
  then have "firsts_ok ?ss ?ends" unfolding firsts_ok_def by blast
  moreover have "open_ok ?ss ?ends e" if e: "open_ok ss ends e" for e
  proof -
    obtain pid' part' b l where e4: "e = (pid', part', b, l)" by (metis prod_cases4)
    obtain x y f where y: "seq_of ss pid' part' = Some (x, y)" "tp_status x = TxOngoing"
        "sq_first_transaction_offset y = Some f" "f \<le> b" "l \<le> sq_last_offset y" "b \<le> l" "l < ends part'"
      using e by (auto simp: e4 open_ok_def)
    have "l < ?ends part'" using y(7) ends [of part'] by simp
    moreover have "\<exists>x y f. seq_of ?ss pid' part' = Some (x, y) \<and> tp_status x = TxOngoing \<and>
        sq_first_transaction_offset y = Some f \<and> f \<le> b \<and> l \<le> sq_last_offset y"
    proof (cases "pid' = pid")
      case True
      have "x = p" "bt_get (tp_sequences p) part' = Some y" using True y(1) p by (auto simp: seq_of_Some)
      show ?thesis
      proof (cases "part' = part")
        case same: True
        have "seq_of ?ss pid' part' = Some (?p, ?q)" unfolding seqs using True same by simp
        moreover have "sq_first_transaction_offset q = Some f"
          using q y(3) same \<open>bt_get (tp_sequences p) part' = Some y\<close> by simp
        ultimately show ?thesis using qfirst [of f] qlast y order \<open>x = p\<close> same by simp
      next
        case False
        then have "seq_of ?ss pid' part' = Some (?p, y)"
          using True \<open>bt_get (tp_sequences p) part' = Some y\<close> by (simp add: seqs)
        then show ?thesis using y \<open>x = p\<close> by simp
      qed
    next
      case False
      then show ?thesis using y by (simp add: seqs)
    qed
    ultimately show ?thesis using y(6) by (simp add: e4 open_ok_def)
  qed
  moreover have "open_ok ?ss ?ends (pid, part, base, final)" if t: "bi_transactional i"
    using first [OF t] tx t order by (auto simp: open_ok_def seqs qlast)
  moreover have "aborted_ok ?ss e" if "aborted_ok ss e" for e
    using that by (simp add: aborted_ok_def ranges_of_put [OF len] split: prod.splits)
  ultimately show ?thesis using core by (simp add: iso_core_def)
qed

lemma iso_inv_complete:
  assumes inv: "iso_inv s" and mem: "(part, i) \<in> set (is_inflight s)" and order: "is_end s part \<le> base" "base \<le> final"
  shows "iso_inv (s\<lparr>is_coord := snd (tx_complete_append json io part i base final (is_coord s)),
    is_inflight := remove1 (part, i) (is_inflight s), is_end := (is_end s)(part := final + 1),
    is_open := (if bi_transactional i then (bi_producer_id i, part, base, final) # is_open s else is_open s)\<rparr>)"
proof -
  let ?ss = "tc_shards (is_coord s)"
  have ok: "inflight_ok ?ss (part, i)" and len: "length ?ss = transaction_shards"
    and all: "inflights_ok ?ss (is_inflight s)" and core: "iso_core ?ss (is_end s) (is_open s) (is_aborted s)"
    using inv mem by (simp_all add: iso_inv_def inflights_ok_def iso_core_def)
  obtain p q where pq: "bt_get (ts_producers (?ss ! producer_shard (bi_producer_id i))) (bi_producer_id i) = Some p"
    "producer_ref (?ss ! producer_shard (bi_producer_id i)) (batch_producer i) = Inr p"
    "bt_get (tp_sequences p) part = Some q" "sq_pending q = Some (bi_base_sequence i, bi_record_count i)"
    "bi_transactional i \<longrightarrow> tp_status p = TxOngoing" "0 \<le> bi_producer_id i"
    using inflight_complete [OF ok] by metis
  show ?thesis
    using inflights_remove [OF all mem len pq(1)] iso_core_complete [OF core pq(1,3,5) order] pq
    by (simp add: iso_inv_def tx_complete_append_def shards_on_shard sh_complete_append_def)
qed

text \<open>Ending a transaction.\<close>

lemma set_push_ranges:
  "set (case bt_get (fold push_range rs m) part of None \<Rightarrow> [] | Some x \<Rightarrow> x) =
     set (case bt_get m part of None \<Rightarrow> [] | Some x \<Rightarrow> x) \<union> {r. (part, r) \<in> set rs}"
proof (induction rs arbitrary: m)
  case (Cons r rs)
  show ?case
    by (simp add: Cons.IH) (cases r, auto simp: push_range_def split: option.splits)
qed (simp split: option.splits)

definition end_shard :: "int \<Rightarrow> bool \<Rightarrow> tx_producer \<Rightarrow> tx_shard \<Rightarrow> tx_shard" where
  "end_shard pid commit p sh =
     (put_producer pid (ended_producer commit p) sh)\<lparr>ts_aborted :=
        fold push_range (if commit then [] else abort_ranges pid p) (ts_aborted sh)\<rparr>"

lemma end_transaction_shard:
  "fst (snd (sh_end_transaction i commit sh)) =
     (case producer_ref sh i of
        Inl _ \<Rightarrow> sh
      | Inr p \<Rightarrow> if tp_status p = TxOngoing then end_shard (pi_producer_id i) commit p sh else sh)"
  by (auto simp: sh_end_transaction_def end_shard_def put_producer_def Let_def split: sum.split)

lemma seq_of_end:
  assumes "length ss = transaction_shards"
  shows "seq_of (ss[producer_shard pid := end_shard pid commit p (ss ! producer_shard pid)]) pid' part =
    (if pid' = pid then map_option (\<lambda>q. (ended_producer commit p, q\<lparr>sq_first_transaction_offset := None\<rparr>)) (bt_get (tp_sequences p) part)
     else seq_of ss pid' part)"
  using assms
  by (auto simp: seq_of_def end_shard_def put_producer_def transaction_shards_def nth_list_update ended_producer_def
    Let_def option.map_comp comp_def)

lemma ranges_of_end:
  assumes "length ss = transaction_shards"
  shows "set (ranges_of (ss[producer_shard pid := end_shard pid commit p (ss ! producer_shard pid)]) pid' part) =
    set (ranges_of ss pid' part) \<union>
      (if producer_shard pid' = producer_shard pid \<and> \<not> commit then {r. (part, r) \<in> set (abort_ranges pid p)} else {})"
  using assms set_push_ranges [of "abort_ranges pid p" "ts_aborted (ss ! producer_shard pid)" part]
  by (auto simp: ranges_of_def end_shard_def put_producer_def transaction_shards_def nth_list_update)

lemma abort_ranges_mem:
  assumes "bt_get (tp_sequences p) part = Some q" "sq_first_transaction_offset q = Some f"
  shows "(part, \<lparr>ar_producer_id = pid, ar_first_offset = f, ar_last_offset = sq_last_offset q\<rparr>) \<in> set (abort_ranges pid p)"
  using bt_get_Some_mem [OF assms(1)] assms(2)
  unfolding abort_ranges_def set_map_filter by force

lemma iso_core_end:
  assumes core: "iso_core ss ends opened aborted"
    and p: "bt_get (ts_producers (ss ! producer_shard pid)) pid = Some p"
  shows "iso_core (ss[producer_shard pid := end_shard pid commit p (ss ! producer_shard pid)]) ends
    (filter (\<lambda>b. fst b \<noteq> pid) opened) (if commit then aborted else filter (\<lambda>b. fst b = pid) opened @ aborted)"
proof -
  let ?ss = "ss[producer_shard pid := end_shard pid commit p (ss ! producer_shard pid)]"
  have len: "length ss = transaction_shards" and fs: "firsts_ok ss ends"
    using core by (simp_all add: iso_core_def)
  have "f < ends part'" if "seq_of ?ss pid' part' = Some (x, y)" "sq_first_transaction_offset y = Some f" for pid' part' x y f
    using that firsts_okD [OF fs _ that(2), of pid' part' x] by (auto simp: seq_of_end [OF len] split: if_splits)
  then have "firsts_ok ?ss ends" unfolding firsts_ok_def by blast
  moreover have "open_ok ?ss ends e" if "open_ok ss ends e" "fst e \<noteq> pid" for e
    using that by (cases e) (simp add: open_ok_def seq_of_end [OF len])
  moreover have "aborted_ok ?ss e" if "aborted_ok ss e" for e
    using that by (cases e) (auto simp: aborted_ok_def ranges_of_end [OF len])
  moreover have "aborted_ok ?ss e" if e: "open_ok ss ends e" "fst e = pid" and ab: "\<not> commit" for e
  proof -
    obtain part b l where e4: "e = (pid, part, b, l)" using e(2) by (cases e) auto
    then obtain q f where q: "bt_get (tp_sequences p) part = Some q" "sq_first_transaction_offset q = Some f"
        "f \<le> b" "l \<le> sq_last_offset q" "b \<le> l"
      using e(1) p by (auto simp: open_ok_def seq_of_Some)
    show ?thesis
      using abort_ranges_mem [OF q(1,2), of pid] q ab by (force simp: e4 aborted_ok_def ranges_of_end [OF len])
  qed
  ultimately show ?thesis using core by (auto simp: iso_core_def)
qed

lemma idle_inflights:
  assumes "inflights_ok ss es" and "list_all (\<lambda>(part, i). bi_producer_id i \<noteq> pid) es"
    and "\<And>pid' part. pid' \<noteq> pid \<Longrightarrow> seq_of ss' pid' part = seq_of ss pid' part"
  shows "inflights_ok ss' es"
  using assms unfolding inflights_ok_def inflight_ok_def list_all_iff by fastforce

lemma iso_inv_end:
  assumes inv: "iso_inv s" and idle: "idle s (pi_producer_id i)"
  shows "iso_inv (s\<lparr>is_coord := snd (tx_end_transaction json io i commit (is_coord s)),
    is_open := (if ends_transaction (is_coord s) i then filter (\<lambda>b. fst b \<noteq> pi_producer_id i) (is_open s) else is_open s),
    is_aborted := (if \<not> commit \<and> ends_transaction (is_coord s) i
       then filter (\<lambda>b. fst b = pi_producer_id i) (is_open s) @ is_aborted s else is_aborted s)\<rparr>)"
proof (cases "ends_transaction (is_coord s) i")
  case False
  then have "fst (snd (sh_end_transaction i commit (tc_shards (is_coord s) ! producer_shard (pi_producer_id i)))) =
      tc_shards (is_coord s) ! producer_shard (pi_producer_id i)"
    by (auto simp: ends_transaction_def end_transaction_shard split: sum.splits)
  then show ?thesis using inv False by (simp add: iso_inv_def tx_end_transaction_def shards_on_shard)
next
  case True
  let ?ss = "tc_shards (is_coord s)"
  let ?pid = "pi_producer_id i"
  obtain p where p: "producer_ref (?ss ! producer_shard ?pid) i = Inr p" "tp_status p = TxOngoing"
    using True by (auto simp: ends_transaction_def split: sum.splits)
  have core: "iso_core ?ss (is_end s) (is_open s) (is_aborted s)" and len: "length ?ss = transaction_shards"
    using inv by (simp_all add: iso_inv_def iso_core_def)
  have "inflights_ok (?ss[producer_shard ?pid := end_shard ?pid commit p (?ss ! producer_shard ?pid)]) (is_inflight s)"
    using inv idle by - (rule idle_inflights [of ?ss _ ?pid], simp_all add: iso_inv_def idle_def seq_of_end [OF len])
  then show ?thesis
    using iso_core_end [OF core producer_ref_get [OF p(1)], of commit] True p
    by (cases commit) (simp_all add: iso_inv_def tx_end_transaction_def shards_on_shard end_transaction_shard)
qed

text \<open>Registering a producer.\<close>

lemma iso_inv_register:
  assumes inv: "iso_inv s" and tgt: "pid = fst (assign_producer_id tid (tc_metadata (is_coord s)))"
    and idle: "idle s pid" and no: "not_ongoing (is_coord s) pid"
  shows "iso_inv (s\<lparr>is_coord := snd (tx_init_producer json io tid timeout now (is_coord s))\<rparr>)"
proof -
  let ?ss = "tc_shards (is_coord s)"
  let ?sh = "?ss ! producer_shard pid"
  obtain p' where p': "snd (sh_register pid tid timeout now ?sh) = put_producer pid p' ?sh" "tp_sequences p' = []"
    by (simp add: sh_register_def Let_def registered_producer_def)
  let ?ss' = "?ss[producer_shard pid := put_producer pid p' ?sh]"
  have core: "iso_core ?ss (is_end s) (is_open s) (is_aborted s)" and len: "length ?ss = transaction_shards"
    using inv by (simp_all add: iso_inv_def iso_core_def)
  have seqs: "seq_of ?ss' pid' part = (if pid' = pid then None else seq_of ?ss pid' part)" for pid' part
    by (simp add: seq_of_put [OF len] p')
  have "open_ok ?ss' (is_end s) e" if "open_ok ?ss (is_end s) e" for e
    using that no by (cases e) (auto simp: open_ok_def seqs seq_of_Some not_ongoing_def tx_lookup_producer_def)
  moreover have "aborted_ok ?ss' e" if "aborted_ok ?ss e" for e
    using that by (cases e) (simp add: aborted_ok_def ranges_of_put [OF len])
  moreover have "firsts_ok ?ss' (is_end s)" using core by (auto simp: iso_core_def firsts_ok_def seqs)
  ultimately have "iso_core ?ss' (is_end s) (is_open s) (is_aborted s)" using core by (simp add: iso_core_def)
  moreover have "inflights_ok ?ss' (is_inflight s)"
    using inv idle by - (rule idle_inflights [of ?ss _ pid], simp_all add: iso_inv_def idle_def seqs)
  ultimately show ?thesis using p' by (simp add: iso_inv_def shards_init_producer Let_def tgt [symmetric])
qed

lemma iso_step_inv: "iso_step json s t \<Longrightarrow> iso_inv s \<Longrightarrow> iso_inv t"
proof (induction rule: iso_step.induct)
  case (register s tid io timeout now)
  then show ?case using iso_inv_register by blast
next
  case (add_partitions s io1 pid parts now)
  then show ?case unfolding tx_add_partitions_def by (intro iso_inv_quiet quiet_add_partitions)
next
  case (stage s io1 pid offsets)
  then show ?case unfolding tx_stage_offsets_def by (intro iso_inv_quiet quiet_stage_offsets)
next
  case (applied s io1 pid)
  then show ?case unfolding tx_mark_offsets_applied_def by (intro iso_inv_quiet quiet_mark_applied)
next
  case (prepare io1 part i s r c)
  then show ?case using iso_inv_prepare by blast
next
  case (complete part i s base final io1)
  then show ?case using iso_inv_complete by blast
next
  case (cancel part i s io1)
  then show ?case using iso_inv_cancel by blast
next
  case (commit s pid io1)
  then show ?case using iso_inv_end [where commit = True, of s pid json io1] by simp
next
  case (abort s pid io1)
  then show ?case using iso_inv_end [where commit = False, of s pid json io1] by simp
qed

lemma iso_init_inv: "iso_init s \<Longrightarrow> iso_inv s"
  by (simp add: iso_init_def iso_inv_def iso_core_def inflights_ok_def firsts_ok_def seq_of_def tx_shard_default_def transaction_shards_def)

interpretation iso: invariant_system iso_init "iso_step json" iso_inv for json
  by unfold_locales (auto intro: iso_init_inv iso_step_inv)

section \<open>What a reader sees\<close>

definition lso_fold :: "tx_partition \<Rightarrow> tx_shard list \<Rightarrow> nat option \<Rightarrow> nat option" where
  "lso_fold part ss m =
     fold (\<lambda>s minimum. list_min (open_first_offsets part s @ (case minimum of None \<Rightarrow> [] | Some m \<Rightarrow> [m]))) ss m"

lemma lso_fold_spec:
  "lso_fold part ss m = list_min (concat (map (open_first_offsets part) (rev ss)) @ (case m of None \<Rightarrow> [] | Some x \<Rightarrow> [x]))"
proof (induction ss arbitrary: m)
  case Nil
  show ?case by (cases m) (simp_all add: lso_fold_def)
next
  case (Cons s ss)
  have flat: "list_min (xs @ (case list_min ys of None \<Rightarrow> [] | Some x \<Rightarrow> [x])) = list_min (xs @ ys)" for xs ys :: "nat list"
    by (cases "ys = []"; cases "xs = []") (simp_all add: list_min_Min Min_Un)
  show ?case using Cons flat by (simp add: lso_fold_def)
qed

lemma lso_eq: "tx_last_stable_offset part hw c =
    (case list_min (concat (map (open_first_offsets part) (rev (tc_shards c)))) of None \<Rightarrow> hw | Some m \<Rightarrow> m)"
  using lso_fold_spec [of part "tc_shards c" None] by (simp add: tx_last_stable_offset_def lso_fold_def)

lemma open_first_offsets_mem:
  assumes "bt_get (ts_producers sh) pid = Some p" "tp_status p = TxOngoing"
    "bt_get (tp_sequences p) part = Some q" "sq_first_transaction_offset q = Some f"
  shows "f \<in> set (open_first_offsets part sh)"
  using bt_get_Some_mem [OF assms(1)] assms(2-4)
  unfolding open_first_offsets_def set_map_filter by (force simp: bt_values_def)

lemma lso_le:
  assumes "sh \<in> set (tc_shards c)" "f \<in> set (open_first_offsets part sh)"
  shows "tx_last_stable_offset part hw c \<le> f"
proof -
  let ?xs = "concat (map (open_first_offsets part) (rev (tc_shards c)))"
  have f: "f \<in> set ?xs" using assms by auto
  then obtain m where "list_min ?xs = Some m" using list_min_None [of ?xs] by (cases "list_min ?xs") auto
  then show ?thesis using list_min_Some [of ?xs m] f by (auto simp: lso_eq)
qed



end
