(* ===== verification/Transaction_Recovery.thy ===== *)
theory Transaction_Recovery
  imports Transaction_Isolation
begin

text \<open>
  Retries, recovery and snapshots of the transaction coordinator. A retried batch is
  recognised; the log scan at startup rebuilds the sequence state that the appends had built
  in memory; \<open>flush_dirty\<close> writes every dirty shard.
\<close>

section \<open>Retries\<close>

lemma nth_producer_shard [simp]:
  "length ss = transaction_shards \<Longrightarrow> (ss[producer_shard pid := s]) ! producer_shard pid = s"
  by (simp add: transaction_shards_def)

lemma complete_then_prepare:
  assumes prep: "sh_prepare_append part i s = (Inr AppendBatch, s1, d1)"
    and comp: "sh_complete_append part i base final s1 = (r, s2, d2)"
  shows "r = Inr ()" and "fst (sh_prepare_append part i s2) = Inr (DuplicateBatch base)"
proof -
  obtain p where p: "producer_ref s (batch_producer i) = Inr p" "bi_transactional i \<longrightarrow> tp_status p = TxOngoing \<and> part \<in> set (tp_partitions p)"
      "s1 = put_producer (bi_producer_id i)
        (put_sequence part ((sequence_entry part p)\<lparr>sq_pending := Some (bi_base_sequence i, bi_record_count i)\<rparr>) p) s"
    using prep by (auto simp: sh_prepare_append_def Let_def split: sum.splits if_splits)
  have e: "bt_get (ts_producers s) (bi_producer_id i) = Some p \<and> tp_epoch p = bi_producer_epoch i"
    by (rule batch_producer_get [OF p(1)])
  let ?q = "completed_sequence i base final ((sequence_entry part p)\<lparr>sq_pending := Some (bi_base_sequence i, bi_record_count i)\<rparr>)"
  have s2: "r = Inr ()" "s2 = put_producer (bi_producer_id i) (put_sequence part ?q p) s"
    using comp e by (auto simp: p(3) sh_complete_append_def producer_ref_def put_producer_def put_sequence_def batch_producer_def)
  then show "r = Inr ()" by simp
  have "producer_ref s2 (batch_producer i) = Inr (put_sequence part ?q p)"
    using e by (simp add: s2 producer_ref_def put_producer_def batch_producer_def)
  moreover have "sequence_entry part (put_sequence part ?q p) = ?q" by (simp add: sequence_entry_def put_sequence_def)
  moreover have "bi_transactional i \<longrightarrow> tp_status (put_sequence part ?q p) = TxOngoing \<and> part \<in> set (tp_partitions (put_sequence part ?q p))"
    using p(2) by (simp add: put_sequence_def)
  ultimately show "fst (sh_prepare_append part i s2) = Inr (DuplicateBatch base)"
    by (auto simp: sh_prepare_append_def Let_def completed_sequence_def)
qed

text \<open>
  C33. A batch is appended once however often it is sent. When a batch was admitted and its
  append completed at some offset, completing never fails, and sending the same batch again
  is answered with that offset instead of a second append.
\<close>

theorem append_retry_returns_first_offset:
  assumes "tx_prepare_append json io part i c = (Inr AppendBatch, c1)" and "length (tc_shards c) = transaction_shards"
    and "tx_complete_append json io' part i base final c1 = (r, c2)"
  shows "r = Inr () \<and> fst (tx_prepare_append json io'' part i c2) = Inr (DuplicateBatch base)"
proof -
  let ?k = "producer_shard (bi_producer_id i)"
  have valid: "\<not> bi_producer_id i < 0" "\<not> (bi_control i \<or> bi_record_count i = 0 \<or> bi_base_sequence i < 0)"
    and on1: "on_shard json io ?k (sh_prepare_append part i) c = (Inr AppendBatch, c1)"
    using assms(1) by (auto simp: tx_prepare_append_def split: if_splits)
  have on2: "on_shard json io' ?k (sh_complete_append part i base final) c1 = (r, c2)"
    using assms(3) valid by (simp add: tx_complete_append_def)
  obtain r1 s1 d1 where p1: "sh_prepare_append part i (tc_shards c ! ?k) = (r1, s1, d1)" by (metis prod_cases3)
  have r1: "r1 = Inr AppendBatch"
    using on_shard_result [of "sh_prepare_append part i" c ?k, OF p1 prepare_cases(1) [OF p1], of json io] on1 by simp
  have c1: "tc_shards c1 ! ?k = s1" "length (tc_shards c1) = transaction_shards"
    using shards_on_shard [of json io ?k "sh_prepare_append part i" c] on1 p1 assms(2) by simp_all
  obtain r2 s2 d2 where p2: "sh_complete_append part i base final s1 = (r2, s2, d2)" by (metis prod_cases3)
  have d2: "d2 \<noteq> Persisted" using p2 by (auto simp: sh_complete_append_def split: sum.splits option.splits if_splits)
  have r2: "r = r2"
    using on_shard_result [of "sh_complete_append part i base final" c1 ?k r2 s2 d2 json io'] on2 p2 c1 d2 by simp
  have c2: "tc_shards c2 ! ?k = s2"
    using shards_on_shard [of json io' ?k "sh_complete_append part i base final" c1] on2 p2 c1 by simp
  obtain r3 s3 d3 where p3: "sh_prepare_append part i s2 = (r3, s3, d3)" by (metis prod_cases3)
  have "fst (tx_prepare_append json io'' part i c2) = r3"
    using on_shard_result [of "sh_prepare_append part i" c2 ?k r3 s3 d3 json io''] p3 c2 prepare_cases(1) [OF p3] valid
    by (simp add: tx_prepare_append_def)
  then show ?thesis using complete_then_prepare [of part i _ s1 d1, OF p1 [unfolded r1] p2] p3 r2 by simp
qed

section \<open>Recovery from the log\<close>

text \<open>The appends of a run as the produce path performs them, one after the other.\<close>

fun replay_appends :: "tx_partition \<Rightarrow> (batch_identity \<times> nat \<times> nat) list \<Rightarrow> tx_shard \<Rightarrow> tx_shard option" where
  "replay_appends part [] s = Some s"
| "replay_appends part ((i, base, final) # bs) s =
     (case sh_prepare_append part i s of
        (Inr AppendBatch, s1, _) \<Rightarrow>
          (case sh_complete_append part i base final s1 of
             (Inr _, s2, _) \<Rightarrow> replay_appends part bs s2
           | _ \<Rightarrow> None)
      | _ \<Rightarrow> None)"

text \<open>A snapshot without markers on the partition, whose sequence numbers do not run backwards.\<close>

definition snapshot_producer :: "tx_partition \<Rightarrow> tx_producer \<Rightarrow> bool" where
  "snapshot_producer part p \<longleftrightarrow> bt_wf (tp_sequences p) \<and>
     (case bt_get (tp_sequences p) part of
        None \<Rightarrow> True | Some q \<Rightarrow> sq_pending q = None \<and> sq_last_base_sequence q \<le> sq_next_sequence q)"

definition snapshot_shard :: "tx_partition \<Rightarrow> tx_shard \<Rightarrow> bool" where
  "snapshot_shard part s \<longleftrightarrow> bt_wf (ts_producers s) \<and> list_all (snapshot_producer part) (bt_values (ts_producers s))"

definition batch_in_shard :: "nat \<Rightarrow> batch_identity \<times> nat \<times> nat \<Rightarrow> bool" where
  "batch_in_shard k b \<longleftrightarrow> 0 \<le> bi_producer_id (fst b) \<and> producer_shard (bi_producer_id (fst b)) = k \<and>
     0 \<le> bi_base_sequence (fst b) \<and> bi_base_sequence (fst b) < 2 ^ 31 \<and> bi_record_count (fst b) < 2 ^ 31"

text \<open>
  A batch of the scan that the snapshot already accounts for: of another shard or epoch, older
  than the last one the snapshot knows, or that very one. In the last case the batch must not
  be mistaken for the first one of an open transaction.
\<close>

definition covered_batch :: "nat \<Rightarrow> tx_partition \<Rightarrow> tx_shard \<Rightarrow> batch_identity \<times> nat \<times> nat \<Rightarrow> bool" where
  "covered_batch k part s b = (case b of (i, base, final) \<Rightarrow>
     bi_producer_id i < 0 \<or> producer_shard (bi_producer_id i) \<noteq> k \<or>
     (case bt_get (ts_producers s) (bi_producer_id i) of
        None \<Rightarrow> True
      | Some p \<Rightarrow> tp_epoch p \<noteq> bi_producer_epoch i \<or>
          (case bt_get (tp_sequences p) part of
             None \<Rightarrow> False
           | Some q \<Rightarrow> bi_base_sequence i < sq_last_base_sequence q \<or>
               q = recovered_sequence (tp_status p) i base final q)))"

lemma bt_insert_same: "bt_wf m \<Longrightarrow> bt_get m k = Some v \<Longrightarrow> bt_insert k v m = m"
  by (rule bt_eqI) auto

lemma snapshotD:
  assumes "snapshot_shard part s" "bt_get (ts_producers s) pid = Some p"
  shows "snapshot_producer part p"
  using assms bt_get_Some_mem [OF assms(2)] by (force simp: snapshot_shard_def list_all_iff bt_values_def)

lemma clear_pending_snapshot: "snapshot_producer part p \<Longrightarrow> clear_pending part p = p"
  by (auto simp: snapshot_producer_def clear_pending_def put_sequence_def bt_insert_same split: option.splits)

lemma put_same:
  assumes "snapshot_shard part s" "bt_get (ts_producers s) pid = Some p" "bt_get (tp_sequences p) part = Some q"
  shows "put_producer pid (put_sequence part q p) s = s"
  using assms snapshotD [OF assms(1,2)]
  by (simp add: put_producer_def put_sequence_def bt_insert_same snapshot_shard_def snapshot_producer_def)

lemma recover_covered:
  assumes "snapshot_shard part s" "covered_batch k part s b"
  shows "fst (recover_batch k part b (s, ch)) = s"
proof -
  obtain i base final where b: "b = (i, base, final)" by (metis prod_cases3)
  show ?thesis
  proof (cases "bi_producer_id i < 0 \<or> producer_shard (bi_producer_id i) \<noteq> k \<or> bt_get (ts_producers s) (bi_producer_id i) = None")
    case True
    then show ?thesis by (auto simp: b recover_batch_def split: option.splits)
  next
    case False
    then obtain p where p: "bt_get (ts_producers s) (bi_producer_id i) = Some p" by blast
    show ?thesis
    proof (cases "tp_epoch p = bi_producer_epoch i")
      case True
      then obtain q where q: "bt_get (tp_sequences p) part = Some q"
          "bi_base_sequence i < sq_last_base_sequence q \<or> q = recovered_sequence (tp_status p) i base final q"
        using assms(2) False p by (auto simp: covered_batch_def b split: option.splits)
      have "sequence_entry part p = q" using q(1) by (simp add: sequence_entry_def)
      then show ?thesis
        using p True False q put_same [OF assms(1) p q(1)] by (auto simp: b recover_batch_def Let_def)
    next
      case False
      then show ?thesis using p by (auto simp: b recover_batch_def)
    qed
  qed
qed

lemma sequence_after_ge:
  assumes "0 \<le> base" "base < 2 ^ 31" "count < 2 ^ 31"
  shows "base \<le> sequence_after base count"
  using assms by (auto simp: sequence_after_def as_i32_def saturating_add_signed_def Let_def)

lemma recover_append:
  assumes snap: "snapshot_shard part s" and b: "batch_in_shard k (i, base, final)"
    and prep: "sh_prepare_append part i s = (Inr AppendBatch, s1, d1)"
    and comp: "sh_complete_append part i base final s1 = (Inr u, s2, d2)"
  shows "fst (recover_batch k part (i, base, final) (s, ch)) = s2" and "snapshot_shard part s2"
proof -
  obtain p where p: "producer_ref s (batch_producer i) = Inr p" "bi_transactional i \<longrightarrow> tp_status p = TxOngoing"
      "bi_base_sequence i = sq_next_sequence (sequence_entry part p)"
      "s1 = put_producer (bi_producer_id i)
        (put_sequence part ((sequence_entry part p)\<lparr>sq_pending := Some (bi_base_sequence i, bi_record_count i)\<rparr>) p) s"
    using prep by (auto simp: sh_prepare_append_def Let_def split: sum.splits if_splits)
  have e: "bt_get (ts_producers s) (bi_producer_id i) = Some p" "tp_epoch p = bi_producer_epoch i"
    using batch_producer_get [OF p(1)] by simp_all
  have sp: "snapshot_producer part p" by (rule snapshotD [OF snap e(1)])
  have le: "sq_last_base_sequence (sequence_entry part p) \<le> bi_base_sequence i"
    using sp p(3) by (auto simp: snapshot_producer_def sequence_entry_def sequence_default_def split: option.splits)
  let ?q = "completed_sequence i base final ((sequence_entry part p)\<lparr>sq_pending := Some (bi_base_sequence i, bi_record_count i)\<rparr>)"
  have s2: "s2 = put_producer (bi_producer_id i) (put_sequence part ?q p) s"
    using comp e by (auto simp: p(4) sh_complete_append_def producer_ref_def put_producer_def put_sequence_def batch_producer_def)
  have "?q = recovered_sequence (tp_status p) i base final (sequence_entry part p)"
    using p(2) by (simp add: completed_sequence_def recovered_sequence_def)
  then show "fst (recover_batch k part (i, base, final) (s, ch)) = s2"
    using e le b by (simp add: recover_batch_def s2 Let_def batch_in_shard_def)
  have "snapshot_producer part (put_sequence part ?q p)"
    using sp b sequence_after_ge [of "bi_base_sequence i" "bi_record_count i"]
    by (simp add: snapshot_producer_def put_sequence_def completed_sequence_def batch_in_shard_def)
  moreover have "snapshot_producer part p'" if "p' \<in> set (bt_values (bt_insert pid x m))"
      "snapshot_producer part x" "list_all (snapshot_producer part) (bt_values m)" for p' pid x m
    using that by (induction pid x m rule: bt_insert.induct) (auto simp: bt_values_def list_all_iff split: if_splits)
  ultimately show "snapshot_shard part s2"
    using snap by (auto simp: snapshot_shard_def s2 put_producer_def list_all_iff)
qed

lemma recover_fold_appends:
  "snapshot_shard part s \<Longrightarrow> list_all (batch_in_shard k) bs \<Longrightarrow> replay_appends part bs s = Some s' \<Longrightarrow>
     fst (fold (recover_batch k part) bs (s, ch)) = s'"
proof (induction bs arbitrary: s ch)
  case (Cons x bs)
  obtain i base final where x: "x = (i, base, final)" by (metis prod_cases3)
  obtain s1 d1 where prep: "sh_prepare_append part i s = (Inr AppendBatch, s1, d1)"
    using Cons.prems(3) by (auto simp: x split: prod.splits sum.splits append_decision.splits)
  obtain u s2 d2 where comp: "sh_complete_append part i base final s1 = (Inr u, s2, d2)"
    using Cons.prems(3) prep by (auto simp: x split: prod.splits sum.splits)
  have b: "batch_in_shard k (i, base, final)" using Cons.prems(2) by (simp add: x)
  obtain ch' where r: "recover_batch k part x (s, ch) = (s2, ch')"
    using recover_append(1) [OF Cons.prems(1) b prep comp, of ch] by (metis prod.collapse x)
  have "replay_appends part bs s2 = Some s'" using Cons.prems(3) prep comp by (simp add: x)
  then show ?case
    using Cons.IH [of s2 ch'] Cons.prems(2) recover_append(2) [OF Cons.prems(1) b prep comp] r by simp
qed simp

lemma recover_fold_covered:
  "snapshot_shard part s \<Longrightarrow> list_all (covered_batch k part s) bs \<Longrightarrow> fst (fold (recover_batch k part) bs (s, ch)) = s"
proof (induction bs arbitrary: ch)
  case (Cons b bs)
  have "covered_batch k part s b" using Cons.prems(2) by simp
  then obtain ch' where "recover_batch k part b (s, ch) = (s, ch')"
    using recover_covered [OF Cons.prems(1), of k b ch] by (metis prod.collapse)
  then show ?case using Cons by simp
qed simp


section \<open>Sample runs\<close>

type_synonym sample_file = "tx_metadata + tx_shard + tx_legacy"

definition sample_json :: "sample_file tx_json" where
  "sample_json = \<lparr>tj_write_metadata = Inr \<circ> Inl, tj_write_shard = Inr \<circ> (Inr \<circ> Inl),
     tj_read_metadata = (\<lambda>f. case f of Inl m \<Rightarrow> Inr m | _ \<Rightarrow> Inl ''format''),
     tj_read_shard = (\<lambda>f. case f of Inr (Inl s) \<Rightarrow> Inr s | _ \<Rightarrow> Inl ''format''),
     tj_read_legacy = (\<lambda>f. case f of Inr (Inr l) \<Rightarrow> Inr l | _ \<Rightarrow> Inl ''format'')\<rparr>"

definition sample_open :: "sample_file tx_files \<Rightarrow> (tx_error + sample_file tx_coordinator) \<times> sample_file tx_files" where
  "sample_open = tx_open length sample_json (\<lambda>_. IoOk) IoOk"

definition no_files :: "'f tx_files" where
  "no_files = \<lparr>tf_legacy = None, tf_metadata = None, tf_shards = replicate transaction_shards None\<rparr>"

definition projr_or :: "'b \<Rightarrow> 'a + 'b \<Rightarrow> 'b" where
  "projr_or d x = (case x of Inl _ \<Rightarrow> d | Inr y \<Rightarrow> y)"

definition fresh_coordinator :: "sample_file tx_coordinator" where
  "fresh_coordinator = \<lparr>tc_metadata = tx_metadata_default, tc_shards = replicate transaction_shards tx_shard_default,
     tc_dirty = replicate transaction_shards False, tc_files = no_files\<rparr>"

abbreviation sample_part :: tx_partition where
  "sample_part \<equiv> (''events'', 0)"

abbreviation sample_producer :: producer_identity where
  "sample_producer \<equiv> \<lparr>pi_producer_id = 1, pi_producer_epoch = 0\<rparr>"

abbreviation sample_batch :: batch_identity where
  "sample_batch \<equiv> \<lparr>bi_transactional = True, bi_control = False, bi_producer_id = 1, bi_producer_epoch = 0,
     bi_base_sequence = 0, bi_record_count = 1\<rparr>"

definition sample_registered :: "sample_file tx_coordinator" where
  "sample_registered = snd (tx_init_producer sample_json (\<lambda>_. IoOk) (Some ''orders'') 100 0 fresh_coordinator)"

definition sample_begun :: "sample_file tx_coordinator" where
  "sample_begun = snd (tx_add_partitions sample_json IoOk sample_producer [sample_part] 0 sample_registered)"

definition sample_prepared :: "sample_file tx_coordinator" where
  "sample_prepared = snd (tx_prepare_append sample_json IoOk sample_part sample_batch sample_begun)"

definition sample_appended :: "sample_file tx_coordinator" where
  "sample_appended = snd (tx_complete_append sample_json IoOk sample_part sample_batch 5 5 sample_prepared)"

lemma sample_eval:
  "tx_lookup_producer 1 sample_appended \<noteq> None"
  "tx_last_stable_offset sample_part 10 sample_appended = 5"
  by code_simp+

lemma reregistration_exposes_open_data:
  "let c = snd (tx_init_producer sample_json (\<lambda>_. IoOk) (Some ''orders'') 100 0 sample_appended)
   in tx_last_stable_offset sample_part 10 c = 10 \<and> tx_aborted_ranges sample_part 0 10 c = []"
  by code_simp

lemma abort_misses_append_in_flight:
  "let aborted = tx_end_transaction sample_json IoOk sample_producer False sample_prepared;
       completed = tx_complete_append sample_json IoOk sample_part sample_batch 5 5 (snd aborted)
   in fst aborted = Inr [] \<and> fst completed = Inr () \<and>
      tx_last_stable_offset sample_part 10 (snd completed) = 10 \<and> tx_aborted_ranges sample_part 0 10 (snd completed) = []"
  by code_simp

lemma recovery_aborts_committed_batch:
  "let committed = snd (tx_end_transaction sample_json IoOk sample_producer True sample_appended);
       next_begun = snd (tx_add_partitions sample_json IoOk sample_producer [sample_part] 0 committed);
       reopened = projr_or fresh_coordinator (fst (sample_open (tc_files next_begun)));
       recovered = snd (tx_recover_partition sample_json (\<lambda>_. IoOk) sample_part [(sample_batch, 5, 5)] reopened);
       aborted = snd (tx_end_transaction sample_json IoOk sample_producer False recovered)
   in tx_last_stable_offset sample_part 10 committed = 10 \<and> tx_last_stable_offset sample_part 10 recovered = 5 \<and>
      tx_aborted_ranges sample_part 0 10 aborted = [\<lparr>ar_producer_id = 1, ar_first_offset = 5, ar_last_offset = 5\<rparr>]"
  by code_simp
section \<open>Snapshots\<close>

text \<open>What the shard files hold once every dirty shard has been written.\<close>

definition flushed_file :: "'f tx_json \<Rightarrow> 'f tx_coordinator \<Rightarrow> nat \<Rightarrow> 'f option" where
  "flushed_file json c k =
     (if tc_dirty c ! k
      then (case tj_write_shard json (tc_shards c ! k) of Inl _ \<Rightarrow> tf_shards (tc_files c) ! k | Inr f \<Rightarrow> Some f)
      else tf_shards (tc_files c) ! k)"

lemma persist_shard_ok:
  assumes "persist_shard json io k c = (Inr u, c')"
  obtains f where "tj_write_shard json (tc_shards c ! k) = Inr f"
    "c' = c\<lparr>tc_files := (tc_files c)\<lparr>tf_shards := (tf_shards (tc_files c))[k := Some f]\<rparr>\<rparr>"
  using assms by (auto simp: persist_shard_def persist_file_def split: sum.splits io_outcome.splits)

lemma flush_shards_ok:
  assumes "distinct ks" and "\<forall>k \<in> set ks. k < length (tc_dirty c) \<and> k < length (tf_shards (tc_files c))"
    and "flush_shards json ios ks n c = (Inr m, c')"
  shows "tc_shards c' = tc_shards c \<and> m = n + length (filter (\<lambda>k. tc_dirty c ! k) ks) \<and>
    length (tc_dirty c') = length (tc_dirty c) \<and> length (tf_shards (tc_files c')) = length (tf_shards (tc_files c)) \<and>
    (\<forall>j < length (tc_dirty c). tc_dirty c' ! j = (if j \<in> set ks then False else tc_dirty c ! j)) \<and>
    (\<forall>j < length (tf_shards (tc_files c)). tf_shards (tc_files c') ! j =
       (if j \<in> set ks then flushed_file json c j else tf_shards (tc_files c) ! j))"
  using assms
proof (induction ks arbitrary: n c)
  case (Cons k ks)
  show ?case
  proof (cases "tc_dirty c ! k")
    case False
    then show ?thesis using Cons.IH [of c n] Cons.prems by (auto simp: flushed_file_def)
  next
    case True
    let ?c1 = "c\<lparr>tc_dirty := (tc_dirty c)[k := False]\<rparr>"
    obtain u c2 where p: "persist_shard json (ios k) k ?c1 = (Inr u, c2)" and
        rest: "flush_shards json ios ks (n + 1) c2 = (Inr m, c')"
      using Cons.prems(3) True by (auto simp: Let_def split: prod.splits sum.splits)
    obtain f where f: "tj_write_shard json (tc_shards ?c1 ! k) = Inr f"
        "c2 = ?c1\<lparr>tc_files := (tc_files ?c1)\<lparr>tf_shards := (tf_shards (tc_files ?c1))[k := Some f]\<rparr>\<rparr>"
      using persist_shard_ok [OF p] .
    have other: "flushed_file json c2 j = flushed_file json c j" if "j \<noteq> k" for j
      using that by (simp add: flushed_file_def f(2) split: sum.split)
    have keep: "filter (\<lambda>j. tc_dirty c2 ! j) ks = filter (\<lambda>j. tc_dirty c ! j) ks"
    proof (intro filter_cong refl)
      fix j assume "j \<in> set ks"
      then have "j \<noteq> k" using Cons.prems(1) by auto
      then show "tc_dirty c2 ! j = tc_dirty c ! j" by (simp add: f(2))
    qed
    have IH: "tc_shards c' = tc_shards c2 \<and> m = n + 1 + length (filter (\<lambda>k. tc_dirty c2 ! k) ks) \<and>
      length (tc_dirty c') = length (tc_dirty c2) \<and> length (tf_shards (tc_files c')) = length (tf_shards (tc_files c2)) \<and>
      (\<forall>j < length (tc_dirty c2). tc_dirty c' ! j = (if j \<in> set ks then False else tc_dirty c2 ! j)) \<and>
      (\<forall>j < length (tf_shards (tc_files c2)). tf_shards (tc_files c') ! j =
         (if j \<in> set ks then flushed_file json c2 j else tf_shards (tc_files c2) ! j))"
      using Cons.prems by (intro Cons.IH [OF _ _ rest]) (auto simp: f(2))
    have "tc_dirty c' ! j = (if j \<in> set (k # ks) then False else tc_dirty c ! j)" if "j < length (tc_dirty c)" for j
      using IH that by (simp add: f(2) nth_list_update)
    moreover have "tf_shards (tc_files c') ! j = (if j \<in> set (k # ks) then flushed_file json c j else tf_shards (tc_files c) ! j)"
      if "j < length (tf_shards (tc_files c))" for j
    proof (cases "j = k")
      case same: True
      then have "tf_shards (tc_files c2) ! j = Some f" using that by (simp add: f(2))
      moreover have "flushed_file json c j = Some f" using True f(1) same by (simp add: flushed_file_def)
      moreover have "j < length (tf_shards (tc_files c2))" using that by (simp add: f(2))
      ultimately show ?thesis using IH same Cons.prems(1) by simp
    next
      case False
      then have "tf_shards (tc_files c2) ! j = tf_shards (tc_files c) ! j" by (simp add: f(2))
      moreover have "j < length (tf_shards (tc_files c2))" using that by (simp add: f(2))
      ultimately show ?thesis using IH False other [OF False] by simp
    qed
    ultimately show ?thesis using IH keep True by (simp add: f(2))
  qed
qed simp

text \<open>
  C34. A successful \<open>flush_dirty\<close> captures every sequence update. It leaves the in-memory state
  alone, reports the number of shards that were dirty, clears every dirty flag, and leaves in
  each dirty shard's file the encoding of the shard as it is in memory; the other files are
  untouched.
\<close>

theorem flush_writes_every_dirty_shard:
  assumes "tx_flush_dirty json ios c = (Inr n, c')" and "length (tc_shards c) = transaction_shards"
    and "length (tc_dirty c) = transaction_shards" and "length (tf_shards (tc_files c)) = transaction_shards"
  shows "tc_shards c' = tc_shards c \<and> n = length (filter id (tc_dirty c)) \<and>
    tc_dirty c' = replicate transaction_shards False \<and>
    tf_shards (tc_files c') = map (flushed_file json c) [0..<transaction_shards]"
proof -
  have "tc_shards c' = tc_shards c \<and> n = 0 + length (filter (\<lambda>k. tc_dirty c ! k) [0..<transaction_shards]) \<and>
    length (tc_dirty c') = length (tc_dirty c) \<and> length (tf_shards (tc_files c')) = length (tf_shards (tc_files c)) \<and>
    (\<forall>j < length (tc_dirty c). tc_dirty c' ! j = (if j \<in> set [0..<transaction_shards] then False else tc_dirty c ! j)) \<and>
    (\<forall>j < length (tf_shards (tc_files c)). tf_shards (tc_files c') ! j =
       (if j \<in> set [0..<transaction_shards] then flushed_file json c j else tf_shards (tc_files c) ! j))"
    using assms by (intro flush_shards_ok) (simp_all add: tx_flush_dirty_def)
  moreover have "length (filter (\<lambda>k. tc_dirty c ! k) [0..<transaction_shards]) = length (filter id (tc_dirty c))"
  proof -
    have "filter id (tc_dirty c) = filter id (map (\<lambda>k. tc_dirty c ! k) [0..<transaction_shards])"
      using assms(3) by (metis map_nth)
    then show ?thesis by (simp add: filter_map comp_def)
  qed
  ultimately show ?thesis using assms(3,4) by (auto intro!: nth_equalityI)
qed

text \<open>Samples for the theorems above.\<close>

lemma append_retry_returns_first_offset_witness:
  "fst (tx_prepare_append sample_json IoOk sample_part sample_batch sample_appended) = Inr (DuplicateBatch 5)"
proof -
  have c: "tx_prepare_append sample_json IoOk sample_part sample_batch sample_begun = (Inr AppendBatch, sample_prepared)"
    by (simp add: sample_prepared_def prod_eq_iff) code_simp
  have l: "length (tc_shards sample_begun) = transaction_shards" by code_simp
  have d: "tx_complete_append sample_json IoOk sample_part sample_batch 5 5 sample_prepared =
      (fst (tx_complete_append sample_json IoOk sample_part sample_batch 5 5 sample_prepared), sample_appended)"
    by (simp add: sample_appended_def)
  show ?thesis
    using append_retry_returns_first_offset [OF c l d, of IoOk] by simp
qed

definition sample_shard :: tx_shard where
  "sample_shard = tc_shards sample_begun ! 1"


lemma flush_writes_every_dirty_shard_witness:
  "fst (tx_flush_dirty sample_json (\<lambda>_. IoOk) sample_appended) = Inr 1 \<and>
   tf_shards (tc_files (snd (tx_flush_dirty sample_json (\<lambda>_. IoOk) sample_appended))) ! 1 =
     Some (Inr (Inl (tc_shards sample_appended ! 1)))"
proof -
  let ?f = "tx_flush_dirty sample_json (\<lambda>_. IoOk) sample_appended"
  have "fst ?f = Inr 1" by code_simp
  then have f: "?f = (Inr 1, snd ?f)" by (metis prod.collapse)
  have l: "length (tc_shards sample_appended) = transaction_shards" "length (tc_dirty sample_appended) = transaction_shards"
    "length (tf_shards (tc_files sample_appended)) = transaction_shards" by code_simp+
  have "flushed_file sample_json sample_appended 1 = Some (Inr (Inl (tc_shards sample_appended ! 1)))" by code_simp
  moreover have "tf_shards (tc_files (snd ?f)) = map (flushed_file sample_json sample_appended) [0..<transaction_shards]"
    using flush_writes_every_dirty_shard [OF f l] by blast
  ultimately show ?thesis using \<open>fst ?f = Inr 1\<close> by (simp add: transaction_shards_def)
qed

text \<open>The isolation theorems on the sample run.\<close>

definition sample_iso :: "sample_file iso_state" where
  "sample_iso = \<lparr>is_coord = fresh_coordinator, is_inflight = [], is_end = (\<lambda>_. 0), is_open = [], is_aborted = []\<rparr>"

definition sample_iso_prepared :: "sample_file iso_state" where
  "sample_iso_prepared = sample_iso\<lparr>is_coord := sample_prepared, is_inflight := [(sample_part, sample_batch)]\<rparr>"

definition sample_iso_open :: "sample_file iso_state" where
  "sample_iso_open = \<lparr>is_coord = sample_appended, is_inflight = [], is_end = (\<lambda>_. 0)(sample_part := 6),
     is_open = [(1, sample_part, 5, 5)], is_aborted = []\<rparr>"

definition sample_iso_aborted :: "sample_file iso_state" where
  "sample_iso_aborted = sample_iso_open\<lparr>is_coord := snd (tx_end_transaction sample_json IoOk sample_producer False sample_appended),
     is_open := [], is_aborted := [(1, sample_part, 5, 5)]\<rparr>"

lemma sample_iso_init: "iso_init sample_iso"
  by (simp add: iso_init_def sample_iso_def fresh_coordinator_def)

lemma sample_iso_begun: "(iso_step sample_json)\<^sup>*\<^sup>* sample_iso (sample_iso\<lparr>is_coord := sample_begun\<rparr>)"
proof -
  have no: "not_ongoing (is_coord sample_iso) (fst (assign_producer_id (Some ''orders'') (tc_metadata (is_coord sample_iso))))"
    and idle: "idle sample_iso (fst (assign_producer_id (Some ''orders'') (tc_metadata (is_coord sample_iso))))"
    by code_simp+
  have "iso_step sample_json sample_iso (sample_iso\<lparr>is_coord := sample_registered\<rparr>)"
    using iso_step.register [OF no idle, of sample_json "\<lambda>_. IoOk" 100 0]
    by (simp add: sample_registered_def sample_iso_def)
  moreover have "iso_step sample_json (sample_iso\<lparr>is_coord := sample_registered\<rparr>) (sample_iso\<lparr>is_coord := sample_begun\<rparr>)"
    using iso_step.add_partitions [of sample_json "sample_iso\<lparr>is_coord := sample_registered\<rparr>" IoOk sample_producer "[sample_part]" 0]
    by (simp add: sample_begun_def)
  ultimately show ?thesis by (meson r_into_rtranclp rtranclp_trans)
qed

lemma sample_iso_reaches_open: "(iso_step sample_json)\<^sup>*\<^sup>* sample_iso sample_iso_open"
proof -
  have "tx_prepare_append sample_json IoOk sample_part sample_batch sample_begun = (Inr AppendBatch, sample_prepared)"
    by (simp add: sample_prepared_def prod_eq_iff) code_simp
  then have "iso_step sample_json (sample_iso\<lparr>is_coord := sample_begun\<rparr>) sample_iso_prepared"
    using iso_step.prepare [of sample_json IoOk sample_part sample_batch "sample_iso\<lparr>is_coord := sample_begun\<rparr>"]
    by (simp add: sample_iso_prepared_def sample_iso_def)
  moreover have "iso_step sample_json sample_iso_prepared sample_iso_open"
    using iso_step.complete [of sample_part sample_batch sample_iso_prepared 5 5 sample_json IoOk]
    by (simp add: sample_iso_prepared_def sample_iso_def sample_iso_open_def sample_appended_def)
  ultimately show ?thesis using sample_iso_begun by (meson rtranclp.rtrancl_into_rtrancl)
qed

lemma sample_iso_reaches_aborted: "(iso_step sample_json)\<^sup>*\<^sup>* sample_iso sample_iso_aborted"
proof -
  have "idle sample_iso_open (pi_producer_id sample_producer)" by (simp add: idle_def sample_iso_open_def)
  moreover have "ends_transaction sample_appended sample_producer" by code_simp
  ultimately have "iso_step sample_json sample_iso_open sample_iso_aborted"
    using iso_step.abort [of sample_iso_open sample_producer sample_json IoOk]
    by (simp add: sample_iso_open_def sample_iso_aborted_def)
  then show ?thesis using sample_iso_reaches_open by (rule rtranclp.rtrancl_into_rtrancl [rotated])
qed



section \<open>Runs outside the side conditions\<close>

text \<open>The migration of the old file format, interrupted after the metadata was written.\<close>

definition legacy_files :: "sample_file tx_files" where
  "legacy_files = no_files\<lparr>tf_legacy := Some (Inr (Inr \<lparr>tl_next_producer_id = 1, tl_transactional_ids = [(''orders'', 1)],
     tl_producers = [(1, registered_producer (Some ''orders'') 100 0 3)], tl_aborted = []\<rparr>))\<rparr>"

definition interrupted_files :: "sample_file tx_files" where
  "interrupted_files = snd (tx_open length sample_json (\<lambda>f. if f = MetadataFile then IoOk else IoFailedBefore) IoOk legacy_files)"

definition opened_without :: "int \<Rightarrow> tx_error + 'f tx_coordinator \<Rightarrow> bool" where
  "opened_without pid r = (case r of Inl _ \<Rightarrow> False | Inr c \<Rightarrow> tx_lookup_producer pid c = None)"

lemma interrupted_import_loses_producers:
  "tf_legacy interrupted_files = tf_legacy legacy_files" "opened_without 1 (fst (sample_open interrupted_files))"
  by code_simp+

lemma last_epoch_is_handed_out_again:
  "let s = put_producer 1 (registered_producer (Some ''orders'') 100 0 32767) tx_shard_default
   in fst (sh_register 1 (Some ''orders'') 100 0 s) = 32767"
  by code_simp

end
