(* ===== verification/Buffers.thy ===== *)
theory Buffers
  imports Prelude
begin

text \<open>
  Payload buffers and byte budgets of \<open>crates/pepper-buffer/src/lib.rs\<close>: immutable buffers with
  a logical length, scatter/gather chains of them with slicing and coalescing, and the
  lock-free byte budget, whose compare-and-exchange loop is a step relation over the threads
  that use it.
\<close>

section \<open>Buffers and chains\<close>

datatype checksum = Crc32c nat | Blake3 bytes

datatype buffer_error = InvalidRange nat nat nat | LengthOverflow | CoalesceLimit nat nat
  | RequestExceedsBudget nat nat | BudgetClosed | BudgetExhausted

record owned_buffer =
  ob_bytes :: bytes
  ob_logical_len :: nat
  ob_checksum :: "checksum option"

definition ob_new :: "bytes \<Rightarrow> owned_buffer" where
  "ob_new bs = \<lparr>ob_bytes = bs, ob_logical_len = length bs, ob_checksum = None\<rparr>"

definition ob_slice :: "nat \<Rightarrow> nat \<Rightarrow> owned_buffer \<Rightarrow> buffer_error + owned_buffer" where
  "ob_slice start stop b =
     (if start > stop \<or> stop > length (ob_bytes b) then Inl (InvalidRange start stop (length (ob_bytes b)))
      else Inr \<lparr>ob_bytes = slice start (stop - start) (ob_bytes b),
                ob_logical_len = (if stop - start = length (ob_bytes b) then ob_logical_len b else stop - start),
                ob_checksum = None\<rparr>)"

record buffer_chain =
  bc_segments :: "owned_buffer list"
  bc_encoded_len :: nat
  bc_logical_len :: nat

definition bc_new :: buffer_chain where
  "bc_new = \<lparr>bc_segments = [], bc_encoded_len = 0, bc_logical_len = 0\<rparr>"

definition bc_from_buffer :: "owned_buffer \<Rightarrow> buffer_chain" where
  "bc_from_buffer b =
     \<lparr>bc_segments = [b], bc_encoded_len = length (ob_bytes b), bc_logical_len = ob_logical_len b\<rparr>"

text \<open>\<open>push\<close> stores the first sum before it checks the second.\<close>

definition bc_push :: "owned_buffer \<Rightarrow> buffer_chain \<Rightarrow> (buffer_error + unit) \<times> buffer_chain" where
  "bc_push b c =
     (case checked_add 64 (bc_encoded_len c) (length (ob_bytes b)) of
        None \<Rightarrow> (Inl LengthOverflow, c)
      | Some e \<Rightarrow>
          (let c1 = c\<lparr>bc_encoded_len := e\<rparr>
           in case checked_add 64 (bc_logical_len c1) (ob_logical_len b) of
                None \<Rightarrow> (Inl LengthOverflow, c1)
              | Some l \<Rightarrow> (Inr (), c1\<lparr>bc_logical_len := l, bc_segments := bc_segments c1 @ [b]\<rparr>)))"

fun bc_push_all :: "owned_buffer list \<Rightarrow> buffer_chain \<Rightarrow> buffer_error + buffer_chain" where
  "bc_push_all [] c = Inr c"
| "bc_push_all (b # bs) c = (case bc_push b c of (Inl e, _) \<Rightarrow> Inl e | (Inr _, c1) \<Rightarrow> bc_push_all bs c1)"

definition bc_from_segments :: "owned_buffer list \<Rightarrow> buffer_error + buffer_chain" where
  "bc_from_segments bs = bc_push_all bs bc_new"

definition bc_bytes :: "buffer_chain \<Rightarrow> bytes" where
  "bc_bytes c = concat (map ob_bytes (bc_segments c))"

definition bc_io_slices :: "buffer_chain \<Rightarrow> bytes list" where
  "bc_io_slices c = map ob_bytes (filter (\<lambda>b. ob_bytes b \<noteq> []) (bc_segments c))"

fun bc_slice_loop :: "nat \<Rightarrow> nat \<Rightarrow> nat \<Rightarrow> owned_buffer list \<Rightarrow> buffer_chain \<Rightarrow> buffer_error + buffer_chain" where
  "bc_slice_loop start stop cursor [] out = Inr out"
| "bc_slice_loop start stop cursor (b # bs) out =
     (let segment_end = cursor + length (ob_bytes b);
          overlap_start = max start cursor;
          overlap_end = min stop segment_end;
          pushed = (if overlap_start < overlap_end
                    then (case ob_slice (overlap_start - cursor) (overlap_end - cursor) b of
                            Inl e \<Rightarrow> Inl e
                          | Inr x \<Rightarrow> (case bc_push x out of (Inl e, _) \<Rightarrow> Inl e | (Inr _, out1) \<Rightarrow> Inr out1))
                    else Inr out)
      in case pushed of
           Inl e \<Rightarrow> Inl e
         | Inr out1 \<Rightarrow> if segment_end \<ge> stop then Inr out1 else bc_slice_loop start stop segment_end bs out1)"

definition bc_slice :: "nat \<Rightarrow> nat \<Rightarrow> buffer_chain \<Rightarrow> buffer_error + buffer_chain" where
  "bc_slice start stop c =
     (if start > stop \<or> stop > bc_encoded_len c then Inl (InvalidRange start stop (bc_encoded_len c))
      else bc_slice_loop start stop 0 (bc_segments c) bc_new)"

definition bc_coalesce :: "nat \<Rightarrow> buffer_chain \<Rightarrow> buffer_error + owned_buffer" where
  "bc_coalesce maximum c =
     (if bc_encoded_len c > maximum then Inl (CoalesceLimit (bc_encoded_len c) maximum)
      else if length (bc_segments c) = 1 then Inr (bc_segments c ! 0)
      else Inr ((ob_new (bc_bytes c))\<lparr>ob_logical_len := bc_logical_len c\<rparr>))"

text \<open>The lengths a chain keeps are those of its segments.\<close>

definition chain_ok :: "buffer_chain \<Rightarrow> bool" where
  "chain_ok c \<longleftrightarrow> bc_encoded_len c = length (bc_bytes c) \<and>
     bc_logical_len c = (\<Sum>b\<leftarrow>bc_segments c. ob_logical_len b) \<and> bc_encoded_len c < 2 ^ 64 \<and> bc_logical_len c < 2 ^ 64"

lemma chain_ok_new [simp]: "chain_ok bc_new"
  by (simp add: chain_ok_def bc_new_def bc_bytes_def)

lemma bc_push_ok:
  assumes "chain_ok c" "bc_push b c = (Inr u, c')"
  shows "chain_ok c'" and "bc_bytes c' = bc_bytes c @ ob_bytes b"
    and "bc_logical_len c' = bc_logical_len c + ob_logical_len b" and "bc_encoded_len c' = bc_encoded_len c + length (ob_bytes b)"
  using assms by (auto simp: bc_push_def chain_ok_def bc_bytes_def Let_def int_ops split: option.splits)

lemma bc_push_total:
  assumes "bc_encoded_len c + length (ob_bytes b) < 2 ^ 64" "bc_logical_len c + ob_logical_len b < 2 ^ 64"
  shows "\<exists>c'. bc_push b c = (Inr (), c')"
  using assms by (simp add: bc_push_def checked_add_def)

lemma bc_push_all_ok:
  "chain_ok c \<Longrightarrow> bc_push_all bs c = Inr c' \<Longrightarrow> chain_ok c' \<and> bc_bytes c' = bc_bytes c @ concat (map ob_bytes bs)"
proof (induction bs arbitrary: c)
  case (Cons b bs)
  then obtain u c1 where p: "bc_push b c = (Inr u, c1)" "bc_push_all bs c1 = Inr c'"
    by (auto split: prod.splits sum.splits)
  then show ?case using Cons.IH [OF bc_push_ok(1) [OF Cons.prems(1) p(1)] p(2)] bc_push_ok(2) [OF Cons.prems(1) p(1)] by simp
qed simp

lemma ob_slice_ok:
  "start \<le> stop \<Longrightarrow> stop \<le> length (ob_bytes b) \<Longrightarrow> \<exists>x. ob_slice start stop b = Inr x \<and>
     ob_bytes x = slice start (stop - start) (ob_bytes b) \<and> ob_logical_len x \<le> max (ob_logical_len b) (stop - start)"
  by (simp add: ob_slice_def)

lemma slice_split:
  "slice i n (xs @ ys) = slice i (min n (length xs - i)) xs @ slice (i - length xs) (n - (length xs - i)) ys"
  by (simp add: slice_def min_def)

lemma bc_slice_loop_ok:
  assumes "chain_ok out" "start \<le> stop" "stop \<le> cursor + length (concat (map ob_bytes bs))"
    and "bc_encoded_len out + length (concat (map ob_bytes bs)) < 2 ^ 64"
    and "bc_logical_len out + (\<Sum>b\<leftarrow>bs. ob_logical_len b) + length (concat (map ob_bytes bs)) < 2 ^ 64"
  shows "\<exists>c. bc_slice_loop start stop cursor bs out = Inr c \<and> chain_ok c \<and>
    bc_bytes c = bc_bytes out @ slice (start - cursor) (stop - max start cursor) (concat (map ob_bytes bs))"
  using assms
proof (induction bs arbitrary: cursor out)
  case (Cons b bs)
  let ?n = "length (ob_bytes b)"
  let ?e = "cursor + ?n"
  let ?lo = "max start cursor"
  let ?hi = "min stop ?e"
  let ?rest = "concat (map ob_bytes bs)"
  let ?pushed = "if ?lo < ?hi
      then (case ob_slice (?lo - cursor) (?hi - cursor) b of Inl e \<Rightarrow> Inl e
        | Inr x \<Rightarrow> (case bc_push x out of (Inl e, _) \<Rightarrow> Inl e | (Inr _, out1) \<Rightarrow> Inr out1))
      else Inr out"
  have "\<exists>out1. ?pushed = Inr out1 \<and> chain_ok out1 \<and>
      bc_bytes out1 = bc_bytes out @ slice (start - cursor) (?hi - ?lo) (ob_bytes b) \<and>
      bc_encoded_len out1 \<le> bc_encoded_len out + ?n \<and> bc_logical_len out1 \<le> bc_logical_len out + ob_logical_len b + ?n"
  proof (cases "?lo < ?hi")
    case True
    have "?lo - cursor \<le> ?hi - cursor" "?hi - cursor \<le> ?n" using True by auto
    then obtain x where x: "ob_slice (?lo - cursor) (?hi - cursor) b = Inr x"
        "ob_bytes x = slice (?lo - cursor) (?hi - cursor - (?lo - cursor)) (ob_bytes b)"
        "ob_logical_len x \<le> max (ob_logical_len b) (?hi - cursor - (?lo - cursor))"
      using ob_slice_ok [of "?lo - cursor" "?hi - cursor" b] by blast
    have len: "length (ob_bytes x) \<le> ?n" by (simp add: x(2) slice_def)
    have ll: "ob_logical_len x \<le> ob_logical_len b + ?n" using x(3) by auto
    have "bc_encoded_len out + length (ob_bytes x) < 2 ^ 64" using Cons.prems(4) len by simp
    moreover have "bc_logical_len out + ob_logical_len x < 2 ^ 64" using Cons.prems(5) ll by simp
    ultimately obtain out1 where p: "bc_push x out = (Inr (), out1)" using bc_push_total [of out x] by blast
    have "bc_bytes out1 = bc_bytes out @ slice (start - cursor) (?hi - ?lo) (ob_bytes b)"
      using bc_push_ok(2) [OF Cons.prems(1) p] x(2) True by (simp add: max_def)
    then show ?thesis
      using True x(1) p bc_push_ok [OF Cons.prems(1) p] len ll by simp
  next
    case False
    then show ?thesis using Cons.prems(1) by (auto simp: slice_def max_def min_def split: if_splits)
  qed
  then obtain out1 where o1: "?pushed = Inr out1" "chain_ok out1"
      "bc_bytes out1 = bc_bytes out @ slice (start - cursor) (?hi - ?lo) (ob_bytes b)"
      "bc_encoded_len out1 \<le> bc_encoded_len out + ?n" "bc_logical_len out1 \<le> bc_logical_len out + ob_logical_len b + ?n"
    by blast
  have loop: "bc_slice_loop start stop cursor (b # bs) out =
      (if ?e \<ge> stop then Inr out1 else bc_slice_loop start stop ?e bs out1)"
    using o1(1) by (simp only: bc_slice_loop.simps Let_def sum.case)
  show ?case
  proof (cases "?e \<ge> stop")
    case True
    then have "slice (start - cursor) (stop - ?lo) (ob_bytes b @ ?rest) = slice (start - cursor) (?hi - ?lo) (ob_bytes b)"
      by (auto simp: slice_def max_def min_def)
    then show ?thesis using True o1 loop by simp
  next
    case False
    have "\<exists>c. bc_slice_loop start stop ?e bs out1 = Inr c \<and> chain_ok c \<and>
        bc_bytes c = bc_bytes out1 @ slice (start - ?e) (stop - max start ?e) ?rest"
      using Cons.prems o1 by (intro Cons.IH) auto
    moreover have "slice (start - cursor) (?hi - ?lo) (ob_bytes b) @ slice (start - ?e) (stop - max start ?e) ?rest =
        slice (start - cursor) (stop - ?lo) (ob_bytes b @ ?rest)"
      unfolding slice_split [of _ _ "ob_bytes b"] using False by (auto simp: slice_def max_def min_def add.commute)
    ultimately show ?thesis using False o1(3) loop by auto
  qed
qed (simp add: slice_def)



text \<open>A push that fails on the logical length has already changed the encoded length.\<close>

lemma failed_push_breaks_lengths:
  "let c = bc_from_buffer \<lparr>ob_bytes = [1], ob_logical_len = 2 ^ 64 - 1, ob_checksum = None\<rparr>
   in chain_ok c \<and> fst (bc_push (ob_new [2]) c) = Inl LengthOverflow \<and> \<not> chain_ok (snd (bc_push (ob_new [2]) c))"
  by code_simp

section \<open>The lock-free byte budget\<close>

datatype budget_pc = BpIdle | BpTrying nat nat | BpRecording nat nat | BpHolding nat

record byte_budget =
  bb_capacity :: nat
  bb_in_use :: nat
  bb_high_water :: nat
  bb_acquisitions :: nat
  bb_rejections :: nat
  bb_threads :: "budget_pc list"

definition bb_new :: "nat \<Rightarrow> nat \<Rightarrow> buffer_error + byte_budget" where
  "bb_new threads capacity =
     (if capacity = 0 then Inl (RequestExceedsBudget 0 0)
      else Inr \<lparr>bb_capacity = capacity, bb_in_use = 0, bb_high_water = 0, bb_acquisitions = 0, bb_rejections = 0,
                bb_threads = replicate threads BpIdle\<rparr>)"

definition bb_set :: "nat \<Rightarrow> budget_pc \<Rightarrow> byte_budget \<Rightarrow> byte_budget" where
  "bb_set t pc b = b\<lparr>bb_threads := (bb_threads b)[t := pc]\<rparr>"

definition bb_reject :: "nat \<Rightarrow> byte_budget \<Rightarrow> byte_budget" where
  "bb_reject t b = bb_set t BpIdle (b\<lparr>bb_rejections := wrapping_add 64 (bb_rejections b) 1\<rparr>)"

text \<open>
  The instructions of \<open>try_acquire\<close> and of the permit's \<open>drop\<close>, one atomic access each. A weak
  compare-and-exchange may also fail when the values agree.
\<close>

inductive budget_step :: "byte_budget \<Rightarrow> byte_budget \<Rightarrow> bool" where
  oversized: "t < length (bb_threads b) \<Longrightarrow> bb_threads b ! t = BpIdle \<Longrightarrow> bb_capacity b < n \<Longrightarrow>
     budget_step b (bb_reject t b)"
| load: "t < length (bb_threads b) \<Longrightarrow> bb_threads b ! t = BpIdle \<Longrightarrow> n \<le> bb_capacity b \<Longrightarrow>
     budget_step b (bb_set t (BpTrying n (bb_in_use b)) b)"
| exhausted: "t < length (bb_threads b) \<Longrightarrow> bb_threads b ! t = BpTrying n current \<Longrightarrow>
     (case checked_add 64 current n of None \<Rightarrow> True | Some next_value \<Rightarrow> bb_capacity b < next_value) \<Longrightarrow>
     budget_step b (bb_reject t b)"
| exchange: "t < length (bb_threads b) \<Longrightarrow> bb_threads b ! t = BpTrying n current \<Longrightarrow>
     checked_add 64 current n = Some next_value \<Longrightarrow> next_value \<le> bb_capacity b \<Longrightarrow> bb_in_use b = current \<Longrightarrow>
     budget_step b (bb_set t (BpRecording n next_value) (b\<lparr>bb_in_use := next_value\<rparr>))"
| retry: "t < length (bb_threads b) \<Longrightarrow> bb_threads b ! t = BpTrying n current \<Longrightarrow>
     checked_add 64 current n = Some next_value \<Longrightarrow> next_value \<le> bb_capacity b \<Longrightarrow>
     budget_step b (bb_set t (BpTrying n (bb_in_use b)) b)"
| record_use: "t < length (bb_threads b) \<Longrightarrow> bb_threads b ! t = BpRecording n next_value \<Longrightarrow>
     budget_step b (bb_set t (BpHolding n)
       (b\<lparr>bb_acquisitions := wrapping_add 64 (bb_acquisitions b) 1, bb_high_water := max (bb_high_water b) next_value\<rparr>))"
| drop_permit: "t < length (bb_threads b) \<Longrightarrow> bb_threads b ! t = BpHolding n \<Longrightarrow>
     budget_step b (bb_set t BpIdle (b\<lparr>bb_in_use := (bb_in_use b + 2 ^ 64 - n) mod 2 ^ 64\<rparr>))"

fun held :: "budget_pc \<Rightarrow> nat" where
  "held (BpRecording n _) = n"
| "held (BpHolding n) = n"
| "held _ = 0"

definition recorded_ok :: "nat \<Rightarrow> budget_pc \<Rightarrow> bool" where
  "recorded_ok capacity pc = (case pc of BpRecording _ m \<Rightarrow> m \<le> capacity | _ \<Rightarrow> True)"

definition budget_inv :: "byte_budget \<Rightarrow> bool" where
  "budget_inv b \<longleftrightarrow> bb_in_use b = (\<Sum>pc\<leftarrow>bb_threads b. held pc) \<and> bb_in_use b \<le> bb_capacity b \<and>
     bb_capacity b < 2 ^ 64 \<and> bb_high_water b \<le> bb_capacity b \<and> list_all (recorded_ok (bb_capacity b)) (bb_threads b)"

definition budget_init :: "byte_budget \<Rightarrow> bool" where
  "budget_init b \<longleftrightarrow> (\<exists>threads capacity. capacity < 2 ^ 64 \<and> bb_new threads capacity = Inr b)"

lemma held_set:
  assumes "t < length pcs"
  shows "(\<Sum>pc\<leftarrow>pcs[t := pc]. held pc) + held (pcs ! t) = (\<Sum>pc\<leftarrow>pcs. held pc) + held pc"
proof -
  have "held (pcs ! t) \<le> (\<Sum>pc\<leftarrow>pcs. held pc)" using assms by (intro member_le_sum_list) simp_all
  moreover have "(\<Sum>pc\<leftarrow>pcs[t := pc]. held pc) = (\<Sum>pc\<leftarrow>pcs. held pc) + held pc - held (pcs ! t)"
    using assms sum_list_update [of t "map held pcs" "held pc"] by (simp add: map_update)
  ultimately show ?thesis by simp
qed

lemma recorded_set:
  "list_all (recorded_ok m) pcs \<Longrightarrow> recorded_ok m pc \<Longrightarrow> list_all (recorded_ok m) (pcs[t := pc])"
  using set_update_subset_insert [of pcs t pc] by (auto simp: list_all_iff)

lemma budget_step_inv: "budget_step b b' \<Longrightarrow> budget_inv b \<Longrightarrow> budget_inv b'"
proof (induction rule: budget_step.induct)
  case (oversized t b n)
  then show ?case using held_set [of t "bb_threads b" BpIdle]
    by (auto simp: budget_inv_def bb_reject_def bb_set_def recorded_ok_def intro: recorded_set)
next
  case (load t b n)
  then show ?case using held_set [of t "bb_threads b" "BpTrying n (bb_in_use b)"]
    by (auto simp: budget_inv_def bb_set_def recorded_ok_def intro: recorded_set)
next
  case (exhausted t b n current)
  then show ?case using held_set [of t "bb_threads b" BpIdle]
    by (auto simp: budget_inv_def bb_reject_def bb_set_def recorded_ok_def intro: recorded_set)
next
  case (exchange t b n current next_value)
  then show ?case using held_set [of t "bb_threads b" "BpRecording n next_value"]
    by (auto simp: budget_inv_def bb_set_def recorded_ok_def int_ops intro: recorded_set)
next
  case (retry t b n current next_value)
  then show ?case using held_set [of t "bb_threads b" "BpTrying n (bb_in_use b)"]
    by (auto simp: budget_inv_def bb_set_def recorded_ok_def intro: recorded_set)
next
  case (record_use t b n next_value)
  then have "next_value \<le> bb_capacity b" by (auto simp: budget_inv_def list_all_length recorded_ok_def split: budget_pc.splits)
  then show ?case using record_use held_set [of t "bb_threads b" "BpHolding n"]
    by (auto simp: budget_inv_def bb_set_def recorded_ok_def intro: recorded_set)
next
  case (drop_permit t b n)
  then have sum: "(\<Sum>pc\<leftarrow>(bb_threads b)[t := BpIdle]. held pc) + n = bb_in_use b"
    using held_set [of t "bb_threads b" BpIdle] by (simp add: budget_inv_def)
  then have "bb_in_use b + 2 ^ 64 - n = (bb_in_use b - n) + 2 ^ 64" by simp
  moreover have "bb_in_use b - n < 2 ^ 64" using drop_permit.prems by (auto simp: budget_inv_def)
  ultimately have "(bb_in_use b + 2 ^ 64 - n) mod 2 ^ 64 = bb_in_use b - n" by (simp only: mod_add_self2 mod_less)
  then show ?case using drop_permit.prems sum
    by (auto simp: budget_inv_def bb_set_def recorded_ok_def intro: recorded_set)
qed

lemma budget_init_inv: "budget_init b \<Longrightarrow> budget_inv b"
  by (auto simp: budget_init_def bb_new_def budget_inv_def recorded_ok_def sum_list_replicate list_all_iff split: if_splits)

interpretation budget: invariant_system budget_init budget_step budget_inv
  by unfold_locales (auto intro: budget_init_inv budget_step_inv)

text \<open>
  C22. The lock-free budget is never exceeded and never leaks. In every interleaving of the
  threads, spurious failures of the exchange included, the counter equals the bytes of the
  permits in existence, it stays within the capacity, and so does the recorded high-water
  mark; releasing a permit never wraps below zero.
\<close>

theorem budget_never_exceeded:
  assumes "budget_init b0" and "budget_step\<^sup>*\<^sup>* b0 b"
  shows "bb_in_use b = (\<Sum>pc\<leftarrow>bb_threads b. held pc) \<and> bb_in_use b \<le> bb_capacity b \<and> bb_high_water b \<le> bb_capacity b"
  using budget.reachable_inv [OF assms] by (simp add: budget_inv_def)

definition one_thread :: byte_budget where
  "one_thread = \<lparr>bb_capacity = 10, bb_in_use = 0, bb_high_water = 0, bb_acquisitions = 0, bb_rejections = 0,
     bb_threads = [BpIdle]\<rparr>"

definition one_acquired :: byte_budget where
  "one_acquired = \<lparr>bb_capacity = 10, bb_in_use = 4, bb_high_water = 0, bb_acquisitions = 0, bb_rejections = 0,
     bb_threads = [BpRecording 4 4]\<rparr>"

lemma one_acquired_reachable: "budget_init one_thread" "budget_step\<^sup>*\<^sup>* one_thread one_acquired"
proof -
  show "budget_init one_thread"
    unfolding budget_init_def by (intro exI [of _ 1] exI [of _ 10]) (simp add: bb_new_def one_thread_def)
  have "budget_step one_thread (bb_set 0 (BpTrying 4 0) one_thread)"
    using budget_step.load [of 0 one_thread 4] by (simp add: one_thread_def)
  moreover have "budget_step (bb_set 0 (BpTrying 4 0) one_thread) one_acquired"
    using budget_step.exchange [of 0 "bb_set 0 (BpTrying 4 0) one_thread" 4 0 4]
    by (simp add: one_thread_def one_acquired_def bb_set_def checked_add_def)
  ultimately show "budget_step\<^sup>*\<^sup>* one_thread one_acquired" by (meson r_into_rtranclp rtranclp_trans)
qed

lemma budget_never_exceeded_witness:
  "bb_in_use one_acquired = 4 \<and> bb_in_use one_acquired = (\<Sum>pc\<leftarrow>bb_threads one_acquired. held pc)"
  using budget_never_exceeded [OF one_acquired_reachable] by (simp add: one_acquired_def)


end
