(* ===== verification/Extent_Format.thy ===== *)
theory Extent_Format
  imports Buffers
begin

text \<open>
  The on-disk format of \<open>crates/pepper-extent/src/lib.rs\<close>: the header of an extent file and the
  headers of its records, byte for byte, with their parsers. \<open>crc32c\<close> is a parameter: \<open>crc\<close>
  is its incremental form, as in \<open>crc32c_append\<close>.
\<close>

unbundle bit_operations_syntax

section \<open>Data\<close>

datatype compression = CompressionNone | Zstd

datatype encryption = EncryptionNone | Aes256Gcm

datatype storage_class = Hot | Warm | Cold

record record_metadata =
  rm_compression :: compression
  rm_encryption :: encryption
  rm_storage_class :: storage_class
  rm_live :: bool

definition record_metadata_default :: record_metadata where
  "record_metadata_default = \<lparr>rm_compression = CompressionNone, rm_encryption = EncryptionNone,
     rm_storage_class = Hot, rm_live = True\<rparr>"

type_synonym extent_id = bytes

datatype extent_error = InvalidConfiguration | InvalidRecordIdLength nat | NotFound extent_id | Sealed extent_id
  | ActiveExtent extent_id | ExtentLeased extent_id | InvalidTruncation extent_id nat | EmptyBatch | MixedExtents
  | ReservationExceeded nat nat | InvalidReservation | CapacityExceeded nat nat | RecordNotFound extent_id nat
  | InvalidRecordRange nat nat nat | ChecksumMismatch bytes | Corrupt string | ExtentIo | Durability

type_synonym crc_function = "nat \<Rightarrow> bytes \<Rightarrow> nat"

text \<open>What the \<open>crc32c\<close> crate documents: appending continues the checksum, which is 32 bits wide.\<close>

definition crc_laws :: "crc_function \<Rightarrow> bool" where
  "crc_laws crc \<longleftrightarrow> (\<forall>c xs ys. crc (crc c xs) ys = crc c (xs @ ys)) \<and> (\<forall>c xs. c < 2 ^ 32 \<longrightarrow> crc c xs < 2 ^ 32) \<and>
     (\<forall>c. c < 2 ^ 32 \<longrightarrow> crc c [] = c)"

definition crc32c :: "crc_function \<Rightarrow> bytes \<Rightarrow> nat" where
  "crc32c crc xs = crc 0 xs"

definition extent_magic :: bytes where
  "extent_magic = [80, 69, 80, 69, 88, 84, 48, 49]"

definition record_magic :: bytes where
  "record_magic = [80, 69, 80, 69, 88, 82, 69, 67]"

definition format_version :: nat where
  "format_version = 1"

definition record_data :: "8 word" where
  "record_data = 1"

definition record_commit :: "8 word" where
  "record_commit = 2"

definition record_seal :: "8 word" where
  "record_seal = 3"

definition fixed_header_bytes :: nat where
  "fixed_header_bytes = 96"

definition max_record_id_bytes :: nat where
  "max_record_id_bytes = 512"

definition record_id_new :: "bytes \<Rightarrow> extent_error + bytes" where
  "record_id_new bs =
     (if bs = [] \<or> length bs > max_record_id_bytes then Inl (InvalidRecordIdLength (length bs)) else Inr bs)"

section \<open>Metadata flags\<close>

definition metadata_flags :: "record_metadata \<Rightarrow> 8 word" where
  "metadata_flags m =
     (let compression = (case rm_compression m of CompressionNone \<Rightarrow> 0 | Zstd \<Rightarrow> 1);
          encryption = (case rm_encryption m of EncryptionNone \<Rightarrow> 0 | Aes256Gcm \<Rightarrow> 1);
          storage = (case rm_storage_class m of Hot \<Rightarrow> 0 | Warm \<Rightarrow> 1 | Cold \<Rightarrow> 2)
      in compression OR push_bit 2 encryption OR push_bit 4 storage OR push_bit 7 (if rm_live m then 1 else 0))"

definition parse_metadata_flags :: "8 word \<Rightarrow> string + record_metadata" where
  "parse_metadata_flags flags =
     (let c = flags AND 3; e = drop_bit 2 flags AND 3; s = drop_bit 4 flags AND 7
      in if c \<noteq> 0 \<and> c \<noteq> 1 then Inl ''unknown compression flag''
         else if e \<noteq> 0 \<and> e \<noteq> 1 then Inl ''unknown encryption flag''
         else if s \<noteq> 0 \<and> s \<noteq> 1 \<and> s \<noteq> 2 then Inl ''unknown storage-class flag''
         else Inr \<lparr>rm_compression = (if c = 0 then CompressionNone else Zstd),
                   rm_encryption = (if e = 0 then EncryptionNone else Aes256Gcm),
                   rm_storage_class = (if s = 0 then Hot else if s = 1 then Warm else Cold),
                   rm_live = (flags AND 128 \<noteq> 0)\<rparr>)"

lemma parse_metadata_flags_flags [simp]: "parse_metadata_flags (metadata_flags m) = Inr m"
proof -
  obtain c e s l where m: "m = \<lparr>rm_compression = c, rm_encryption = e, rm_storage_class = s, rm_live = l\<rparr>"
    by (cases m) simp
  show ?thesis unfolding m by (cases c; cases e; cases s; cases l) (simp_all add: metadata_flags_def parse_metadata_flags_def)
qed

section \<open>The extent header\<close>

definition seal_crc :: "crc_function \<Rightarrow> nat \<Rightarrow> bytes \<Rightarrow> bytes" where
  "seal_crc crc alignment h = write_at (alignment - 4) (to_le_bytes 4 (crc32c crc (slice 0 (alignment - 4) h))) h"

definition extent_fields :: "extent_id \<Rightarrow> nat \<Rightarrow> (nat \<times> bytes) list" where
  "extent_fields eid alignment =
     [(0, extent_magic), (8, to_le_bytes 2 format_version), (16, eid), (32, to_le_bytes 8 alignment)]"

definition extent_header :: "crc_function \<Rightarrow> extent_id \<Rightarrow> nat \<Rightarrow> bytes" where
  "extent_header crc eid alignment =
     seal_crc crc alignment (write_fields (extent_fields eid alignment) (replicate alignment 0))"

definition validate_extent_header :: "crc_function \<Rightarrow> extent_id \<Rightarrow> nat \<Rightarrow> bytes \<Rightarrow> string + unit" where
  "validate_extent_header crc eid alignment h =
     (if length h \<noteq> alignment \<or> slice 0 8 h \<noteq> extent_magic then Inl ''extent magic mismatch''
      else if from_le_bytes (slice 8 2 h) \<noteq> format_version then Inl ''extent version mismatch''
      else if slice 16 16 h \<noteq> eid then Inl ''extent identity mismatch''
      else if from_le_bytes (slice 32 8 h) \<noteq> alignment then Inl ''extent alignment mismatch''
      else if crc32c crc (slice 0 (alignment - 4) h) \<noteq> from_le_bytes (drop (alignment - 4) h)
      then Inl ''extent header checksum mismatch''
      else Inr ())"

section \<open>Record headers\<close>

record record_header =
  rh_kind :: "8 word"
  rh_metadata :: record_metadata
  rh_batch_id :: nat
  rh_record_index :: nat
  rh_record_id :: bytes
  rh_logical_len :: nat
  rh_encoded_len :: nat
  rh_padded_len :: nat
  rh_payload_crc :: nat
  rh_digest :: bytes

text \<open>The digest of a data record is left out, and reads back as zeros.\<close>

definition record_fields :: "record_header \<Rightarrow> bool \<Rightarrow> (nat \<times> bytes) list" where
  "record_fields h with_digest =
     [(0, record_magic), (8, to_le_bytes 2 format_version), (10, [rh_kind h]), (11, [metadata_flags (rh_metadata h)]),
      (12, to_le_bytes 2 (length (rh_record_id h))), (16, to_le_bytes 8 (rh_batch_id h)),
      (24, to_le_bytes 8 (rh_record_index h)), (32, to_le_bytes 8 (rh_logical_len h)),
      (40, to_le_bytes 8 (rh_encoded_len h)), (48, to_le_bytes 8 (rh_padded_len h)),
      (56, to_le_bytes 4 (rh_payload_crc h))] @
     (if with_digest then [(60, rh_digest h)] else []) @
     [(fixed_header_bytes, rh_record_id h)]"

definition encode_record_header :: "crc_function \<Rightarrow> nat \<Rightarrow> record_header \<Rightarrow> bool \<Rightarrow> extent_error + bytes" where
  "encode_record_header crc alignment h with_digest =
     (if length (rh_record_id h) > alignment - fixed_header_bytes
      then Inl (InvalidRecordIdLength (length (rh_record_id h)))
      else Inr (seal_crc crc alignment (write_fields (record_fields h with_digest) (replicate alignment 0))))"

definition parse_record_header :: "crc_function \<Rightarrow> nat \<Rightarrow> bytes \<Rightarrow> string + record_header" where
  "parse_record_header crc alignment h =
     (if length h \<noteq> alignment \<or> slice 0 8 h \<noteq> record_magic then Inl ''record magic mismatch''
      else if from_le_bytes (slice 8 2 h) \<noteq> format_version then Inl ''record version mismatch''
      else if crc32c crc (slice 0 (alignment - 4) h) \<noteq> from_le_bytes (drop (alignment - 4) h)
      then Inl ''record header checksum mismatch''
      else (let id_len = from_le_bytes (slice 12 2 h)
            in if id_len = 0 \<or> id_len > max_record_id_bytes \<or> fixed_header_bytes + id_len > alignment - 4
               then Inl ''record ID length is invalid''
               else (case parse_metadata_flags (h ! 11) of
                   Inl e \<Rightarrow> Inl e
                 | Inr metadata \<Rightarrow> Inr
                     \<lparr>rh_kind = h ! 10, rh_metadata = metadata,
                      rh_batch_id = from_le_bytes (slice 16 8 h), rh_record_index = from_le_bytes (slice 24 8 h),
                      rh_record_id = slice fixed_header_bytes id_len h, rh_logical_len = from_le_bytes (slice 32 8 h),
                      rh_encoded_len = from_le_bytes (slice 40 8 h), rh_padded_len = from_le_bytes (slice 48 8 h),
                      rh_payload_crc = from_le_bytes (slice 56 4 h), rh_digest = slice 60 32 h\<rparr>)))"

definition align_up_u64 :: "nat \<Rightarrow> nat \<Rightarrow> nat" where
  "align_up_u64 value alignment =
     (if alignment = 0 then 0
      else saturating_mul 64 (saturating_add 64 value (alignment - 1) div alignment) alignment)"

section \<open>Round trips\<close>

text \<open>Headers that fit: the fields are in range and the identifier leaves room for the checksum.\<close>

definition header_fits :: "nat \<Rightarrow> record_header \<Rightarrow> bool \<Rightarrow> bool" where
  "header_fits alignment h with_digest \<longleftrightarrow> rh_record_id h \<noteq> [] \<and> length (rh_record_id h) \<le> max_record_id_bytes \<and>
     fixed_header_bytes + length (rh_record_id h) + 4 \<le> alignment \<and>
     rh_batch_id h < 2 ^ 64 \<and> rh_record_index h < 2 ^ 64 \<and> rh_logical_len h < 2 ^ 64 \<and> rh_encoded_len h < 2 ^ 64 \<and>
     rh_padded_len h < 2 ^ 64 \<and> rh_payload_crc h < 2 ^ 32 \<and>
     (if with_digest then length (rh_digest h) = 32 else rh_digest h = replicate 32 0)"

lemma length_seal_crc [simp]: "4 \<le> alignment \<Longrightarrow> length h = alignment \<Longrightarrow> length (seal_crc crc alignment h) = alignment"
  by (simp add: seal_crc_def)

lemma slice_seal_crc [byte_ops]:
  "i + n + 4 \<le> alignment \<Longrightarrow> length h = alignment \<Longrightarrow> slice i n (seal_crc crc alignment h) = slice i n h"
  by (simp add: seal_crc_def byte_ops)

lemma drop_seal_crc:
  "4 \<le> alignment \<Longrightarrow> length h = alignment \<Longrightarrow>
     drop (alignment - 4) (seal_crc crc alignment h) = to_le_bytes 4 (crc32c crc (slice 0 (alignment - 4) h))"
  by (simp add: seal_crc_def write_at_def)

lemma nth_slice: "i < length xs \<Longrightarrow> xs ! i = hd (slice i 1 xs)"
  by (simp add: slice_def take_Suc_conv_app_nth hd_drop_conv_nth)

lemma crc32c_bound: "crc_laws crc \<Longrightarrow> crc32c crc xs < 256 ^ 4"
  by (simp add: crc_laws_def crc32c_def)

lemma record_fields_fit:
  assumes "header_fits alignment h with_digest"
  shows "fields_fit alignment (record_fields h with_digest)"
  using assms by (auto simp: fields_fit_def record_fields_def header_fits_def fixed_header_bytes_def record_magic_def)

lemma record_header_slices:
  fixes crc :: crc_function
  assumes fit: "header_fits alignment h with_digest"
  defines "b \<equiv> seal_crc crc alignment (write_fields (record_fields h with_digest) (replicate alignment 0))"
  shows "length b = alignment"
    and "slice 0 (alignment - 4) b = slice 0 (alignment - 4) (write_fields (record_fields h with_digest) (replicate alignment 0))"
    and "drop (alignment - 4) b = to_le_bytes 4 (crc32c crc (slice 0 (alignment - 4) b))"
    and "(i, ys) \<in> set (record_fields h with_digest) \<Longrightarrow> n = length ys \<Longrightarrow> slice i n b = ys"
    and "\<not> with_digest \<Longrightarrow> slice 60 32 b = replicate 32 0"
proof -
  let ?w = "write_fields (record_fields h with_digest) (replicate alignment 0)"
  have ff: "fields_fit (length (replicate alignment (0 :: 8 word))) (record_fields h with_digest)"
    using record_fields_fit [OF fit] by simp
  have a: "100 < alignment" using fit by (simp add: header_fits_def fixed_header_bytes_def) (cases "rh_record_id h"; simp)
  have len: "length ?w = alignment" using length_write_fields [OF ff] by simp
  show "length b = alignment" using len a by (simp add: b_def)
  show s: "slice 0 (alignment - 4) b = slice 0 (alignment - 4) ?w" using len a by (simp add: b_def slice_seal_crc)
  show "drop (alignment - 4) b = to_le_bytes 4 (crc32c crc (slice 0 (alignment - 4) b))"
    using s len a by (simp add: b_def drop_seal_crc)
  show "slice i n b = ys" if "(i, ys) \<in> set (record_fields h with_digest)" "n = length ys"
  proof -
    have "i + length ys + 4 \<le> alignment"
      using that(1) fit a by (auto simp: record_fields_def header_fits_def fixed_header_bytes_def record_magic_def split: if_splits)
    then show ?thesis using slice_field [OF ff that] that(2) len by (simp add: b_def slice_seal_crc)
  qed
  show "slice 60 32 b = replicate 32 0" if "\<not> with_digest"
  proof -
    have "slice 60 32 ?w = slice 60 32 (replicate alignment 0)"
      using that by (intro slice_write_fields_apart [OF ff]) (auto simp: record_fields_def fixed_header_bytes_def record_magic_def)
    then show ?thesis using len a by (simp add: b_def slice_seal_crc byte_ops)
  qed
qed

lemma record_header_parses:
  assumes "crc_laws crc" and "header_fits alignment h with_digest"
  obtains b where "encode_record_header crc alignment h with_digest = Inr b" "length b = alignment"
    "parse_record_header crc alignment b = Inr h"
proof -
  let ?b = "seal_crc crc alignment (write_fields (record_fields h with_digest) (replicate alignment 0))"
  note sl = record_header_slices [where crc = crc, OF assms(2)]
  have fits: "rh_record_id h \<noteq> []" "length (rh_record_id h) \<le> 512" "96 + length (rh_record_id h) + 4 \<le> alignment"
    "rh_batch_id h < 256 ^ 8" "rh_record_index h < 256 ^ 8" "rh_logical_len h < 256 ^ 8" "rh_encoded_len h < 256 ^ 8"
    "rh_padded_len h < 256 ^ 8" "rh_payload_crc h < 256 ^ 4" "format_version < 256 ^ 2" "length (rh_record_id h) < 256 ^ 2"
    using assms(2) by (simp_all add: header_fits_def fixed_header_bytes_def max_record_id_bytes_def format_version_def)
  have enc: "encode_record_header crc alignment h with_digest = Inr ?b"
    using fits(3) by (simp add: encode_record_header_def fixed_header_bytes_def)
  have field: "slice i n ?b = ys" if "(i, ys) \<in> set (record_fields h with_digest)" "n = length ys" for i n ys
    by (rule sl(4) [OF that])
  have digest: "slice 60 32 ?b = rh_digest h"
  proof (cases with_digest)
    case True
    then show ?thesis using assms(2) by (intro field) (simp_all add: record_fields_def header_fits_def)
  next
    case False
    then show ?thesis using sl(5) assms(2) by (simp add: header_fits_def)
  qed
  have byte: "?b ! i = x" if "(i, [x]) \<in> set (record_fields h with_digest)" "i < alignment" for i x
    using nth_slice [of i ?b] field [OF that(1), of 1] that(2) sl(1) by simp
  have small: "?b ! 10 = rh_kind h" "?b ! 11 = metadata_flags (rh_metadata h)"
    using fits(3) by (intro byte; simp add: record_fields_def)+
  have ids: "slice 0 8 ?b = record_magic" "slice 8 2 ?b = to_le_bytes 2 format_version"
    "slice 12 2 ?b = to_le_bytes 2 (length (rh_record_id h))" "slice 96 (length (rh_record_id h)) ?b = rh_record_id h"
    by (rule field; simp add: record_fields_def record_magic_def fixed_header_bytes_def)+
  have nums: "slice 16 8 ?b = to_le_bytes 8 (rh_batch_id h)" "slice 24 8 ?b = to_le_bytes 8 (rh_record_index h)"
    "slice 32 8 ?b = to_le_bytes 8 (rh_logical_len h)" "slice 40 8 ?b = to_le_bytes 8 (rh_encoded_len h)"
    "slice 48 8 ?b = to_le_bytes 8 (rh_padded_len h)" "slice 56 4 ?b = to_le_bytes 4 (rh_payload_crc h)"
    by (rule field; simp add: record_fields_def)+
  have crc: "from_le_bytes (drop (alignment - 4) ?b) = crc32c crc (slice 0 (alignment - 4) ?b)"
    unfolding sl(3) by (rule from_to_le_bytes [OF crc32c_bound [OF assms(1)]])
  have "parse_record_header crc alignment ?b = Inr h"
    unfolding parse_record_header_def Let_def fixed_header_bytes_def
    using fits by (simp add: sl(1) crc ids nums small digest from_to_le_bytes max_record_id_bytes_def del: power_numeral)
  then show ?thesis by (rule that [OF enc sl(1)])
qed

text \<open>
  Record headers survive the disk format: encoding a header whose fields are in range and
  whose identifier leaves room for the trailing checksum succeeds, and parsing the bytes gives
  back every field, for every alignment and every checksum function with the documented laws.
\<close>

theorem record_header_roundtrip:
  assumes "crc_laws crc" and "header_fits alignment h with_digest"
  shows "\<exists>b. encode_record_header crc alignment h with_digest = Inr b \<and> length b = alignment \<and>
    parse_record_header crc alignment b = Inr h"
  using record_header_parses [OF assms] by metis

definition sum_crc :: crc_function where
  "sum_crc c xs = (c + (\<Sum>b\<leftarrow>xs. unat b)) mod 2 ^ 32"

lemma sum_crc_laws: "crc_laws sum_crc"
  by (auto simp: crc_laws_def sum_crc_def mod_add_left_eq add.assoc)

definition sample_header :: record_header where
  "sample_header = \<lparr>rh_kind = record_data, rh_metadata = record_metadata_default, rh_batch_id = 1, rh_record_index = 0,
     rh_record_id = [7], rh_logical_len = 2, rh_encoded_len = 2, rh_padded_len = 128, rh_payload_crc = 9,
     rh_digest = replicate 32 0\<rparr>"

lemma record_header_roundtrip_witness:
  "\<exists>b. encode_record_header sum_crc 128 sample_header False = Inr b \<and> length b = 128 \<and>
    parse_record_header sum_crc 128 b = Inr sample_header"
  by (rule record_header_roundtrip [OF sum_crc_laws])
     (simp add: header_fits_def sample_header_def fixed_header_bytes_def max_record_id_bytes_def)

text \<open>
  The encoder admits identifiers up to the end of the block, where the checksum goes, and the
  parser refuses them: a record with such an identifier is written but cannot be read back.
\<close>

lemma oversized_identifier_is_unreadable:
  "\<exists>b. encode_record_header sum_crc 128 (sample_header\<lparr>rh_record_id := replicate 29 7\<rparr>) False = Inr b \<and>
     parse_record_header sum_crc 128 b = Inl ''record ID length is invalid''"
  unfolding encode_record_header_def by (simp add: fixed_header_bytes_def sample_header_def) code_simp

lemma extent_header_valid:
  assumes "crc_laws crc" "96 \<le> alignment" "alignment < 2 ^ 64" "length eid = 16"
  shows "validate_extent_header crc eid alignment (extent_header crc eid alignment) = Inr ()"
    and "length (extent_header crc eid alignment) = alignment"
proof -
  let ?w = "write_fields (extent_fields eid alignment) (replicate alignment 0)"
  have ff: "fields_fit (length (replicate alignment (0 :: 8 word))) (extent_fields eid alignment)"
    using assms by (simp add: fields_fit_def extent_fields_def extent_magic_def)
  have len: "length ?w = alignment" using length_write_fields [OF ff] by simp
  then show l: "length (extent_header crc eid alignment) = alignment" using assms by (simp add: extent_header_def)
  have field: "slice i n (extent_header crc eid alignment) = ys"
    if "(i, ys) \<in> set (extent_fields eid alignment)" "n = length ys" for i n ys
  proof -
    have "i + length ys + 4 \<le> alignment" using that(1) assms by (auto simp: extent_fields_def extent_magic_def)
    then show ?thesis using slice_field [OF ff that] that(2) len by (simp add: extent_header_def slice_seal_crc)
  qed
  have sl: "slice 0 8 (extent_header crc eid alignment) = extent_magic"
    "slice 8 2 (extent_header crc eid alignment) = to_le_bytes 2 format_version"
    "slice 16 16 (extent_header crc eid alignment) = eid"
    "slice 32 8 (extent_header crc eid alignment) = to_le_bytes 8 alignment"
    using assms(4) by (intro field; simp add: extent_fields_def extent_magic_def)+
  have "from_le_bytes (drop (alignment - 4) (extent_header crc eid alignment)) =
      crc32c crc (slice 0 (alignment - 4) (extent_header crc eid alignment))"
    using assms len crc32c_bound [OF assms(1)]
    by (simp add: extent_header_def drop_seal_crc slice_seal_crc from_to_le_bytes del: power_numeral)
  then show "validate_extent_header crc eid alignment (extent_header crc eid alignment) = Inr ()"
    using assms(3) l sl by (simp add: validate_extent_header_def from_to_le_bytes format_version_def)
qed

lemma align_up_small:
  assumes "0 < alignment" "n + alignment < 2 ^ 64"
  shows "align_up_u64 n alignment = (n + (alignment - 1)) div alignment * alignment"
    and "n \<le> align_up_u64 n alignment" and "alignment dvd align_up_u64 n alignment" and "align_up_u64 n alignment < n + alignment"
proof -
  let ?q = "(n + (alignment - 1)) div alignment"
  have m: "?q * alignment + (n + (alignment - 1)) mod alignment = n + (alignment - 1)" by simp
  have r: "(n + (alignment - 1)) mod alignment < alignment" using assms(1) by simp
  have "?q * alignment < 2 ^ 64" using m assms by linarith
  then show eq: "align_up_u64 n alignment = ?q * alignment"
    using assms by (simp add: align_up_u64_def int_ops saturating_mul_def)
  show "n \<le> align_up_u64 n alignment" "align_up_u64 n alignment < n + alignment"
    unfolding eq using m r assms(1) by linarith+
  show "alignment dvd align_up_u64 n alignment" unfolding eq by simp
qed

end
