(* ===== verification/Extent_Store.thy ===== *)
theory Extent_Store
  imports Extent_Format
begin

text \<open>
  The extent store of \<open>crates/pepper-extent/src/lib.rs\<close>. An extent is a file and the index the
  store keeps of it; an append writes its records and a commit record in one pass, and
  recovery rebuilds the index by scanning the file. \<open>crc32c\<close>, \<open>blake3\<close>, the clock and the
  outcome of writes and barriers are parameters; metrics and cost accounting are left out.
\<close>

section \<open>Data\<close>

type_synonym hash_function = "bytes \<Rightarrow> bytes"

definition hash_laws :: "hash_function \<Rightarrow> bool" where
  "hash_laws hash \<longleftrightarrow> (\<forall>xs. length (hash xs) = 32)"

record extent_config =
  ec_alignment :: nat
  ec_maximum_extent_bytes :: nat
  ec_maximum_batch_bytes :: nat
  ec_maximum_batch_records :: nat
  ec_group_commit_max_requests :: nat

record append_plan =
  ap_extent_id :: extent_id
  ap_record_id :: bytes
  ap_payload :: buffer_chain
  ap_logical_len :: nat
  ap_checksum :: "checksum option"
  ap_metadata :: record_metadata

record append_receipt =
  rc_extent_id :: extent_id
  rc_record_id :: bytes
  rc_record_index :: nat
  rc_payload_offset :: nat
  rc_encoded_len :: nat
  rc_logical_len :: nat
  rc_checksum :: checksum

record append_reservation =
  av_token :: nat
  av_extent_id :: extent_id
  av_maximum_records :: nat
  av_maximum_bytes :: nat

record record_inspection =
  ri_record_id :: bytes
  ri_record_index :: nat
  ri_payload_offset :: nat
  ri_encoded_len :: nat
  ri_logical_len :: nat
  ri_checksum :: checksum
  ri_metadata :: record_metadata

record record_location =
  rl_inspection :: record_inspection
  rl_batch_end :: nat

record extent_state =
  es_committed_end :: nat
  es_next_batch_id :: nat
  es_sealed :: bool
  es_ignored_tail_bytes :: nat
  es_records :: "record_location list"

record extent_handle =
  eh_file :: bytes
  eh_state :: extent_state

record extent_inspection =
  ei_extent_id :: extent_id
  ei_committed_end :: nat
  ei_sealed :: bool
  ei_digest :: "bytes option"
  ei_ignored_tail_bytes :: nat
  ei_records :: "record_inspection list"

record sealed_extent =
  se_extent_id :: extent_id
  se_committed_len :: nat
  se_record_count :: nat
  se_digest :: bytes

record reservation_state =
  rs_extent_id :: extent_id
  rs_maximum_records :: nat
  rs_maximum_bytes :: nat

record extent_store =
  xs_extents :: "(extent_id, extent_handle) btree"
  xs_next_id :: nat
  xs_next_reservation :: nat
  xs_reservations :: "(nat, reservation_state) btree"

fun is_power_of_two :: "nat \<Rightarrow> bool" where
  "is_power_of_two n = (if n = 0 then False else if odd n then n = 1 else is_power_of_two (n div 2))"

declare is_power_of_two.simps [simp del]

definition validate_config :: "extent_config \<Rightarrow> extent_error + unit" where
  "validate_config cfg =
     (if ec_alignment cfg < fixed_header_bytes \<or> \<not> is_power_of_two (ec_alignment cfg) \<or>
         ec_maximum_extent_bytes cfg < ec_alignment cfg * 3 \<or> ec_maximum_batch_bytes cfg = 0 \<or>
         ec_maximum_batch_records cfg = 0 \<or> ec_group_commit_max_requests cfg = 0
      then Inl InvalidConfiguration else Inr ())"

section \<open>Digests and checksums\<close>

definition batch_digest_update :: "nat \<Rightarrow> bytes \<Rightarrow> nat \<Rightarrow> nat \<Rightarrow> nat \<Rightarrow> bytes" where
  "batch_digest_update index rid logical_len encoded_len crc =
     to_le_bytes 8 index @ to_le_bytes 8 (length rid) @ rid @ to_le_bytes 8 logical_len @
     to_le_bytes 8 encoded_len @ to_le_bytes 4 crc"

definition location_digest :: "record_location \<Rightarrow> bytes" where
  "location_digest r =
     (let i = rl_inspection r
      in batch_digest_update (ri_record_index i) (ri_record_id i) (ri_logical_len i) (ri_encoded_len i)
           (case ri_checksum i of Crc32c c \<Rightarrow> c | Blake3 _ \<Rightarrow> 0))"

definition extent_digest :: "hash_function \<Rightarrow> record_location list \<Rightarrow> bytes" where
  "extent_digest hash rs = hash (concat (map location_digest rs))"

definition chain_crc32c :: "crc_function \<Rightarrow> buffer_chain \<Rightarrow> nat" where
  "chain_crc32c crc chain = fold (\<lambda>segment c. crc c (ob_bytes segment)) (bc_segments chain) 0"

definition validate_declared_checksum :: "hash_function \<Rightarrow> append_plan \<Rightarrow> nat \<Rightarrow> extent_error + unit" where
  "validate_declared_checksum hash plan c =
     (case ap_checksum plan of
        None \<Rightarrow> Inr ()
      | Some (Crc32c expected) \<Rightarrow> if expected = c then Inr () else Inl (ChecksumMismatch (ap_record_id plan))
      | Some (Blake3 expected) \<Rightarrow>
          if hash (concat (map ob_bytes (bc_segments (ap_payload plan)))) = expected then Inr ()
          else Inl (ChecksumMismatch (ap_record_id plan)))"

section \<open>Appending\<close>

text \<open>The first loop of \<open>append_internal\<close>: headers, padding and index entries of the batch.\<close>

record planned_record =
  pr_header :: bytes
  pr_padded_len :: nat
  pr_digest :: bytes
  pr_location :: record_location

definition data_header :: "nat \<Rightarrow> nat \<Rightarrow> append_plan \<Rightarrow> nat \<Rightarrow> nat \<Rightarrow> record_header" where
  "data_header batch index plan padded checksum =
     \<lparr>rh_kind = record_data, rh_metadata = ap_metadata plan, rh_batch_id = batch, rh_record_index = index,
      rh_record_id = ap_record_id plan, rh_logical_len = ap_logical_len plan,
      rh_encoded_len = bc_encoded_len (ap_payload plan), rh_padded_len = padded, rh_payload_crc = checksum,
      rh_digest = replicate 32 0\<rparr>"

definition planned_location :: "nat \<Rightarrow> nat \<Rightarrow> append_plan \<Rightarrow> nat \<Rightarrow> record_location" where
  "planned_location index payload_offset plan checksum =
     \<lparr>rl_inspection = \<lparr>ri_record_id = ap_record_id plan, ri_record_index = index, ri_payload_offset = payload_offset,
        ri_encoded_len = bc_encoded_len (ap_payload plan), ri_logical_len = ap_logical_len plan,
        ri_checksum = Crc32c checksum, ri_metadata = ap_metadata plan\<rparr>,
      rl_batch_end = 0\<rparr>"

fun plan_records ::
    "crc_function \<Rightarrow> hash_function \<Rightarrow> nat \<Rightarrow> nat \<Rightarrow> nat \<Rightarrow> nat \<Rightarrow> append_plan list \<Rightarrow> extent_error + planned_record list" where
  "plan_records crc hash alignment batch index cursor [] = Inr []"
| "plan_records crc hash alignment batch index cursor (plan # plans) =
     (let checksum = chain_crc32c crc (ap_payload plan)
      in case validate_declared_checksum hash plan checksum of
           Inl e \<Rightarrow> Inl e
         | Inr _ \<Rightarrow>
             (let encoded_len = bc_encoded_len (ap_payload plan);
                  padded_len = align_up_u64 encoded_len alignment;
                  payload_offset = cursor + alignment
              in case encode_record_header crc alignment (data_header batch index plan padded_len checksum) False of
                   Inl e \<Rightarrow> Inl e
                 | Inr header \<Rightarrow>
                     (case plan_records crc hash alignment batch (index + 1) (payload_offset + padded_len) plans of
                        Inl e \<Rightarrow> Inl e
                      | Inr rest \<Rightarrow> Inr
                          (\<lparr>pr_header = header, pr_padded_len = padded_len,
                            pr_digest = batch_digest_update index (ap_record_id plan) (ap_logical_len plan) encoded_len checksum,
                            pr_location = planned_location index payload_offset plan checksum\<rparr> # rest))))"

definition commit_header :: "hash_function \<Rightarrow> nat \<Rightarrow> planned_record list \<Rightarrow> record_header" where
  "commit_header hash batch ps =
     \<lparr>rh_kind = record_commit, rh_metadata = record_metadata_default, rh_batch_id = batch,
      rh_record_index = length ps, rh_record_id = [99], rh_logical_len = length ps, rh_encoded_len = 0,
      rh_padded_len = 0, rh_payload_crc = 0, rh_digest = hash (concat (map pr_digest ps))\<rparr>"

text \<open>The buffers of \<open>write_batch_vectored\<close>, and the file after a write of some bytes at an offset.\<close>

definition record_image :: "append_plan \<Rightarrow> planned_record \<Rightarrow> bytes" where
  "record_image plan p =
     pr_header p @ concat (bc_io_slices (ap_payload plan)) @
     replicate (pr_padded_len p - bc_encoded_len (ap_payload plan)) 0"

definition batch_body :: "append_plan list \<Rightarrow> planned_record list \<Rightarrow> bytes" where
  "batch_body plans ps = concat (map2 record_image plans ps)"

definition write_file :: "nat \<Rightarrow> bytes \<Rightarrow> bytes \<Rightarrow> bytes" where
  "write_file offset bs file =
     take offset file @ replicate (offset - length file) 0 @ bs @ drop (offset + length bs) file"

definition receipt_of :: "extent_id \<Rightarrow> record_location \<Rightarrow> append_receipt" where
  "receipt_of eid l =
     (let i = rl_inspection l
      in \<lparr>rc_extent_id = eid, rc_record_id = ri_record_id i, rc_record_index = ri_record_index i,
          rc_payload_offset = ri_payload_offset i, rc_encoded_len = ri_encoded_len i,
          rc_logical_len = ri_logical_len i, rc_checksum = ri_checksum i\<rparr>)"

text \<open>
  The outcome of the media: everything written and made durable, a write that stops after
  some bytes, or a failed barrier.
\<close>

datatype media_outcome = MediaOk | MediaTorn nat | MediaBarrierFailed

definition append_batch_bytes ::
    "crc_function \<Rightarrow> hash_function \<Rightarrow> nat \<Rightarrow> nat \<Rightarrow> nat \<Rightarrow> nat \<Rightarrow> append_plan list
      \<Rightarrow> extent_error + bytes \<times> record_location list" where
  "append_batch_bytes crc hash alignment batch index cursor plans =
     (case plan_records crc hash alignment batch index cursor plans of
        Inl e \<Rightarrow> Inl e
      | Inr ps \<Rightarrow>
          (case encode_record_header crc alignment (commit_header hash batch ps) True of
             Inl e \<Rightarrow> Inl e
           | Inr commit \<Rightarrow>
               (let written = batch_body plans ps @ commit;
                    batch_end = fold (\<lambda>p c. c + alignment + pr_padded_len p) ps cursor + alignment
                in Inr (written, map (\<lambda>p. (pr_location p)\<lparr>rl_batch_end := batch_end\<rparr>) ps))))"

definition append_handle ::
    "crc_function \<Rightarrow> hash_function \<Rightarrow> extent_config \<Rightarrow> media_outcome \<Rightarrow> extent_id \<Rightarrow> append_plan list \<Rightarrow> extent_handle
      \<Rightarrow> (extent_error + append_receipt list) \<times> extent_handle" where
  "append_handle crc hash cfg media eid plans h =
     (let s = eh_state h
      in if es_sealed s then (Inl (Sealed eid), h)
         else (case append_batch_bytes crc hash (ec_alignment cfg) (es_next_batch_id s) (length (es_records s))
                      (es_committed_end s) plans of
             Inl e \<Rightarrow> (Inl e, h)
           | Inr (written, locations) \<Rightarrow>
               (let batch_end = (case locations of [] \<Rightarrow> es_committed_end s + ec_alignment cfg | l # _ \<Rightarrow> rl_batch_end l)
                in if batch_end > ec_maximum_extent_bytes cfg
                   then (Inl (CapacityExceeded batch_end (ec_maximum_extent_bytes cfg)), h)
                   else (case media of
                       MediaTorn n \<Rightarrow> (Inl ExtentIo, h\<lparr>eh_file := write_file (es_committed_end s) (take n written) (eh_file h)\<rparr>)
                     | MediaBarrierFailed \<Rightarrow> (Inl Durability, h\<lparr>eh_file := write_file (es_committed_end s) written (eh_file h)\<rparr>)
                     | MediaOk \<Rightarrow>
                         (Inr (map (receipt_of eid) locations),
                          \<lparr>eh_file = write_file (es_committed_end s) written (eh_file h),
                           eh_state = s\<lparr>es_committed_end := batch_end,
                                        es_next_batch_id := saturating_add 64 (es_next_batch_id s) 1,
                                        es_records := es_records s @ locations\<rparr>\<rparr>)))))"

definition plans_bytes :: "append_plan list \<Rightarrow> nat" where
  "plans_bytes plans = (\<Sum>p\<leftarrow>plans. bc_encoded_len (ap_payload p)) mod 2 ^ 64"

definition find_handle :: "extent_id \<Rightarrow> extent_store \<Rightarrow> extent_error + extent_handle" where
  "find_handle eid st = (case bt_get (xs_extents st) eid of None \<Rightarrow> Inl (NotFound eid) | Some h \<Rightarrow> Inr h)"

definition put_handle :: "extent_id \<Rightarrow> extent_handle \<Rightarrow> extent_store \<Rightarrow> extent_store" where
  "put_handle eid h st = st\<lparr>xs_extents := bt_insert eid h (xs_extents st)\<rparr>"

definition append_internal ::
    "crc_function \<Rightarrow> hash_function \<Rightarrow> extent_config \<Rightarrow> media_outcome \<Rightarrow> append_plan list \<Rightarrow> extent_store
      \<Rightarrow> (extent_error + append_receipt list) \<times> extent_store" where
  "append_internal crc hash cfg media plans st =
     (case plans of
        [] \<Rightarrow> (Inl EmptyBatch, st)
      | plan # _ \<Rightarrow>
          (let eid = ap_extent_id plan
           in if list_ex (\<lambda>p. ap_extent_id p \<noteq> eid) plans then (Inl MixedExtents, st)
              else if length plans > ec_maximum_batch_records cfg \<or> plans_bytes plans > ec_maximum_batch_bytes cfg
              then (Inl (ReservationExceeded (length plans) (plans_bytes plans)), st)
              else (case find_handle eid st of
                  Inl e \<Rightarrow> (Inl e, st)
                | Inr h \<Rightarrow>
                    (case append_handle crc hash cfg media eid plans h of (r, h') \<Rightarrow> (r, put_handle eid h' st)))))"

definition xs_append_batch where
  "xs_append_batch = append_internal"

definition xs_append ::
    "crc_function \<Rightarrow> hash_function \<Rightarrow> extent_config \<Rightarrow> media_outcome \<Rightarrow> append_plan \<Rightarrow> extent_store
      \<Rightarrow> (extent_error + append_receipt) \<times> extent_store" where
  "xs_append crc hash cfg media plan st =
     (case append_internal crc hash cfg media [plan] st of
        (Inl e, st') \<Rightarrow> (Inl e, st')
      | (Inr rs, st') \<Rightarrow> (if rs = [] then (Inl EmptyBatch, st') else (Inr (last rs), st')))"

definition xs_reserve ::
    "extent_config \<Rightarrow> extent_id \<Rightarrow> nat \<Rightarrow> nat \<Rightarrow> extent_store \<Rightarrow> (extent_error + append_reservation) \<times> extent_store" where
  "xs_reserve cfg eid maximum_records maximum_bytes st =
     (case find_handle eid st of
        Inl e \<Rightarrow> (Inl e, st)
      | Inr h \<Rightarrow>
          if es_sealed (eh_state h) then (Inl (Sealed eid), st)
          else if maximum_records = 0 \<or> maximum_records > ec_maximum_batch_records cfg \<or> maximum_bytes = 0 \<or>
                  maximum_bytes > ec_maximum_batch_bytes cfg
          then (Inl (ReservationExceeded maximum_records maximum_bytes), st)
          else (let token = xs_next_reservation st
                in (Inr \<lparr>av_token = token, av_extent_id = eid, av_maximum_records = maximum_records,
                         av_maximum_bytes = maximum_bytes\<rparr>,
                    st\<lparr>xs_next_reservation := wrapping_add 64 token 1,
                       xs_reservations := bt_insert token
                         \<lparr>rs_extent_id = eid, rs_maximum_records = maximum_records, rs_maximum_bytes = maximum_bytes\<rparr>
                         (xs_reservations st)\<rparr>)))"

definition xs_commit ::
    "crc_function \<Rightarrow> hash_function \<Rightarrow> extent_config \<Rightarrow> media_outcome \<Rightarrow> append_reservation \<Rightarrow> append_plan list \<Rightarrow> extent_store
      \<Rightarrow> (extent_error + append_receipt list) \<times> extent_store" where
  "xs_commit crc hash cfg media r plans st =
     (case bt_get (xs_reservations st) (av_token r) of
        None \<Rightarrow> (Inl InvalidReservation, st)
      | Some s \<Rightarrow>
          (let st1 = st\<lparr>xs_reservations := bt_remove (av_token r) (xs_reservations st)\<rparr>
           in if rs_extent_id s \<noteq> av_extent_id r \<or> list_ex (\<lambda>p. ap_extent_id p \<noteq> rs_extent_id s) plans \<or>
                 length plans > rs_maximum_records s \<or> plans_bytes plans > rs_maximum_bytes s
              then (Inl (ReservationExceeded (length plans) (plans_bytes plans)), st1)
              else append_internal crc hash cfg media plans st1))"

section \<open>Reading\<close>

definition read_handle :: "extent_id \<Rightarrow> nat \<Rightarrow> nat \<Rightarrow> nat \<Rightarrow> extent_handle \<Rightarrow> extent_error + owned_buffer" where
  "read_handle eid index offset len h =
     (if index < length (es_records (eh_state h))
      then (let i = rl_inspection (es_records (eh_state h) ! index);
                stop = saturating_add 64 offset len
            in if stop > ri_encoded_len i then Inl (InvalidRecordRange offset stop (ri_encoded_len i))
               else if length (eh_file h) < ri_payload_offset i + offset + len then Inl ExtentIo
               else (let b = ob_new (slice (ri_payload_offset i + offset) len (eh_file h))
                     in Inr (if offset = 0 \<and> len = ri_encoded_len i then b\<lparr>ob_checksum := Some (ri_checksum i)\<rparr> else b)))
      else Inl (RecordNotFound eid index))"

definition xs_read_range :: "extent_id \<Rightarrow> nat \<Rightarrow> nat \<Rightarrow> nat \<Rightarrow> extent_store \<Rightarrow> extent_error + owned_buffer" where
  "xs_read_range eid index offset len st =
     (case find_handle eid st of Inl e \<Rightarrow> Inl e | Inr h \<Rightarrow> read_handle eid index offset len h)"

fun xs_read_vectored :: "(extent_id \<times> nat \<times> nat \<times> nat) list \<Rightarrow> extent_store \<Rightarrow> extent_error + owned_buffer list" where
  "xs_read_vectored [] st = Inr []"
| "xs_read_vectored ((eid, index, offset, len) # rest) st =
     (case xs_read_range eid index offset len st of
        Inl e \<Rightarrow> Inl e
      | Inr b \<Rightarrow> (case xs_read_vectored rest st of Inl e \<Rightarrow> Inl e | Inr bs \<Rightarrow> Inr (b # bs)))"

section \<open>Recovery\<close>

record scan_state =
  sc_offset :: nat
  sc_committed_end :: nat
  sc_next_batch_id :: nat
  sc_records :: "record_location list"
  sc_pending :: "(nat, record_location list) btree"
  sc_sealed :: bool

datatype scan_next = ScanStop scan_state | ScanMore scan_state

definition scanned_location :: "record_header \<Rightarrow> nat \<Rightarrow> record_location" where
  "scanned_location p payload_offset =
     \<lparr>rl_inspection = \<lparr>ri_record_id = rh_record_id p, ri_record_index = rh_record_index p,
        ri_payload_offset = payload_offset, ri_encoded_len = rh_encoded_len p, ri_logical_len = rh_logical_len p,
        ri_checksum = Crc32c (rh_payload_crc p), ri_metadata = rh_metadata p\<rparr>,
      rl_batch_end = 0\<rparr>"

definition scan_data :: "crc_function \<Rightarrow> nat \<Rightarrow> bytes \<Rightarrow> record_header \<Rightarrow> scan_state \<Rightarrow> scan_next" where
  "scan_data crc alignment file p s =
     (if rh_encoded_len p > rh_padded_len p \<or> rh_padded_len p mod alignment \<noteq> 0 \<or>
         saturating_add 64 (saturating_add 64 (sc_offset s) alignment) (rh_padded_len p) > length file
      then ScanStop s
      else (let payload_offset = sc_offset s + alignment
            in if crc32c crc (slice payload_offset (rh_encoded_len p) file) \<noteq> rh_payload_crc p then ScanStop s
               else ScanMore (s\<lparr>sc_pending := bt_insert (rh_batch_id p)
                        ((case bt_get (sc_pending s) (rh_batch_id p) of None \<Rightarrow> [] | Some ls \<Rightarrow> ls) @
                         [scanned_location p payload_offset]) (sc_pending s),
                      sc_offset := payload_offset + rh_padded_len p\<rparr>)))"

definition scan_commit :: "hash_function \<Rightarrow> nat \<Rightarrow> record_header \<Rightarrow> scan_state \<Rightarrow> scan_next" where
  "scan_commit hash alignment p s =
     (case bt_get (sc_pending s) (rh_batch_id p) of
        None \<Rightarrow> ScanStop s
      | Some batch \<Rightarrow>
          (let s1 = s\<lparr>sc_pending := bt_remove (rh_batch_id p) (sc_pending s)\<rparr>
           in if length batch \<noteq> rh_logical_len p \<or> extent_digest hash batch \<noteq> rh_digest p then ScanStop s1
              else (let stop = sc_offset s + alignment
                    in ScanMore (s1\<lparr>sc_offset := stop, sc_committed_end := stop,
                         sc_records := sc_records s @ map (\<lambda>l. l\<lparr>rl_batch_end := stop\<rparr>) batch\<rparr>))))"

definition scan_seal :: "hash_function \<Rightarrow> nat \<Rightarrow> record_header \<Rightarrow> scan_state \<Rightarrow> scan_next" where
  "scan_seal hash alignment p s =
     (if sc_pending s \<noteq> [] \<or> rh_record_index p \<noteq> length (sc_records s) \<or> extent_digest hash (sc_records s) \<noteq> rh_digest p
      then ScanStop s
      else (let stop = sc_offset s + alignment
            in ScanStop (s\<lparr>sc_offset := stop, sc_committed_end := stop, sc_sealed := True\<rparr>)))"

definition scan_step :: "crc_function \<Rightarrow> hash_function \<Rightarrow> nat \<Rightarrow> bytes \<Rightarrow> scan_state \<Rightarrow> scan_next" where
  "scan_step crc hash alignment file s =
     (case parse_record_header crc alignment (slice (sc_offset s) alignment file) of
        Inl _ \<Rightarrow> ScanStop s
      | Inr p \<Rightarrow>
          (let s1 = s\<lparr>sc_next_batch_id := max (sc_next_batch_id s) (saturating_add 64 (rh_batch_id p) 1)\<rparr>
           in if rh_kind p = record_data then scan_data crc alignment file p s1
              else if rh_kind p = record_commit then scan_commit hash alignment p s1
              else if rh_kind p = record_seal then scan_seal hash alignment p s1
              else ScanStop s1))"

lemma scan_step_progress: "scan_step crc hash alignment file s = ScanMore t \<Longrightarrow> sc_offset s + alignment \<le> sc_offset t"
  by (auto simp: scan_step_def scan_data_def scan_commit_def scan_seal_def Let_def split: sum.splits if_splits option.splits)

text \<open>A configuration that passed \<open>validate_config\<close> has a positive alignment.\<close>

function scan_loop :: "crc_function \<Rightarrow> hash_function \<Rightarrow> nat \<Rightarrow> bytes \<Rightarrow> scan_state \<Rightarrow> scan_state" where
  "scan_loop crc hash alignment file s =
     (if 0 < alignment \<and> sc_offset s + alignment \<le> length file
      then (case scan_step crc hash alignment file s of
              ScanStop t \<Rightarrow> t
            | ScanMore t \<Rightarrow> scan_loop crc hash alignment file t)
      else s)"
  by pat_completeness auto
termination
  by (relation "measure (\<lambda>(crc, hash, alignment, file, s). length file - sc_offset s)")
     (auto dest!: scan_step_progress)

declare scan_loop.simps [simp del]

definition scan_init :: "nat \<Rightarrow> scan_state" where
  "scan_init alignment = \<lparr>sc_offset = alignment, sc_committed_end = alignment, sc_next_batch_id = 1, sc_records = [],
     sc_pending = [], sc_sealed = False\<rparr>"

text \<open>
  The tail after the last committed record is cut off; \<open>io\<close> is the outcome of \<open>set_len\<close> and
  \<open>sync_data\<close>, which may fail before or after the file is shorter.
\<close>

definition recover_file ::
    "crc_function \<Rightarrow> hash_function \<Rightarrow> extent_config \<Rightarrow> io_outcome \<Rightarrow> extent_id \<Rightarrow> bytes \<Rightarrow> (extent_error + extent_state) \<times> bytes" where
  "recover_file crc hash cfg io eid file =
     (if length file < ec_alignment cfg then (Inl ExtentIo, file)
      else (case validate_extent_header crc eid (ec_alignment cfg) (slice 0 (ec_alignment cfg) file) of
          Inl message \<Rightarrow> (Inl (Corrupt message), file)
        | Inr _ \<Rightarrow>
            (let t = scan_loop crc hash (ec_alignment cfg) file (scan_init (ec_alignment cfg));
                 ignored = length file - sc_committed_end t;
                 s = \<lparr>es_committed_end = sc_committed_end t, es_next_batch_id = sc_next_batch_id t,
                      es_sealed = sc_sealed t, es_ignored_tail_bytes = ignored, es_records = sc_records t\<rparr>
             in if ignored = 0 then (Inr s, file)
                else (case io of
                    IoOk \<Rightarrow> (Inr s, take (sc_committed_end t) file)
                  | IoFailedBefore \<Rightarrow> (Inl ExtentIo, file)
                  | IoFailedAfter \<Rightarrow> (Inl ExtentIo, take (sc_committed_end t) file)))))"

section \<open>Sealing, truncation and the catalogue\<close>

definition inspection_from_state :: "hash_function \<Rightarrow> extent_id \<Rightarrow> extent_state \<Rightarrow> extent_inspection" where
  "inspection_from_state hash eid s =
     \<lparr>ei_extent_id = eid, ei_committed_end = es_committed_end s, ei_sealed = es_sealed s,
      ei_digest = (if es_sealed s then Some (extent_digest hash (es_records s)) else None),
      ei_ignored_tail_bytes = es_ignored_tail_bytes s, ei_records = map rl_inspection (es_records s)\<rparr>"

definition sealed_from_state :: "hash_function \<Rightarrow> extent_id \<Rightarrow> extent_state \<Rightarrow> sealed_extent" where
  "sealed_from_state hash eid s =
     \<lparr>se_extent_id = eid, se_committed_len = es_committed_end s, se_record_count = length (es_records s),
      se_digest = extent_digest hash (es_records s)\<rparr>"

definition seal_header :: "hash_function \<Rightarrow> extent_state \<Rightarrow> record_header" where
  "seal_header hash s =
     \<lparr>rh_kind = record_seal, rh_metadata = record_metadata_default, rh_batch_id = es_next_batch_id s,
      rh_record_index = length (es_records s), rh_record_id = [115], rh_logical_len = length (es_records s),
      rh_encoded_len = 0, rh_padded_len = 0, rh_payload_crc = 0, rh_digest = extent_digest hash (es_records s)\<rparr>"

text \<open>\<open>cuts\<close>: the final \<open>set_len\<close> succeeds.\<close>

definition seal_handle ::
    "crc_function \<Rightarrow> hash_function \<Rightarrow> extent_config \<Rightarrow> media_outcome \<Rightarrow> bool \<Rightarrow> extent_id \<Rightarrow> extent_handle
      \<Rightarrow> (extent_error + sealed_extent) \<times> extent_handle" where
  "seal_handle crc hash cfg media cuts eid h =
     (let s = eh_state h
      in if es_sealed s
         then ((if media = MediaOk then Inr (sealed_from_state hash eid s) else Inl Durability), h)
         else (case encode_record_header crc (ec_alignment cfg) (seal_header hash s) True of
             Inl e \<Rightarrow> (Inl e, h)
           | Inr header \<Rightarrow>
               (case media of
                  MediaTorn n \<Rightarrow> (Inl ExtentIo, h\<lparr>eh_file := write_file (es_committed_end s) (take n header) (eh_file h)\<rparr>)
                | MediaBarrierFailed \<Rightarrow> (Inl Durability, h\<lparr>eh_file := write_file (es_committed_end s) header (eh_file h)\<rparr>)
                | MediaOk \<Rightarrow>
                    (let stop = es_committed_end s + ec_alignment cfg;
                         s1 = s\<lparr>es_committed_end := stop, es_next_batch_id := saturating_add 64 (es_next_batch_id s) 1,
                                es_sealed := True\<rparr>;
                         file1 = write_file (es_committed_end s) header (eh_file h)
                     in if cuts
                        then (Inr (sealed_from_state hash eid s1), \<lparr>eh_file = take stop file1, eh_state = s1\<rparr>)
                        else (Inl ExtentIo, \<lparr>eh_file = file1, eh_state = s1\<rparr>)))))"

definition truncate_handle ::
    "hash_function \<Rightarrow> extent_config \<Rightarrow> io_outcome \<Rightarrow> extent_id \<Rightarrow> nat \<Rightarrow> extent_handle
      \<Rightarrow> (extent_error + extent_inspection) \<times> extent_handle" where
  "truncate_handle hash cfg io eid keep h =
     (let s = eh_state h; rs = es_records s
      in if es_sealed s then (Inl (Sealed eid), h)
         else if keep > length rs \<or> keep > 0 \<and> keep < length rs \<and> rl_batch_end (rs ! (keep - 1)) = rl_batch_end (rs ! keep)
         then (Inl (InvalidTruncation eid keep), h)
         else (let stop = (if keep = 0 then ec_alignment cfg else rl_batch_end (rs ! (keep - 1)))
               in case io of
                    IoOk \<Rightarrow>
                      (let s1 = s\<lparr>es_records := take keep rs, es_committed_end := stop, es_ignored_tail_bytes := 0\<rparr>
                       in (Inr (inspection_from_state hash eid s1), \<lparr>eh_file = take stop (eh_file h), eh_state = s1\<rparr>))
                  | IoFailedBefore \<Rightarrow> (Inl ExtentIo, h)
                  | IoFailedAfter \<Rightarrow> (Inl ExtentIo, h\<lparr>eh_file := take stop (eh_file h)\<rparr>)))"

definition with_handle ::
    "extent_id \<Rightarrow> (extent_handle \<Rightarrow> (extent_error + 'a) \<times> extent_handle) \<Rightarrow> extent_store \<Rightarrow> (extent_error + 'a) \<times> extent_store" where
  "with_handle eid f st =
     (case find_handle eid st of
        Inl e \<Rightarrow> (Inl e, st)
      | Inr h \<Rightarrow> (case f h of (r, h') \<Rightarrow> (r, put_handle eid h' st)))"

definition xs_seal where
  "xs_seal crc hash cfg media cuts eid st = with_handle eid (seal_handle crc hash cfg media cuts eid) st"

definition xs_truncate where
  "xs_truncate hash cfg io eid keep st = with_handle eid (truncate_handle hash cfg io eid keep) st"

definition xs_inspect :: "hash_function \<Rightarrow> extent_id \<Rightarrow> extent_store \<Rightarrow> extent_error + extent_inspection" where
  "xs_inspect hash eid st =
     (case find_handle eid st of Inl e \<Rightarrow> Inl e | Inr h \<Rightarrow> Inr (inspection_from_state hash eid (eh_state h)))"

definition recover_handle ::
    "crc_function \<Rightarrow> hash_function \<Rightarrow> extent_config \<Rightarrow> io_outcome \<Rightarrow> extent_id \<Rightarrow> extent_handle
      \<Rightarrow> (extent_error + extent_inspection) \<times> extent_handle" where
  "recover_handle crc hash cfg io eid h =
     (case recover_file crc hash cfg io eid (eh_file h) of
        (Inl e, file) \<Rightarrow> (Inl e, h\<lparr>eh_file := file\<rparr>)
      | (Inr s, file) \<Rightarrow> (Inr (inspection_from_state hash eid s), \<lparr>eh_file = file, eh_state = s\<rparr>))"

definition xs_recover where
  "xs_recover crc hash cfg io eid st = with_handle eid (recover_handle crc hash cfg io eid) st"

text \<open>\<open>now\<close> is the system time in nanoseconds; an existing file of that name makes \<open>create_new\<close> fail.\<close>

definition new_extent_id :: "hash_function \<Rightarrow> nat \<Rightarrow> nat \<Rightarrow> extent_id" where
  "new_extent_id hash now sequence = take 16 (hash (to_le_bytes 16 now @ to_le_bytes 8 sequence))"

definition new_handle :: "crc_function \<Rightarrow> extent_config \<Rightarrow> extent_id \<Rightarrow> extent_handle" where
  "new_handle crc cfg eid =
     \<lparr>eh_file = extent_header crc eid (ec_alignment cfg),
      eh_state = \<lparr>es_committed_end = ec_alignment cfg, es_next_batch_id = 1, es_sealed = False,
                  es_ignored_tail_bytes = 0, es_records = []\<rparr>\<rparr>"

definition xs_create ::
    "crc_function \<Rightarrow> hash_function \<Rightarrow> extent_config \<Rightarrow> media_outcome \<Rightarrow> nat \<Rightarrow> extent_store
      \<Rightarrow> (extent_error + extent_id) \<times> extent_store" where
  "xs_create crc hash cfg media now st =
     (let eid = new_extent_id hash now (xs_next_id st);
          st1 = st\<lparr>xs_next_id := wrapping_add 64 (xs_next_id st) 1\<rparr>
      in if bt_contains (xs_extents st) eid then (Inl ExtentIo, st1)
         else (case media of
             MediaTorn _ \<Rightarrow> (Inl ExtentIo, st1)
           | MediaBarrierFailed \<Rightarrow> (Inl Durability, st1)
           | MediaOk \<Rightarrow> (Inr eid, put_handle eid (new_handle crc cfg eid) st1)))"

definition xs_rotate ::
    "crc_function \<Rightarrow> hash_function \<Rightarrow> extent_config \<Rightarrow> media_outcome \<Rightarrow> bool \<Rightarrow> media_outcome \<Rightarrow> nat \<Rightarrow> extent_id \<Rightarrow> extent_store
      \<Rightarrow> (extent_error + sealed_extent \<times> extent_id) \<times> extent_store" where
  "xs_rotate crc hash cfg media1 cuts media2 now eid st =
     (case xs_seal crc hash cfg media1 cuts eid st of
        (Inl e, st1) \<Rightarrow> (Inl e, st1)
      | (Inr sealed, st1) \<Rightarrow>
          (case xs_create crc hash cfg media2 now st1 of
             (Inl e, st2) \<Rightarrow> (Inl e, st2)
           | (Inr active, st2) \<Rightarrow> (Inr (sealed, active), st2)))"

definition xs_extent_ids :: "extent_store \<Rightarrow> extent_id list" where
  "xs_extent_ids st = sort (bt_keys (xs_extents st))"

text \<open>\<open>leased\<close>: another reference to the handle exists; \<open>io\<close>: removing the file and syncing the directory.\<close>

definition xs_reclaim :: "bool \<Rightarrow> io_outcome \<Rightarrow> extent_id \<Rightarrow> extent_store \<Rightarrow> (extent_error + unit) \<times> extent_store" where
  "xs_reclaim leased io eid st =
     (case find_handle eid st of
        Inl e \<Rightarrow> (Inl e, st)
      | Inr h \<Rightarrow>
          if \<not> es_sealed (eh_state h) then (Inl (ActiveExtent eid), st)
          else if leased then (Inl (ExtentLeased eid), st)
          else (let st1 = st\<lparr>xs_extents := bt_remove eid (xs_extents st)\<rparr>
                in case io of
                     IoOk \<Rightarrow> (Inr (), st1)
                   | IoFailedBefore \<Rightarrow> (Inl ExtentIo, st)
                   | IoFailedAfter \<Rightarrow> (Inl ExtentIo, st1)))"

end
