(* ===== verification/Extent_Recovery.thy ===== *)
theory Extent_Recovery
  imports Extent_Store
begin

text \<open>
  Recovery of extents. The bytes of a file written by appends are described by \<open>extent_image\<close>;
  scanning such a file finds exactly the records of the completed batches, also when a further
  batch was cut off at any byte. From this follow durability, atomicity and the abstract view
  of an extent as a log of records.
\<close>

section \<open>Plans and their images\<close>

definition plan_fits :: "nat \<Rightarrow> append_plan \<Rightarrow> bool" where
  "plan_fits alignment plan \<longleftrightarrow> ap_record_id plan \<noteq> [] \<and> length (ap_record_id plan) \<le> max_record_id_bytes \<and>
     fixed_header_bytes + length (ap_record_id plan) + 4 \<le> alignment \<and> ap_logical_len plan < 2 ^ 64 \<and>
     chain_ok (ap_payload plan) \<and> bc_encoded_len (ap_payload plan) + alignment < 2 ^ 64"

lemma concat_io_slices: "concat (bc_io_slices c) = bc_bytes c"
proof -
  have "concat (map ob_bytes (filter (\<lambda>b. ob_bytes b \<noteq> []) xs)) = concat (map ob_bytes xs)" for xs
    by (induction xs) auto
  then show ?thesis by (simp add: bc_io_slices_def bc_bytes_def)
qed

lemma chain_crc32c_bytes:
  assumes "crc_laws crc"
  shows "chain_crc32c crc chain = crc32c crc (bc_bytes chain)" and "chain_crc32c crc chain < 2 ^ 32"
proof -
  have "fold (\<lambda>b c. crc c (ob_bytes b)) xs (crc c ys) = crc c (ys @ concat (map ob_bytes xs))" for xs c ys
    using assms by (induction xs arbitrary: ys) (simp_all add: crc_laws_def)
  from this [of _ 0 "[]"] show eq: "chain_crc32c crc chain = crc32c crc (bc_bytes chain)"
    using assms by (simp add: chain_crc32c_def crc32c_def bc_bytes_def crc_laws_def)
  show "chain_crc32c crc chain < 2 ^ 32" unfolding eq using assms by (simp add: crc_laws_def crc32c_def)
qed

lemma data_header_fits:
  assumes "plan_fits alignment plan" "batch < 2 ^ 64" "index < 2 ^ 64" "padded < 2 ^ 64" "checksum < 2 ^ 32"
  shows "header_fits alignment (data_header batch index plan padded checksum) False"
  using assms by (simp add: header_fits_def data_header_def plan_fits_def)

text \<open>One planned record: its header parses back, and its image has the planned length.\<close>

definition planned_ok :: "crc_function \<Rightarrow> nat \<Rightarrow> nat \<Rightarrow> nat \<Rightarrow> nat \<Rightarrow> append_plan \<Rightarrow> planned_record \<Rightarrow> bool" where
  "planned_ok crc alignment batch index cursor plan p \<longleftrightarrow>
     pr_padded_len p = align_up_u64 (bc_encoded_len (ap_payload plan)) alignment \<and> length (pr_header p) = alignment \<and>
     parse_record_header crc alignment (pr_header p) =
       Inr (data_header batch index plan (pr_padded_len p) (chain_crc32c crc (ap_payload plan))) \<and>
     pr_location p = planned_location index (cursor + alignment) plan (chain_crc32c crc (ap_payload plan)) \<and>
     pr_digest p = location_digest (pr_location p)"

lemma plan_records_Cons:
  assumes laws: "crc_laws crc" and fits: "plan_fits alignment plan" and small: "batch < 2 ^ 64" "index < 2 ^ 64"
    and plan: "plan_records crc hash alignment batch index cursor (plan # plans) = Inr ps"
  obtains p rest where "ps = p # rest" "planned_ok crc alignment batch index cursor plan p"
    "plan_records crc hash alignment batch (index + 1) (cursor + alignment + pr_padded_len p) plans = Inr rest"
proof -
  let ?c = "chain_crc32c crc (ap_payload plan)"
  let ?padded = "align_up_u64 (bc_encoded_len (ap_payload plan)) alignment"
  let ?h = "data_header batch index plan ?padded ?c"
  have al: "0 < alignment" "bc_encoded_len (ap_payload plan) + alignment < 2 ^ 64"
    using fits by (auto simp: plan_fits_def fixed_header_bytes_def)
  have "header_fits alignment ?h False"
    using fits small chain_crc32c_bytes(2) [OF laws] align_up_small(4) [OF al] al by (intro data_header_fits) simp_all
  then obtain b where b: "encode_record_header crc alignment ?h False = Inr b" "length b = alignment"
      "parse_record_header crc alignment b = Inr ?h"
    using record_header_parses [OF laws] by metis
  show ?thesis
    using plan b that
    by (auto simp: Let_def planned_ok_def location_digest_def planned_location_def split: sum.splits)
qed

section \<open>Scanning\<close>

lemma scan_loop_more:
  assumes "scan_step crc hash alignment file s = ScanMore t" "0 < alignment" "sc_offset s + alignment \<le> length file"
  shows "scan_loop crc hash alignment file s = scan_loop crc hash alignment file t"
  using assms by (subst scan_loop.simps) simp

lemma scan_loop_end: "length file < sc_offset s + alignment \<Longrightarrow> scan_loop crc hash alignment file s = s"
  by (subst scan_loop.simps) simp

lemma scan_loop_stop:
  assumes "scan_step crc hash alignment file s = ScanStop t" "0 < alignment" "sc_offset s + alignment \<le> length file"
  shows "scan_loop crc hash alignment file s = t"
  using assms by (subst scan_loop.simps) simp

definition saw_header :: "nat \<Rightarrow> scan_state \<Rightarrow> scan_state" where
  "saw_header batch s = s\<lparr>sc_next_batch_id := max (sc_next_batch_id s) (saturating_add 64 batch 1)\<rparr>"

lemma scan_step_parsed:
  assumes "parse_record_header crc alignment header = Inr p" "length header = alignment" "sc_offset s = length f"
  shows "scan_step crc hash alignment (f @ header @ g) s =
    (if rh_kind p = record_data then scan_data crc alignment (f @ header @ g) p (saw_header (rh_batch_id p) s)
     else if rh_kind p = record_commit then scan_commit hash alignment p (saw_header (rh_batch_id p) s)
     else if rh_kind p = record_seal then scan_seal hash alignment p (saw_header (rh_batch_id p) s)
     else ScanStop (saw_header (rh_batch_id p) s))"
  using assms by (simp add: scan_step_def saw_header_def slice_def Let_def)

lemma record_image_length:
  assumes "planned_ok crc alignment batch index cursor plan p" "plan_fits alignment plan"
  shows "length (record_image plan p) = alignment + pr_padded_len p"
    and "bc_encoded_len (ap_payload plan) \<le> pr_padded_len p" and "alignment dvd pr_padded_len p" and "0 < alignment"
proof -
  have al: "0 < alignment" "bc_encoded_len (ap_payload plan) + alignment < 2 ^ 64"
    using assms(2) by (auto simp: plan_fits_def fixed_header_bytes_def)
  show le: "bc_encoded_len (ap_payload plan) \<le> pr_padded_len p" and "alignment dvd pr_padded_len p" and "0 < alignment"
    using align_up_small [OF al] assms(1) al by (simp_all add: planned_ok_def)
  show "length (record_image plan p) = alignment + pr_padded_len p"
    using assms le by (simp add: record_image_def concat_io_slices planned_ok_def plan_fits_def chain_ok_def)
qed

text \<open>A complete record moves the scan on; a record whose payload is cut off stops it.\<close>

definition scanned :: "nat \<Rightarrow> nat \<Rightarrow> planned_record \<Rightarrow> scan_state \<Rightarrow> scan_state" where
  "scanned alignment batch p s = (saw_header batch s)\<lparr>
     sc_pending := bt_insert batch ((case bt_get (sc_pending s) batch of None \<Rightarrow> [] | Some ls \<Rightarrow> ls) @ [pr_location p]) (sc_pending s),
     sc_offset := sc_offset s + alignment + pr_padded_len p\<rparr>"

lemma scan_complete_record:
  assumes laws: "crc_laws crc" and ok: "planned_ok crc alignment batch index (length f) plan p" and fits: "plan_fits alignment plan"
    and at: "sc_offset s = length f" and small: "length f + alignment + pr_padded_len p < 2 ^ 64"
  shows "scan_step crc hash alignment (f @ record_image plan p @ g) s = ScanMore (scanned alignment batch p s)"
proof -
  let ?c = "chain_crc32c crc (ap_payload plan)"
  let ?h = "data_header batch index plan (pr_padded_len p) ?c"
  let ?tail = "bc_bytes (ap_payload plan) @ replicate (pr_padded_len p - bc_encoded_len (ap_payload plan)) 0 @ g"
  let ?file = "f @ pr_header p @ ?tail"
  have split: "f @ record_image plan p @ g = ?file" by (simp add: record_image_def concat_io_slices)
  have hl: "length (pr_header p) = alignment" and parse: "parse_record_header crc alignment (pr_header p) = Inr ?h"
    using ok by (simp_all add: planned_ok_def)
  note len = record_image_length [OF ok fits]
  have el: "length (bc_bytes (ap_payload plan)) = bc_encoded_len (ap_payload plan)"
    using fits by (simp add: plan_fits_def chain_ok_def)
  have pay: "slice (length f + alignment) (bc_encoded_len (ap_payload plan)) ?file = bc_bytes (ap_payload plan)"
    using el hl by (simp add: slice_def)
  have sat: "saturating_add 64 (saturating_add 64 (length f) alignment) (pr_padded_len p) = length f + alignment + pr_padded_len p"
    using small by (simp add: int_ops)
  have fl: "length f + alignment + pr_padded_len p \<le> length ?file" using len(2) hl el by simp
  have "scan_data crc alignment ?file ?h (saw_header batch s) = ScanMore (scanned alignment batch p s)"
    using at len pay sat fl chain_crc32c_bytes(1) [OF laws] ok
    by (simp add: scan_data_def saw_header_def scanned_def data_header_def scanned_location_def planned_ok_def planned_location_def
      Let_def del: length_append)
  then show ?thesis
    unfolding split using scan_step_parsed [OF parse hl at, of hash ?tail] by (simp add: data_header_def)
qed

lemma scan_torn_record:
  assumes ok: "planned_ok crc alignment batch index (length f) plan p" and fits: "plan_fits alignment plan"
    and at: "sc_offset s = length f" and n: "alignment \<le> n" "n < alignment + pr_padded_len p"
    and small: "length f + alignment + pr_padded_len p < 2 ^ 64"
  shows "scan_step crc hash alignment (f @ take n (record_image plan p @ g)) s = ScanStop (saw_header batch s)"
proof -
  let ?h = "data_header batch index plan (pr_padded_len p) (chain_crc32c crc (ap_payload plan))"
  have hl: "length (pr_header p) = alignment" and parse: "parse_record_header crc alignment (pr_header p) = Inr ?h"
    using ok by (simp_all add: planned_ok_def)
  note len = record_image_length [OF ok fits]
  obtain tail where tail: "take n (record_image plan p @ g) = pr_header p @ tail" "length tail < pr_padded_len p"
  proof
    show "take n (record_image plan p @ g) = pr_header p @ take (n - alignment)
        (concat (bc_io_slices (ap_payload plan)) @ replicate (pr_padded_len p - bc_encoded_len (ap_payload plan)) 0 @ g)"
      using n hl by (simp add: record_image_def)
    show "length (take (n - alignment)
        (concat (bc_io_slices (ap_payload plan)) @ replicate (pr_padded_len p - bc_encoded_len (ap_payload plan)) 0 @ g)) < pr_padded_len p"
      using n by (simp add: min_def) linarith
  qed
  have sat: "saturating_add 64 (saturating_add 64 (length f) alignment) (pr_padded_len p) = length f + alignment + pr_padded_len p"
    using small by (simp add: int_ops)
  have "scan_data crc alignment (f @ pr_header p @ tail) ?h (saw_header batch s) = ScanStop (saw_header batch s)"
    using at sat tail(2) hl by (simp add: scan_data_def saw_header_def data_header_def)
  then show ?thesis
    unfolding tail(1) using scan_step_parsed [OF parse hl at, of hash tail] by (simp add: data_header_def)
qed


section \<open>Whole batches\<close>

definition pending_batch :: "nat \<Rightarrow> record_location list \<Rightarrow> (nat, record_location list) btree" where
  "pending_batch batch ls = (if ls = [] then [] else [(batch, ls)])"

lemma scanned_pending:
  assumes "sc_pending s = pending_batch batch acc"
  shows "sc_pending (scanned alignment batch p s) = pending_batch batch (acc @ [pr_location p])"
  using assms by (auto simp: scanned_def pending_batch_def)

lemma scanned_fields [simp]:
  "sc_offset (scanned alignment batch p s) = sc_offset s + alignment + pr_padded_len p"
  "sc_records (scanned alignment batch p s) = sc_records s"
  "sc_committed_end (scanned alignment batch p s) = sc_committed_end s"
  "sc_sealed (scanned alignment batch p s) = sc_sealed s"
  by (simp_all add: scanned_def saw_header_def)

lemma saw_header_fields [simp]:
  "sc_offset (saw_header batch s) = sc_offset s" "sc_records (saw_header batch s) = sc_records s"
  "sc_committed_end (saw_header batch s) = sc_committed_end s" "sc_sealed (saw_header batch s) = sc_sealed s"
  "sc_pending (saw_header batch s) = sc_pending s"
  by (simp_all add: saw_header_def)

lemma next_batch_bound:
  "sc_next_batch_id s < 2 ^ 64 \<Longrightarrow> sc_next_batch_id (saw_header batch s) < 2 ^ 64"
  "sc_next_batch_id s < 2 ^ 64 \<Longrightarrow> sc_next_batch_id (scanned alignment batch p s) < 2 ^ 64"
  using saturating_add_bound [of 64 batch 1] by (simp_all add: scanned_def saw_header_def)

lemma batch_body_Cons: "batch_body (plan # plans) (p # ps) = record_image plan p @ batch_body plans ps"
  by (simp add: batch_body_def)

lemma plan_records_length:
  "plan_records crc hash alignment batch index cursor plans = Inr ps \<Longrightarrow> length ps = length plans"
  by (induction plans arbitrary: index cursor ps) (auto simp: Let_def split: sum.splits)

text \<open>What is known of a planned batch: its end, its length, its digests and its entries.\<close>

definition body_end :: "nat \<Rightarrow> planned_record list \<Rightarrow> nat \<Rightarrow> nat" where
  "body_end alignment ps cursor = fold (\<lambda>p c. c + alignment + pr_padded_len p) ps cursor"

lemma body_end_Cons [simp]: "body_end alignment (p # ps) cursor = body_end alignment ps (cursor + alignment + pr_padded_len p)"
  and body_end_Nil [simp]: "body_end alignment [] cursor = cursor"
  by (simp_all add: body_end_def)

lemma body_end_ge: "cursor + length ps * alignment \<le> body_end alignment ps cursor"
proof (induction ps arbitrary: cursor)
  case (Cons p ps)
  show ?case using Cons.IH [of "cursor + alignment + pr_padded_len p"] by simp
qed simp

definition plans_fit :: "nat \<Rightarrow> append_plan list \<Rightarrow> nat \<Rightarrow> nat \<Rightarrow> bool" where
  "plans_fit alignment plans batch index \<longleftrightarrow> list_all (plan_fits alignment) plans \<and> batch < 2 ^ 64 \<and> index + length plans < 2 ^ 64"

lemma plans_fit_Cons: "plans_fit alignment (plan # plans) batch index \<longleftrightarrow>
    plan_fits alignment plan \<and> index < 2 ^ 64 \<and> batch < 2 ^ 64 \<and> plans_fit alignment plans batch (index + 1)"
  by (auto simp: plans_fit_def)

lemma planned_batch:
  assumes laws: "crc_laws crc"
  shows "plans_fit alignment plans batch index \<Longrightarrow> plan_records crc hash alignment batch index cursor plans = Inr ps \<Longrightarrow>
    cursor + length (batch_body plans ps) = body_end alignment ps cursor \<and>
    concat (map pr_digest ps) = concat (map location_digest (map pr_location ps))"
proof (induction plans arbitrary: index cursor ps)
  case (Cons plan plans)
  obtain p rest where p: "ps = p # rest" "planned_ok crc alignment batch index cursor plan p"
      "plan_records crc hash alignment batch (index + 1) (cursor + alignment + pr_padded_len p) plans = Inr rest"
    using plan_records_Cons [OF laws _ _ _ Cons.prems(2)] Cons.prems(1) by (auto simp: plans_fit_Cons)
  have "length (record_image plan p) = alignment + pr_padded_len p"
    using Cons.prems(1) by (intro record_image_length(1) [OF p(2)]) (simp add: plans_fit_Cons)
  moreover have "pr_digest p = location_digest (pr_location p)" using p(2) by (simp add: planned_ok_def)
  ultimately show ?case
    using Cons.IH [OF _ p(3)] Cons.prems(1) by (simp add: p(1) batch_body_Cons plans_fit_Cons)
qed (simp add: batch_body_def)

text \<open>The scan runs through the records of a batch and collects them.\<close>

lemma scan_body:
  assumes laws: "crc_laws crc"
  shows "plans_fit alignment plans batch index \<Longrightarrow> plan_records crc hash alignment batch index (length f) plans = Inr ps \<Longrightarrow>
    body_end alignment ps (length f) < 2 ^ 64 \<Longrightarrow> sc_offset s = length f \<Longrightarrow> sc_pending s = pending_batch batch acc \<Longrightarrow>
    \<exists>t. scan_loop crc hash alignment (f @ batch_body plans ps @ g) s = scan_loop crc hash alignment (f @ batch_body plans ps @ g) t \<and>
      sc_offset t = body_end alignment ps (length f) \<and> sc_pending t = pending_batch batch (acc @ map pr_location ps) \<and>
      sc_records t = sc_records s \<and> sc_committed_end t = sc_committed_end s \<and> sc_sealed t = sc_sealed s \<and>
      (sc_next_batch_id s < 2 ^ 64 \<longrightarrow> sc_next_batch_id t < 2 ^ 64)"
proof (induction plans arbitrary: index f ps s acc)
  case Nil
  then show ?case by auto
next
  case (Cons plan plans)
  obtain p rest where p: "ps = p # rest" "planned_ok crc alignment batch index (length f) plan p"
      "plan_records crc hash alignment batch (index + 1) (length f + alignment + pr_padded_len p) plans = Inr rest"
    using plan_records_Cons [OF laws _ _ _ Cons.prems(2)] Cons.prems(1) by (auto simp: plans_fit_Cons)
  have fits: "plan_fits alignment plan" and rest: "plans_fit alignment plans batch (index + 1)"
    using Cons.prems(1) by (simp_all add: plans_fit_Cons)
  note il = record_image_length [OF p(2) fits]
  have small: "length f + alignment + pr_padded_len p < 2 ^ 64"
    using Cons.prems(3) body_end_ge [of "length f + alignment + pr_padded_len p" rest alignment] by (simp add: p(1))
  let ?f = "f @ record_image plan p"
  let ?s = "scanned alignment batch p s"
  have split: "f @ batch_body (plan # plans) ps @ g = ?f @ batch_body plans rest @ g"
    by (simp add: p(1) batch_body_Cons)
  have "scan_step crc hash alignment (f @ record_image plan p @ batch_body plans rest @ g) s = ScanMore ?s"
    by (rule scan_complete_record [OF laws p(2) fits Cons.prems(4) small])
  then have step: "scan_loop crc hash alignment (?f @ batch_body plans rest @ g) s =
      scan_loop crc hash alignment (?f @ batch_body plans rest @ g) ?s"
    using il Cons.prems(4) by (intro scan_loop_more) simp_all
  have len: "length ?f = length f + alignment + pr_padded_len p" using il by simp
  have planned: "plan_records crc hash alignment batch (index + 1) (length ?f) plans = Inr rest" unfolding len by (rule p(3))
  have stop: "body_end alignment rest (length ?f) < 2 ^ 64" using Cons.prems(3) unfolding p(1) len by simp
  have off: "sc_offset ?s = length ?f" unfolding len using Cons.prems(4) by simp
  from Cons.IH [OF rest planned stop off scanned_pending [OF Cons.prems(5)]]
  obtain t where t: "scan_loop crc hash alignment (?f @ batch_body plans rest @ g) ?s =
        scan_loop crc hash alignment (?f @ batch_body plans rest @ g) t"
      "sc_offset t = body_end alignment rest (length ?f)" "sc_pending t = pending_batch batch ((acc @ [pr_location p]) @ map pr_location rest)"
      "sc_records t = sc_records ?s" "sc_committed_end t = sc_committed_end ?s" "sc_sealed t = sc_sealed ?s"
      "sc_next_batch_id ?s < 2 ^ 64 \<longrightarrow> sc_next_batch_id t < 2 ^ 64"
    by (elim exE conjE)
  show ?case
  proof (intro exI [of _ t] conjI)
    show "scan_loop crc hash alignment (f @ batch_body (plan # plans) ps @ g) s =
        scan_loop crc hash alignment (f @ batch_body (plan # plans) ps @ g) t"
      unfolding split step by (rule t(1))
  qed (use t next_batch_bound(2) [of s alignment batch p] in \<open>simp_all add: p(1) len del: length_append\<close>)
qed

text \<open>A batch that is cut off anywhere adds nothing to the records.\<close>

lemma scan_torn_batch:
  assumes laws: "crc_laws crc" and al: "0 < alignment"
  shows "plans_fit alignment plans batch index \<Longrightarrow> plan_records crc hash alignment batch index (length f) plans = Inr ps \<Longrightarrow>
    body_end alignment ps (length f) < 2 ^ 64 \<Longrightarrow> sc_offset s = length f \<Longrightarrow> length commit = alignment \<Longrightarrow>
    n < length (batch_body plans ps @ commit) \<Longrightarrow>
    \<exists>t. scan_loop crc hash alignment (f @ take n (batch_body plans ps @ commit)) s = t \<and>
      sc_records t = sc_records s \<and> sc_committed_end t = sc_committed_end s \<and> sc_sealed t = sc_sealed s \<and>
      (sc_next_batch_id s < 2 ^ 64 \<longrightarrow> sc_next_batch_id t < 2 ^ 64)"
proof (induction plans arbitrary: index f ps s n)
  case Nil
  then show ?case by (simp add: scan_loop_end batch_body_def)
next
  case (Cons plan plans)
  obtain p rest where p: "ps = p # rest" "planned_ok crc alignment batch index (length f) plan p"
      "plan_records crc hash alignment batch (index + 1) (length f + alignment + pr_padded_len p) plans = Inr rest"
    using plan_records_Cons [OF laws _ _ _ Cons.prems(2)] Cons.prems(1) by (auto simp: plans_fit_Cons)
  have fits: "plan_fits alignment plan" and rest: "plans_fit alignment plans batch (index + 1)"
    using Cons.prems(1) by (simp_all add: plans_fit_Cons)
  note il = record_image_length [OF p(2) fits]
  have small: "length f + alignment + pr_padded_len p < 2 ^ 64"
    using Cons.prems(3) body_end_ge [of "length f + alignment + pr_padded_len p" rest alignment] by (simp add: p(1))
  let ?g = "batch_body plans rest @ commit"
  have image: "batch_body (plan # plans) ps @ commit = record_image plan p @ ?g" by (simp add: p(1) batch_body_Cons)
  consider "n < alignment" | "alignment \<le> n" "n < alignment + pr_padded_len p" | "alignment + pr_padded_len p \<le> n"
    by linarith
  then show ?case
  proof cases
    case 1
    then show ?thesis using Cons.prems(4) by (simp add: scan_loop_end)
  next
    case 2
    have "scan_loop crc hash alignment (f @ take n (record_image plan p @ ?g)) s = saw_header batch s"
    proof (rule scan_loop_stop [OF scan_torn_record [OF p(2) fits Cons.prems(4) 2 small] al])
      show "sc_offset s + alignment \<le> length (f @ take n (record_image plan p @ ?g))"
        using 2 il Cons.prems(4) by simp
    qed
    then show ?thesis unfolding image using next_batch_bound(1) by simp
  next
    case 3
    let ?f = "f @ record_image plan p"
    let ?m = "n - (alignment + pr_padded_len p)"
    have len: "length ?f = length f + alignment + pr_padded_len p" using il by simp
    have split: "f @ take n (record_image plan p @ ?g) = ?f @ take ?m ?g" using 3 il(1) by simp
    have "scan_step crc hash alignment (f @ record_image plan p @ take ?m ?g) s = ScanMore (scanned alignment batch p s)"
      by (rule scan_complete_record [OF laws p(2) fits Cons.prems(4) small])
    then have step: "scan_loop crc hash alignment (?f @ take ?m ?g) s =
        scan_loop crc hash alignment (?f @ take ?m ?g) (scanned alignment batch p s)"
      using il Cons.prems(4) by (intro scan_loop_more) simp_all
    have m: "?m < length ?g" using Cons.prems(6) 3 il(1) unfolding image by simp
    have planned: "plan_records crc hash alignment batch (index + 1) (length ?f) plans = Inr rest" unfolding len by (rule p(3))
    have stop: "body_end alignment rest (length ?f) < 2 ^ 64" using Cons.prems(3) unfolding p(1) len by simp
    have off: "sc_offset (scanned alignment batch p s) = length ?f" unfolding len using Cons.prems(4) by simp
    show ?thesis
      using Cons.IH [OF rest planned stop off Cons.prems(5) m] next_batch_bound(2) [of s alignment batch p]
      unfolding image split step by simp
  qed
qed


section \<open>The image of an extent\<close>

lemma commit_header_fits:
  assumes "hash_laws hash" "101 \<le> alignment" "batch < 2 ^ 64" "length ps < 2 ^ 64"
  shows "header_fits alignment (commit_header hash batch ps) True"
  using assms by (simp add: header_fits_def commit_header_def hash_laws_def fixed_header_bytes_def max_record_id_bytes_def)

lemma append_batch_bytesE:
  assumes laws: "crc_laws crc" "hash_laws hash" and al: "101 \<le> alignment" and fit: "plans_fit alignment plans batch index"
    and app: "append_batch_bytes crc hash alignment batch index cursor plans = Inr (written, locs)"
  obtains ps commit where "plan_records crc hash alignment batch index cursor plans = Inr ps" "length commit = alignment"
    "parse_record_header crc alignment commit = Inr (commit_header hash batch ps)" "written = batch_body plans ps @ commit"
    "locs = map (\<lambda>p. (pr_location p)\<lparr>rl_batch_end := cursor + length written\<rparr>) ps"
    "cursor + length written = body_end alignment ps cursor + alignment" "length ps = length plans"
proof -
  obtain ps where ps: "plan_records crc hash alignment batch index cursor plans = Inr ps"
    using app by (auto simp: append_batch_bytes_def split: sum.splits)
  have len: "length ps = length plans" by (rule plan_records_length [OF ps])
  have "header_fits alignment (commit_header hash batch ps) True"
    using fit len by (intro commit_header_fits laws al) (simp_all add: plans_fit_def)
  then obtain commit where c: "encode_record_header crc alignment (commit_header hash batch ps) True = Inr commit"
      "length commit = alignment" "parse_record_header crc alignment commit = Inr (commit_header hash batch ps)"
    using record_header_parses [OF laws(1)] by metis
  have w: "written = batch_body plans ps @ commit"
    using app ps c(1) by (auto simp: append_batch_bytes_def Let_def)
  have stop: "cursor + length written = body_end alignment ps cursor + alignment"
    using planned_batch [OF laws(1) fit ps] c(2) w by simp
  have "locs = map (\<lambda>p. (pr_location p)\<lparr>rl_batch_end := cursor + length written\<rparr>) ps"
    unfolding stop using app ps c(1) by (auto simp: append_batch_bytes_def Let_def body_end_def)
  then show ?thesis using that ps c(2,3) w stop len by blast
qed

lemma scan_batch:
  assumes laws: "crc_laws crc" "hash_laws hash" and al: "101 \<le> alignment" and fit: "plans_fit alignment plans batch index"
    and ne: "plans \<noteq> []"
    and app: "append_batch_bytes crc hash alignment batch index (length f) plans = Inr (written, locs)"
    and small: "length f + length written < 2 ^ 64" and at: "sc_offset s = length f" "sc_pending s = []"
  shows "\<exists>t. scan_loop crc hash alignment (f @ written @ g) s = scan_loop crc hash alignment (f @ written @ g) t \<and>
    sc_offset t = length f + length written \<and> sc_committed_end t = length f + length written \<and> sc_pending t = [] \<and>
    sc_records t = sc_records s @ locs \<and> sc_sealed t = sc_sealed s \<and>
    (sc_next_batch_id s < 2 ^ 64 \<longrightarrow> sc_next_batch_id t < 2 ^ 64)"
proof -
  obtain ps commit where ps: "plan_records crc hash alignment batch index (length f) plans = Inr ps" "length commit = alignment"
      "parse_record_header crc alignment commit = Inr (commit_header hash batch ps)" "written = batch_body plans ps @ commit"
      "locs = map (\<lambda>p. (pr_location p)\<lparr>rl_batch_end := length f + length written\<rparr>) ps"
      "length f + length written = body_end alignment ps (length f) + alignment" "length ps = length plans"
    using append_batch_bytesE [OF laws al fit app] by metis
  have nonempty: "ps \<noteq> []" using ne ps(7) by auto
  let ?file = "f @ batch_body plans ps @ commit @ g"
  have split: "f @ written @ g = ?file" by (simp add: ps(4))
  have stop: "body_end alignment ps (length f) < 2 ^ 64" using small ps(6) by simp
  have "sc_pending s = pending_batch batch []" using at(2) by (simp add: pending_batch_def)
  from scan_body [OF laws(1) fit ps(1) stop at(1) this, of "commit @ g"]
  obtain u where u: "scan_loop crc hash alignment ?file s = scan_loop crc hash alignment ?file u"
      "sc_offset u = body_end alignment ps (length f)" "sc_pending u = pending_batch batch ([] @ map pr_location ps)"
      "sc_records u = sc_records s" "sc_committed_end u = sc_committed_end s" "sc_sealed u = sc_sealed s"
      "sc_next_batch_id s < 2 ^ 64 \<longrightarrow> sc_next_batch_id u < 2 ^ 64"
    by (elim exE conjE)
  have body: "length (f @ batch_body plans ps) = body_end alignment ps (length f)"
    using planned_batch [OF laws(1) fit ps(1)] by simp
  define t where "t = (saw_header batch u)\<lparr>sc_pending := [], sc_offset := length f + length written,
    sc_committed_end := length f + length written, sc_records := sc_records s @ locs\<rparr>"
  have "scan_commit hash alignment (commit_header hash batch ps) (saw_header batch u) = ScanMore t"
    using u nonempty ps(5,6) planned_batch [OF laws(1) fit ps(1)]
    by (simp add: scan_commit_def commit_header_def pending_batch_def extent_digest_def t_def bt_remove_def Let_def)
  moreover have "scan_step crc hash alignment ((f @ batch_body plans ps) @ commit @ g) u =
      scan_commit hash alignment (commit_header hash batch ps) (saw_header batch u)"
    using scan_step_parsed [OF ps(3,2), of u "f @ batch_body plans ps" hash g] u(2) body
    by (simp add: commit_header_def record_data_def record_commit_def)
  ultimately have step: "scan_step crc hash alignment ?file u = ScanMore t" by simp
  have "scan_loop crc hash alignment ?file u = scan_loop crc hash alignment ?file t"
    using u(2) body ps(2) al by (intro scan_loop_more [OF step]) simp_all
  then show ?thesis
    unfolding split u(1) using u(6,7) next_batch_bound(1) [of u batch] by (intro exI [of _ t] conjI) (simp_all add: t_def)
qed

text \<open>
  The files that appends produce, with the records they index: the extent header, then the
  images of whole batches.
\<close>

inductive extent_image :: "crc_function \<Rightarrow> hash_function \<Rightarrow> nat \<Rightarrow> extent_id \<Rightarrow> bytes \<Rightarrow> record_location list \<Rightarrow> bool"
  for crc hash alignment eid where
  empty: "extent_image crc hash alignment eid (extent_header crc eid alignment) []"
| batch: "extent_image crc hash alignment eid f rs \<Longrightarrow> plans \<noteq> [] \<Longrightarrow> plans_fit alignment plans b (length rs) \<Longrightarrow>
    append_batch_bytes crc hash alignment b (length rs) (length f) plans = Inr (written, locs) \<Longrightarrow>
    length f + length written < 2 ^ 64 \<Longrightarrow> extent_image crc hash alignment eid (f @ written) (rs @ locs)"

text \<open>The parameters of a store: documented laws, a valid alignment and a 16-byte identity.\<close>

definition store_params :: "crc_function \<Rightarrow> hash_function \<Rightarrow> nat \<Rightarrow> extent_id \<Rightarrow> bool" where
  "store_params crc hash alignment eid \<longleftrightarrow> crc_laws crc \<and> hash_laws hash \<and> 101 \<le> alignment \<and> alignment < 2 ^ 64 \<and> length eid = 16"

lemma store_paramsD:
  assumes "store_params crc hash alignment eid"
  shows "crc_laws crc" "hash_laws hash" "101 \<le> alignment" "alignment < 2 ^ 64" "length eid = 16"
  using assms by (simp_all add: store_params_def)

lemma image_header:
  assumes p: "store_params crc hash alignment eid" and im: "extent_image crc hash alignment eid f rs"
  shows "\<exists>body. f = extent_header crc eid alignment @ body"
  using im by (induction rule: extent_image.induct) auto

lemma image_scan:
  assumes p: "store_params crc hash alignment eid" and im: "extent_image crc hash alignment eid f rs"
  shows "\<exists>t. scan_loop crc hash alignment (f @ g) (scan_init alignment) = scan_loop crc hash alignment (f @ g) t \<and>
    sc_offset t = length f \<and> sc_committed_end t = length f \<and> sc_pending t = [] \<and> sc_records t = rs \<and> \<not> sc_sealed t \<and>
    sc_next_batch_id t < 2 ^ 64"
  using im
proof (induction arbitrary: g rule: extent_image.induct)
  case empty
  then show ?case
    using extent_header_valid(2) [of crc alignment eid] store_paramsD [OF p]
    by (intro exI [of _ "scan_init alignment"]) (simp add: scan_init_def)
next
  case (batch f rs plans b written locs)
  obtain u where u: "scan_loop crc hash alignment (f @ written @ g) (scan_init alignment) = scan_loop crc hash alignment (f @ written @ g) u"
      "sc_offset u = length f" "sc_committed_end u = length f" "sc_pending u = []" "sc_records u = rs" "\<not> sc_sealed u"
      "sc_next_batch_id u < 2 ^ 64"
    using batch.IH [of "written @ g"] by (elim exE conjE)
  show ?case
    using scan_batch [OF store_paramsD(1-3) [OF p] batch.hyps(3,2,4,5) u(2,4), of g] u by auto
qed


section \<open>Contents\<close>

definition record_entry :: "bytes \<Rightarrow> record_location \<Rightarrow> bytes \<times> bytes" where
  "record_entry file l =
     (let i = rl_inspection l in (ri_record_id i, slice (ri_payload_offset i) (ri_encoded_len i) file))"

definition plan_entry :: "append_plan \<Rightarrow> bytes \<times> bytes" where
  "plan_entry plan = (ap_record_id plan, bc_bytes (ap_payload plan))"

definition within :: "nat \<Rightarrow> record_location \<Rightarrow> bool" where
  "within n l \<longleftrightarrow> ri_payload_offset (rl_inspection l) + ri_encoded_len (rl_inspection l) \<le> n"

lemma record_entry_append: "within (length f) l \<Longrightarrow> record_entry (f @ g) l = record_entry f l"
  by (simp add: record_entry_def within_def byte_ops Let_def)

lemma record_entry_batch_end [simp]: "record_entry file (l\<lparr>rl_batch_end := n\<rparr>) = record_entry file l"
  and within_batch_end [simp]: "within m (l\<lparr>rl_batch_end := n\<rparr>) \<longleftrightarrow> within m l"
  by (simp_all add: record_entry_def within_def)

lemma planned_entries:
  assumes laws: "crc_laws crc"
  shows "plans_fit alignment plans batch index \<Longrightarrow> plan_records crc hash alignment batch index (length f) plans = Inr ps \<Longrightarrow>
    map (record_entry (f @ batch_body plans ps @ g)) (map pr_location ps) = map plan_entry plans \<and>
    list_all (\<lambda>p. within (body_end alignment ps (length f)) (pr_location p)) ps"
proof (induction plans arbitrary: index f ps)
  case (Cons plan plans)
  obtain p rest where p: "ps = p # rest" "planned_ok crc alignment batch index (length f) plan p"
      "plan_records crc hash alignment batch (index + 1) (length f + alignment + pr_padded_len p) plans = Inr rest"
    using plan_records_Cons [OF laws _ _ _ Cons.prems(2)] Cons.prems(1) by (auto simp: plans_fit_Cons)
  have fits: "plan_fits alignment plan" and rest: "plans_fit alignment plans batch (index + 1)"
    using Cons.prems(1) by (simp_all add: plans_fit_Cons)
  note il = record_image_length [OF p(2) fits]
  let ?f = "f @ record_image plan p"
  have len: "length ?f = length f + alignment + pr_padded_len p" using il by simp
  have planned: "plan_records crc hash alignment batch (index + 1) (length ?f) plans = Inr rest" unfolding len by (rule p(3))
  have loc: "pr_location p = planned_location index (length f + alignment) plan (chain_crc32c crc (ap_payload plan))"
    and hl: "length (pr_header p) = alignment"
    using p(2) by (simp_all add: planned_ok_def)
  have el: "length (bc_bytes (ap_payload plan)) = bc_encoded_len (ap_payload plan)"
    using fits by (simp add: plan_fits_def chain_ok_def)
  have "within (length ?f) (pr_location p)"
    using len il(2) by (simp add: loc within_def planned_location_def del: length_append)
  then have w: "within (body_end alignment rest (length ?f)) (pr_location p)"
    using body_end_ge [of "length ?f" rest alignment] by (simp add: within_def del: length_append)
  have "record_entry (f @ pr_header p @ bc_bytes (ap_payload plan) @ x) (pr_location p) = plan_entry plan" for x
    using hl el by (simp add: record_entry_def loc planned_location_def plan_entry_def slice_def)
  then have head: "record_entry (f @ batch_body (plan # plans) ps @ g) (pr_location p) = plan_entry plan"
    by (simp add: p(1) batch_body_Cons record_image_def concat_io_slices)
  have split: "f @ batch_body (plan # plans) ps @ g = ?f @ batch_body plans rest @ g" by (simp add: p(1) batch_body_Cons)
  have tail: "map (record_entry (f @ batch_body (plan # plans) ps @ g)) (map pr_location rest) = map plan_entry plans"
    unfolding split using Cons.IH [OF rest planned] by blast
  have "list_all (\<lambda>p. within (body_end alignment rest (length ?f)) (pr_location p)) rest"
    using Cons.IH [OF rest planned] by blast
  then show ?case using head tail w unfolding len by (simp add: p(1))
qed (simp add: batch_body_def)

text \<open>Every indexed record lies inside the file, batches end inside it, and each record takes a block.\<close>

lemma image_bounds:
  assumes p: "store_params crc hash alignment eid" and im: "extent_image crc hash alignment eid f rs"
  shows "list_all (\<lambda>l. within (length f) l \<and> rl_batch_end l \<le> length f) rs \<and> length rs * alignment + alignment \<le> length f \<and>
    (rs = [] \<or> rl_batch_end (last rs) = length f)"
  using im
proof (induction rule: extent_image.induct)
  case empty
  then show ?case using extent_header_valid(2) [of crc alignment eid] store_paramsD [OF p] by simp
next
  case (batch f rs plans b written locs)
  obtain ps commit where ps: "plan_records crc hash alignment b (length rs) (length f) plans = Inr ps" "length commit = alignment"
      "written = batch_body plans ps @ commit" "locs = map (\<lambda>p. (pr_location p)\<lparr>rl_batch_end := length f + length written\<rparr>) ps"
      "length f + length written = body_end alignment ps (length f) + alignment" "length ps = length plans"
    using append_batch_bytesE [OF store_paramsD(1-3) [OF p] batch.hyps(3,4)] by metis
  have "list_all (\<lambda>p. within (body_end alignment ps (length f)) (pr_location p)) ps"
    using planned_entries [OF store_paramsD(1) [OF p] batch.hyps(3) ps(1)] by blast
  then have new: "list_all (\<lambda>l. within (length f + length written) l \<and> rl_batch_end l \<le> length f + length written) locs"
    using ps(4,5) by (auto simp: list_all_iff within_def)
  have old: "list_all (\<lambda>l. within (length f + length written) l \<and> rl_batch_end l \<le> length f + length written) rs"
    using batch.IH by (fastforce simp: list_all_iff within_def)
  have "locs \<noteq> []" using batch.hyps(2) ps(4,6) by auto
  then have "rl_batch_end (last (rs @ locs)) = length f + length written" by (simp add: ps(4) last_map)
  moreover have "length locs * alignment \<le> length written"
    using body_end_ge [of "length f" ps alignment] ps(4,5) by simp
  ultimately show ?case using new old batch.IH \<open>locs \<noteq> []\<close> by (simp add: add_mult_distrib)
qed

lemma image_append_contents:
  assumes p: "store_params crc hash alignment eid" and im: "extent_image crc hash alignment eid f rs"
    and fit: "plans_fit alignment plans b (length rs)"
    and app: "append_batch_bytes crc hash alignment b (length rs) (length f) plans = Inr (written, locs)"
  shows "map (record_entry (f @ written)) (rs @ locs) = map (record_entry f) rs @ map plan_entry plans"
proof -
  obtain ps commit where ps: "plan_records crc hash alignment b (length rs) (length f) plans = Inr ps"
      "written = batch_body plans ps @ commit" "locs = map (\<lambda>p. (pr_location p)\<lparr>rl_batch_end := length f + length written\<rparr>) ps"
    using append_batch_bytesE [OF store_paramsD(1-3) [OF p] fit app] by metis
  have "map (record_entry (f @ written)) locs = map plan_entry plans"
    using planned_entries [OF store_paramsD(1) [OF p] fit ps(1), of commit] by (simp add: ps(2,3) comp_def)
  moreover have "map (record_entry (f @ written)) rs = map (record_entry f) rs"
    using image_bounds [OF p im] by (auto simp: list_all_iff record_entry_append)
  ultimately show ?thesis by simp
qed

lemma image_truncate:
  assumes p: "store_params crc hash alignment eid" and im: "extent_image crc hash alignment eid f rs"
  shows "keep \<le> length rs \<Longrightarrow> \<not> (keep > 0 \<and> keep < length rs \<and> rl_batch_end (rs ! (keep - 1)) = rl_batch_end (rs ! keep)) \<Longrightarrow>
    stop = (if keep = 0 then alignment else rl_batch_end (rs ! (keep - 1))) \<Longrightarrow>
    stop \<le> length f \<and> extent_image crc hash alignment eid (take stop f) (take keep rs)"
  using im
proof (induction arbitrary: stop rule: extent_image.induct)
  case empty
  have "length (extent_header crc eid alignment) = alignment"
    using extent_header_valid(2) [of crc alignment eid] store_paramsD [OF p] by simp
  then show ?case using empty extent_image.empty by simp
next
  case (batch f rs plans b written locs)
  obtain ps :: "planned_record list" where locs: "locs = map (\<lambda>p. (pr_location p)\<lparr>rl_batch_end := length f + length written\<rparr>) ps"
    using append_batch_bytesE [OF store_paramsD(1-3) [OF p] batch.hyps(3,4)] by metis
  note ib = image_bounds [OF p batch.hyps(1)]
  consider "keep < length rs \<or> keep = 0" | "keep = length rs" "0 < keep" | "length rs < keep" by linarith
  then show ?case
  proof cases
    case 1
    have stop: "stop = (if keep = 0 then alignment else rl_batch_end (rs ! (keep - 1)))"
      using batch.prems(3) 1 by (auto simp: nth_append)
    have "stop \<le> length f \<and> extent_image crc hash alignment eid (take stop f) (take keep rs)"
    proof (rule batch.IH [OF _ _ stop])
      show "keep \<le> length rs" using 1 by auto
      show "\<not> (keep > 0 \<and> keep < length rs \<and> rl_batch_end (rs ! (keep - 1)) = rl_batch_end (rs ! keep))"
        using batch.prems(2) by (auto simp: nth_append split: if_splits)
    qed
    moreover have "keep \<le> length rs" using 1 by auto
    ultimately show ?thesis by simp
  next
    case 2
    then have "stop = rl_batch_end (last rs)" using batch.prems(3) by (auto simp: nth_append last_conv_nth)
    then have "stop = length f" using ib 2 by auto
    then show ?thesis using batch.hyps(1) 2 by simp
  next
    case 3
    have stop: "stop = length f + length written"
      using 3 batch.prems(1,3) by (auto simp: nth_append locs)
    have "keep = length rs + length locs"
    proof (rule ccontr)
      assume "keep \<noteq> length rs + length locs"
      then have "rl_batch_end ((rs @ locs) ! (keep - 1)) = rl_batch_end ((rs @ locs) ! keep)"
        using 3 batch.prems(1) by (auto simp: nth_append locs)
      then show False using batch.prems(1,2) 3 \<open>keep \<noteq> length rs + length locs\<close> by auto
    qed
    then show ?thesis using stop extent_image.batch [OF batch.hyps] by simp
  qed
qed

end
