(* ===== verification/Extent_Log.thy ===== *)
theory Extent_Log
  imports Extent_Recovery
begin

text \<open>
  An extent as a log of records. The interface \<open>record_log\<close> says what a client of an extent may
  rely on: a completed append adds its records, and an append interrupted by a crash adds all
  of them or none. The extent store is shown to provide it, byte format and recovery scan
  included.
\<close>

section \<open>The interface\<close>

text \<open>A run of appends, each completed (\<open>None\<close>) or interrupted after some bytes.\<close>

fun run_log :: "('p \<Rightarrow> 'h \<Rightarrow> 'h option) \<Rightarrow> (nat \<Rightarrow> 'p \<Rightarrow> 'h \<Rightarrow> 'h) \<Rightarrow> ('p \<times> nat option) list \<Rightarrow> 'h \<Rightarrow> 'h option" where
  "run_log app crash [] h = Some h"
| "run_log app crash ((p, None) # ops) h =
     (case app p h of None \<Rightarrow> None | Some h' \<Rightarrow> run_log app crash ops h')"
| "run_log app crash ((p, Some n) # ops) h = run_log app crash ops (crash n p h)"

text \<open>The logs such a run may leave: every completed append, and any of the interrupted ones, in order.\<close>

fun possible_logs :: "('p \<Rightarrow> 'r list) \<Rightarrow> ('p \<times> nat option) list \<Rightarrow> 'r list set" where
  "possible_logs entries [] = {[]}"
| "possible_logs entries ((p, None) # ops) = (\<lambda>rest. entries p @ rest) ` possible_logs entries ops"
| "possible_logs entries ((p, Some n) # ops) =
     possible_logs entries ops \<union> (\<lambda>rest. entries p @ rest) ` possible_logs entries ops"

locale record_log =
  fixes ok :: "'h \<Rightarrow> bool"
    and contents :: "'h \<Rightarrow> 'r list"
    and entries :: "'p \<Rightarrow> 'r list"
    and app :: "'p \<Rightarrow> 'h \<Rightarrow> 'h option"
    and crash :: "nat \<Rightarrow> 'p \<Rightarrow> 'h \<Rightarrow> 'h"
  assumes append_ok: "ok h \<Longrightarrow> app p h = Some h' \<Longrightarrow> ok h'"
    and append_contents: "ok h \<Longrightarrow> app p h = Some h' \<Longrightarrow> contents h' = contents h @ entries p"
    and crash_ok: "ok h \<Longrightarrow> ok (crash n p h)"
    and crash_contents: "ok h \<Longrightarrow> contents (crash n p h) = contents h \<or> contents (crash n p h) = contents h @ entries p"
begin

lemma run_contents:
  "ok h \<Longrightarrow> run_log app crash ops h = Some h' \<Longrightarrow>
     ok h' \<and> (\<exists>log \<in> possible_logs entries ops. contents h' = contents h @ log)"
proof (induction ops arbitrary: h)
  case (Cons op ops)
  obtain p interrupted where op: "op = (p, interrupted)" by fastforce
  show ?case
  proof (cases interrupted)
    case None
    then obtain h1 where h1: "app p h = Some h1" "run_log app crash ops h1 = Some h'"
      using Cons.prems(2) by (auto simp: op split: option.splits)
    then obtain log where "ok h'" "log \<in> possible_logs entries ops" "contents h' = contents h1 @ log"
      using Cons.IH [OF append_ok [OF Cons.prems(1) h1(1)] h1(2)] by blast
    then show ?thesis using append_contents [OF Cons.prems(1) h1(1)] by (auto simp: op None)
  next
    case (Some n)
    then obtain log where "ok h'" "log \<in> possible_logs entries ops" "contents h' = contents (crash n p h) @ log"
      using Cons.IH [OF crash_ok [OF Cons.prems(1), of n p]] Cons.prems(2) by (auto simp: op)
    then show ?thesis using crash_contents [OF Cons.prems(1), of n p] by (auto simp: op Some)
  qed
qed simp

end

section \<open>The extent store provides it\<close>

text \<open>
  The bytes of an extent agree with its index: whole batches, followed by the seal record when
  the extent is sealed.
\<close>

definition sealed_image :: "crc_function \<Rightarrow> hash_function \<Rightarrow> nat \<Rightarrow> extent_id \<Rightarrow> bytes \<Rightarrow> record_location list \<Rightarrow> bool" where
  "sealed_image crc hash alignment eid file rs \<longleftrightarrow> (\<exists>f s header. file = f @ header \<and>
     extent_image crc hash alignment eid f rs \<and> es_records s = rs \<and> length header = alignment \<and>
     parse_record_header crc alignment header = Inr (seal_header hash s))"

definition handle_ok :: "crc_function \<Rightarrow> hash_function \<Rightarrow> extent_config \<Rightarrow> extent_id \<Rightarrow> extent_handle \<Rightarrow> bool" where
  "handle_ok crc hash cfg eid h \<longleftrightarrow> (let s = eh_state h in
     store_params crc hash (ec_alignment cfg) eid \<and> ec_maximum_extent_bytes cfg < 2 ^ 64 \<and>
     es_next_batch_id s < 2 ^ 64 \<and> es_committed_end s = length (eh_file h) \<and>
     (if es_sealed s then sealed_image crc hash (ec_alignment cfg) eid (eh_file h) (es_records s)
      else extent_image crc hash (ec_alignment cfg) eid (eh_file h) (es_records s)))"

definition extent_contents :: "extent_handle \<Rightarrow> (bytes \<times> bytes) list" where
  "extent_contents h = map (record_entry (eh_file h)) (es_records (eh_state h))"

text \<open>An append request of well-formed plans, completed or interrupted and then recovered.\<close>

definition request_ok :: "extent_config \<Rightarrow> append_plan list \<Rightarrow> bool" where
  "request_ok cfg plans \<longleftrightarrow> plans \<noteq> [] \<and> list_all (plan_fits (ec_alignment cfg)) plans"

definition completed_append ::
    "crc_function \<Rightarrow> hash_function \<Rightarrow> extent_config \<Rightarrow> extent_id \<Rightarrow> append_plan list \<Rightarrow> extent_handle \<Rightarrow> extent_handle option" where
  "completed_append crc hash cfg eid plans h =
     (if request_ok cfg plans
      then (case append_handle crc hash cfg MediaOk eid plans h of (Inl _, _) \<Rightarrow> None | (Inr _, h') \<Rightarrow> Some h')
      else None)"

definition interrupted_append ::
    "crc_function \<Rightarrow> hash_function \<Rightarrow> extent_config \<Rightarrow> extent_id \<Rightarrow> nat \<Rightarrow> append_plan list \<Rightarrow> extent_handle \<Rightarrow> extent_handle" where
  "interrupted_append crc hash cfg eid n plans h =
     (if request_ok cfg plans
      then snd (recover_handle crc hash cfg IoOk eid (snd (append_handle crc hash cfg (MediaTorn n) eid plans h)))
      else h)"

lemma handle_okD:
  assumes "handle_ok crc hash cfg eid h"
  shows "store_params crc hash (ec_alignment cfg) eid" "ec_maximum_extent_bytes cfg < 2 ^ 64"
    "es_next_batch_id (eh_state h) < 2 ^ 64" "es_committed_end (eh_state h) = length (eh_file h)"
    "es_sealed (eh_state h) \<Longrightarrow> sealed_image crc hash (ec_alignment cfg) eid (eh_file h) (es_records (eh_state h))"
    "\<not> es_sealed (eh_state h) \<Longrightarrow> extent_image crc hash (ec_alignment cfg) eid (eh_file h) (es_records (eh_state h))"
  using assms by (auto simp: handle_ok_def Let_def)

lemma write_file_end: "write_file (length f) bs f = f @ bs"
  by (simp add: write_file_def)

text \<open>What a recovery scan makes of a file.\<close>

lemma recover_file_scan:
  assumes p: "store_params crc hash (ec_alignment cfg) eid" and im: "extent_image crc hash (ec_alignment cfg) eid f rs"
    and t: "scan_loop crc hash (ec_alignment cfg) (f @ g) (scan_init (ec_alignment cfg)) = t"
  shows "recover_file crc hash cfg IoOk eid (f @ g) =
    (Inr \<lparr>es_committed_end = sc_committed_end t, es_next_batch_id = sc_next_batch_id t, es_sealed = sc_sealed t,
          es_ignored_tail_bytes = length (f @ g) - sc_committed_end t, es_records = sc_records t\<rparr>,
         take (sc_committed_end t) (f @ g))"
proof -
  obtain body where body: "f = extent_header crc eid (ec_alignment cfg) @ body" using image_header [OF p im] by blast
  have v: "validate_extent_header crc eid (ec_alignment cfg) (extent_header crc eid (ec_alignment cfg)) = Inr ()"
    and l: "length (extent_header crc eid (ec_alignment cfg)) = ec_alignment cfg"
    using extent_header_valid [of crc "ec_alignment cfg" eid] store_paramsD [OF p] by simp_all
  have "slice 0 (ec_alignment cfg) (f @ g) = extent_header crc eid (ec_alignment cfg)"
    using l by (simp add: body slice_def)
  moreover have "ec_alignment cfg \<le> length (f @ g)" using l by (simp add: body)
  ultimately show ?thesis using t v by (simp add: recover_file_def Let_def)
qed

lemma recover_image:
  assumes p: "store_params crc hash (ec_alignment cfg) eid" and im: "extent_image crc hash (ec_alignment cfg) eid f rs"
  shows "\<exists>nb < 2 ^ 64. recover_file crc hash cfg IoOk eid f =
    (Inr \<lparr>es_committed_end = length f, es_next_batch_id = nb, es_sealed = False, es_ignored_tail_bytes = 0, es_records = rs\<rparr>, f)"
proof -
  obtain t where t: "scan_loop crc hash (ec_alignment cfg) (f @ []) (scan_init (ec_alignment cfg)) = scan_loop crc hash (ec_alignment cfg) (f @ []) t"
      "sc_offset t = length f" "sc_committed_end t = length f" "sc_records t = rs" "\<not> sc_sealed t" "sc_next_batch_id t < 2 ^ 64"
    using image_scan [OF p im, of "[]"] by (elim exE conjE)
  have "scan_loop crc hash (ec_alignment cfg) (f @ []) t = t"
    using t(2) store_paramsD(3) [OF p] by (intro scan_loop_end) simp
  then show ?thesis using recover_file_scan [OF p im, of "[]"] t by auto
qed

lemma recover_torn:
  assumes p: "store_params crc hash (ec_alignment cfg) eid" and im: "extent_image crc hash (ec_alignment cfg) eid f rs"
    and fit: "plans_fit (ec_alignment cfg) plans b (length rs)"
    and app: "append_batch_bytes crc hash (ec_alignment cfg) b (length rs) (length f) plans = Inr (written, locs)"
    and small: "length f + length written < 2 ^ 64" and n: "n < length written"
  shows "\<exists>nb tail. nb < 2 ^ 64 \<and> recover_file crc hash cfg IoOk eid (f @ take n written) =
    (Inr \<lparr>es_committed_end = length f, es_next_batch_id = nb, es_sealed = False, es_ignored_tail_bytes = tail, es_records = rs\<rparr>, f)"
proof -
  let ?al = "ec_alignment cfg"
  obtain ps commit where ps: "plan_records crc hash ?al b (length rs) (length f) plans = Inr ps" "length commit = ?al"
      "written = batch_body plans ps @ commit" "length f + length written = body_end ?al ps (length f) + ?al"
    using append_batch_bytesE [OF store_paramsD(1-3) [OF p] fit app] by metis
  obtain u where u: "scan_loop crc hash ?al (f @ take n written) (scan_init ?al) = scan_loop crc hash ?al (f @ take n written) u"
      "sc_offset u = length f" "sc_committed_end u = length f" "sc_records u = rs" "\<not> sc_sealed u" "sc_next_batch_id u < 2 ^ 64"
    using image_scan [OF p im, of "take n written"] by (elim exE conjE)
  have "body_end ?al ps (length f) < 2 ^ 64" "0 < ?al" using small ps(4) store_paramsD(3) [OF p] by simp_all
  from scan_torn_batch [OF store_paramsD(1) [OF p] this(2) fit ps(1) this(1) u(2) ps(2) n [unfolded ps(3)]]
  obtain t where t: "scan_loop crc hash ?al (f @ take n written) u = t" "sc_records t = sc_records u"
      "sc_committed_end t = sc_committed_end u" "sc_sealed t = sc_sealed u" "sc_next_batch_id u < 2 ^ 64 \<longrightarrow> sc_next_batch_id t < 2 ^ 64"
    unfolding ps(3) by (elim exE conjE)
  show ?thesis using recover_file_scan [OF p im, of "take n written" t] t u by simp
qed

lemma recover_sealed:
  assumes p: "store_params crc hash (ec_alignment cfg) eid" and im: "sealed_image crc hash (ec_alignment cfg) eid file rs"
  shows "\<exists>nb < 2 ^ 64. recover_file crc hash cfg IoOk eid file =
    (Inr \<lparr>es_committed_end = length file, es_next_batch_id = nb, es_sealed = True, es_ignored_tail_bytes = 0, es_records = rs\<rparr>, file)"
proof -
  let ?al = "ec_alignment cfg"
  obtain f s header where h: "file = f @ header" "extent_image crc hash ?al eid f rs" "es_records s = rs" "length header = ?al"
      "parse_record_header crc ?al header = Inr (seal_header hash s)"
    using im by (auto simp: sealed_image_def)
  obtain u where u: "scan_loop crc hash ?al (f @ header) (scan_init ?al) = scan_loop crc hash ?al (f @ header) u"
      "sc_offset u = length f" "sc_committed_end u = length f" "sc_pending u = []" "sc_records u = rs" "\<not> sc_sealed u"
      "sc_next_batch_id u < 2 ^ 64"
    using image_scan [OF p h(2), of header] by (elim exE conjE)
  define t where "t = (saw_header (es_next_batch_id s) u)\<lparr>sc_offset := length f + ?al, sc_committed_end := length f + ?al, sc_sealed := True\<rparr>"
  have "scan_step crc hash ?al (f @ header) u = ScanStop t"
    using scan_step_parsed [OF h(5,4) u(2), of hash "[]"] u(2,4,5) h(3)
    by (simp add: seal_header_def record_data_def record_commit_def record_seal_def scan_seal_def Let_def t_def)
  then have "scan_loop crc hash ?al (f @ header) u = t"
    using u(2) h(4) store_paramsD(3) [OF p] by (intro scan_loop_stop) simp_all
  then have t: "scan_loop crc hash ?al (f @ header) (scan_init ?al) = t" using u(1) by simp
  have "sc_records t = rs" "sc_committed_end t = length (f @ header)" "sc_sealed t" "sc_next_batch_id t < 2 ^ 64"
    using u h(4) next_batch_bound(1) [of u "es_next_batch_id s"] by (simp_all add: t_def)
  then show ?thesis using recover_file_scan [OF p h(2) t] unfolding h(1) by (intro exI [of _ "sc_next_batch_id t"]) simp
qed

text \<open>The end of a batch within the capacity bounds everything the batch encodes.\<close>

definition batch_end_of :: "extent_config \<Rightarrow> extent_handle \<Rightarrow> record_location list \<Rightarrow> nat" where
  "batch_end_of cfg h locs =
     (case locs of [] \<Rightarrow> es_committed_end (eh_state h) + ec_alignment cfg | l # _ \<Rightarrow> rl_batch_end l)"

lemma append_within_capacity:
  fixes h :: extent_handle
  defines "f \<equiv> eh_file h" and "s \<equiv> eh_state h"
  assumes ok: "handle_ok crc hash cfg eid h" and open': "\<not> es_sealed s" and req: "request_ok cfg plans"
    and app: "append_batch_bytes crc hash (ec_alignment cfg) (es_next_batch_id s) (length (es_records s)) (es_committed_end s) plans = Inr (written, locs)"
    and cap: "batch_end_of cfg h locs \<le> ec_maximum_extent_bytes cfg"
  shows "plans_fit (ec_alignment cfg) plans (es_next_batch_id s) (length (es_records s))"
    and "batch_end_of cfg h locs = length f + length written"
proof -
  let ?al = "ec_alignment cfg"
  note okD = handle_okD [OF ok, folded f_def s_def]
  obtain ps where ps: "plan_records crc hash ?al (es_next_batch_id s) (length (es_records s)) (length f) plans = Inr ps"
      "locs = map (\<lambda>p. (pr_location p)\<lparr>rl_batch_end := body_end ?al ps (length f) + ?al\<rparr>) ps"
    using app unfolding okD(4) by (auto simp: append_batch_bytes_def body_end_def Let_def split: sum.splits)
  have len: "length ps = length plans" by (rule plan_records_length [OF ps(1)])
  then have stop: "batch_end_of cfg h locs = body_end ?al ps (length f) + ?al"
    using req by (cases ps) (auto simp: batch_end_of_def ps(2) request_ok_def)
  have "length (es_records s) * ?al + length plans * ?al + ?al < 2 ^ 64"
    using image_bounds [OF okD(1) okD(6) [OF open']] body_end_ge [of "length f" ps ?al] cap stop okD(2) len by simp
  moreover have "(length (es_records s) + length plans) * 1 \<le> (length (es_records s) + length plans) * ?al"
    using store_paramsD(3) [OF okD(1)] by (intro mult_le_mono2) simp
  ultimately have "length (es_records s) + length plans < 2 ^ 64" by (simp add: add_mult_distrib)
  then show fit: "plans_fit ?al plans (es_next_batch_id s) (length (es_records s))"
    using req okD(3) by (simp add: plans_fit_def request_ok_def)
  show "batch_end_of cfg h locs = length f + length written"
  proof -
    obtain ps' where "plan_records crc hash ?al (es_next_batch_id s) (length (es_records s)) (length f) plans = Inr ps'"
        "length f + length written = body_end ?al ps' (length f) + ?al"
      using append_batch_bytesE [OF store_paramsD(1-3) [OF okD(1)] fit app] unfolding okD(4) by metis
    then show ?thesis using ps(1) stop by simp
  qed
qed

text \<open>The batch an append writes, and the result and handle for each outcome of the write.\<close>

definition batch_for ::
    "crc_function \<Rightarrow> hash_function \<Rightarrow> extent_config \<Rightarrow> append_plan list \<Rightarrow> extent_handle \<Rightarrow> bytes \<Rightarrow> record_location list \<Rightarrow> bool" where
  "batch_for crc hash cfg plans h written locs \<longleftrightarrow> \<not> es_sealed (eh_state h) \<and>
     plans_fit (ec_alignment cfg) plans (es_next_batch_id (eh_state h)) (length (es_records (eh_state h))) \<and>
     append_batch_bytes crc hash (ec_alignment cfg) (es_next_batch_id (eh_state h)) (length (es_records (eh_state h)))
       (length (eh_file h)) plans = Inr (written, locs) \<and>
     length (eh_file h) + length written \<le> ec_maximum_extent_bytes cfg"

definition after_append ::
    "extent_id \<Rightarrow> extent_handle \<Rightarrow> bytes \<Rightarrow> record_location list \<Rightarrow> media_outcome \<Rightarrow> (extent_error + append_receipt list) \<times> extent_handle" where
  "after_append eid h written locs media =
     (case media of
        MediaTorn n \<Rightarrow> (Inl ExtentIo, h\<lparr>eh_file := eh_file h @ take n written\<rparr>)
      | MediaBarrierFailed \<Rightarrow> (Inl Durability, h\<lparr>eh_file := eh_file h @ written\<rparr>)
      | MediaOk \<Rightarrow> (Inr (map (receipt_of eid) locs),
          \<lparr>eh_file = eh_file h @ written, eh_state = (eh_state h)\<lparr>es_committed_end := length (eh_file h) + length written,
            es_next_batch_id := saturating_add 64 (es_next_batch_id (eh_state h)) 1,
            es_records := es_records (eh_state h) @ locs\<rparr>\<rparr>))"

lemma append_handle_effect:
  assumes ok: "handle_ok crc hash cfg eid h" and req: "request_ok cfg plans"
  obtains e where "append_handle crc hash cfg media eid plans h = (Inl e, h)"
  | written locs where "batch_for crc hash cfg plans h written locs"
      "append_handle crc hash cfg media eid plans h = after_append eid h written locs media"
proof (cases "es_sealed (eh_state h)")
  case True
  then show ?thesis using that(1) by (simp add: append_handle_def Let_def)
next
  case open': False
  let ?ab = "append_batch_bytes crc hash (ec_alignment cfg) (es_next_batch_id (eh_state h)) (length (es_records (eh_state h)))
    (es_committed_end (eh_state h)) plans"
  note okD = handle_okD [OF ok]
  show ?thesis
  proof (cases ?ab)
    case (Inl e)
    then show ?thesis using open' that(1) by (simp add: append_handle_def Let_def)
  next
    case (Inr r)
    obtain written locs where r: "r = (written, locs)" by fastforce
    note app = Inr [unfolded r]
    show ?thesis
    proof (cases "batch_end_of cfg h locs \<le> ec_maximum_extent_bytes cfg")
      case False
      then show ?thesis using open' app that(1) by (simp add: append_handle_def batch_end_of_def Let_def)
    next
      case True
      note fit = append_within_capacity [OF ok open' req app True]
      have "append_handle crc hash cfg media eid plans h = after_append eid h written locs media"
        using open' app True fit(2) okD(4)
        by (simp add: append_handle_def after_append_def write_file_end batch_end_of_def [symmetric] Let_def split: media_outcome.split)
      then show ?thesis using open' app True fit okD(4) by (intro that(2)) (simp_all add: batch_for_def)
    qed
  qed
qed

text \<open>The file with the batch is again a file of whole batches, with the records of the plans.\<close>

lemma batch_for_image:
  assumes ok: "handle_ok crc hash cfg eid h" and req: "request_ok cfg plans" and w: "batch_for crc hash cfg plans h written locs"
  shows "extent_image crc hash (ec_alignment cfg) eid (eh_file h @ written) (es_records (eh_state h) @ locs)"
    and "map (record_entry (eh_file h @ written)) (es_records (eh_state h) @ locs) = extent_contents h @ map plan_entry plans"
  using w extent_image.batch [OF handle_okD(6) [OF ok]] image_append_contents [OF handle_okD(1) [OF ok] handle_okD(6) [OF ok]]
    handle_okD(2) [OF ok] req
  by (auto simp: batch_for_def request_ok_def extent_contents_def)

lemma saturating_succ_bound: "n < 2 ^ w \<Longrightarrow> saturating_add w n 1 < 2 ^ w"
  by (simp add: saturating_add_def)

text \<open>What a recovered extent is.\<close>

lemma recover_handle_ok:
  assumes p: "store_params crc hash (ec_alignment cfg) eid" and max: "ec_maximum_extent_bytes cfg < 2 ^ 64"
    and im: "extent_image crc hash (ec_alignment cfg) eid f rs" and nb: "nb < 2 ^ 64"
    and rec: "recover_file crc hash cfg IoOk eid (eh_file h) =
      (Inr \<lparr>es_committed_end = length f, es_next_batch_id = nb, es_sealed = False, es_ignored_tail_bytes = tail, es_records = rs\<rparr>, f)"
  shows "handle_ok crc hash cfg eid (snd (recover_handle crc hash cfg IoOk eid h))"
    and "extent_contents (snd (recover_handle crc hash cfg IoOk eid h)) = map (record_entry f) rs"
  using p max im nb by (simp_all add: recover_handle_def rec handle_ok_def extent_contents_def)

lemma recover_whole:
  assumes ok: "handle_ok crc hash cfg eid h"
  shows "handle_ok crc hash cfg eid (snd (recover_handle crc hash cfg IoOk eid h)) \<and>
    extent_contents (snd (recover_handle crc hash cfg IoOk eid h)) = extent_contents h \<and>
    es_sealed (eh_state (snd (recover_handle crc hash cfg IoOk eid h))) = es_sealed (eh_state h)"
proof (cases "es_sealed (eh_state h)")
  case True
  note okD = handle_okD [OF ok]
  obtain nb where "nb < 2 ^ 64" "recover_file crc hash cfg IoOk eid (eh_file h) =
      (Inr \<lparr>es_committed_end = length (eh_file h), es_next_batch_id = nb, es_sealed = True, es_ignored_tail_bytes = 0,
            es_records = es_records (eh_state h)\<rparr>, eh_file h)"
    using recover_sealed [OF okD(1) okD(5) [OF True]] by (elim exE conjE)
  then show ?thesis using okD(1,2,5) True by (simp add: recover_handle_def handle_ok_def extent_contents_def)
next
  case False
  note okD = handle_okD [OF ok]
  obtain nb where nb: "nb < 2 ^ 64" and rec: "recover_file crc hash cfg IoOk eid (eh_file h) =
      (Inr \<lparr>es_committed_end = length (eh_file h), es_next_batch_id = nb, es_sealed = False, es_ignored_tail_bytes = 0,
            es_records = es_records (eh_state h)\<rparr>, eh_file h)"
    using recover_image [OF okD(1) okD(6) [OF False]] by (elim exE conjE)
  from nb rec show ?thesis using okD(1,2,6) False by (simp add: recover_handle_def handle_ok_def extent_contents_def)
qed

lemma completed_append_ok:
  assumes ok: "handle_ok crc hash cfg eid h" and app: "completed_append crc hash cfg eid plans h = Some h'"
  shows "handle_ok crc hash cfg eid h' \<and> extent_contents h' = extent_contents h @ map plan_entry plans"
proof -
  have req: "request_ok cfg plans" using app by (auto simp: completed_append_def split: if_splits)
  show ?thesis
  proof (cases rule: append_handle_effect [OF ok req, of MediaOk])
    case (2 written locs)
    then have "snd (after_append eid h written locs MediaOk) = h'"
      using app req by (simp add: completed_append_def after_append_def)
    then show ?thesis
      using batch_for_image [OF ok req 2(1)] handle_okD(1-3) [OF ok] saturating_succ_bound [of _ 64] 2(1)
      by (auto simp: after_append_def handle_ok_def extent_contents_def batch_for_def)
  qed (use app req in \<open>simp add: completed_append_def\<close>)
qed

lemma interrupted_append_ok:
  assumes ok: "handle_ok crc hash cfg eid h"
  shows "handle_ok crc hash cfg eid (interrupted_append crc hash cfg eid n plans h) \<and>
    (extent_contents (interrupted_append crc hash cfg eid n plans h) = extent_contents h \<or>
     extent_contents (interrupted_append crc hash cfg eid n plans h) = extent_contents h @ map plan_entry plans)"
proof (cases "request_ok cfg plans")
  case req: True
  note okD = handle_okD [OF ok]
  show ?thesis
  proof (cases rule: append_handle_effect [OF ok req, of "MediaTorn n"])
    case 1
    then show ?thesis using recover_whole [OF ok] req by (auto simp: interrupted_append_def)
  next
    case (2 written locs)
    let ?h = "h\<lparr>eh_file := eh_file h @ take n written\<rparr>"
    have int: "interrupted_append crc hash cfg eid n plans h = snd (recover_handle crc hash cfg IoOk eid ?h)"
      using req 2(2) by (simp add: interrupted_append_def after_append_def)
    have w: "plans_fit (ec_alignment cfg) plans (es_next_batch_id (eh_state h)) (length (es_records (eh_state h)))"
        "append_batch_bytes crc hash (ec_alignment cfg) (es_next_batch_id (eh_state h)) (length (es_records (eh_state h)))
           (length (eh_file h)) plans = Inr (written, locs)"
        "length (eh_file h) + length written < 2 ^ 64"
      and im: "extent_image crc hash (ec_alignment cfg) eid (eh_file h) (es_records (eh_state h))"
      using 2(1) okD(2,6) by (auto simp: batch_for_def)
    show ?thesis
    proof (cases "n < length written")
      case True
      obtain nb tail where "nb < 2 ^ 64" "recover_file crc hash cfg IoOk eid (eh_file ?h) =
          (Inr \<lparr>es_committed_end = length (eh_file h), es_next_batch_id = nb, es_sealed = False, es_ignored_tail_bytes = tail,
                es_records = es_records (eh_state h)\<rparr>, eh_file h)"
        using recover_torn [OF okD(1) im w True] by auto
      from recover_handle_ok [OF okD(1,2) im this] show ?thesis by (simp add: int extent_contents_def [of h])
    next
      case False
      note im' = batch_for_image [OF ok req 2(1)]
      obtain nb where "nb < 2 ^ 64" "recover_file crc hash cfg IoOk eid (eh_file ?h) =
          (Inr \<lparr>es_committed_end = length (eh_file h @ written), es_next_batch_id = nb, es_sealed = False,
                es_ignored_tail_bytes = 0, es_records = es_records (eh_state h) @ locs\<rparr>, eh_file h @ written)"
        using recover_image [OF okD(1) im'(1)] False by auto
      from recover_handle_ok [OF okD(1,2) im'(1) this] show ?thesis using im'(2) by (simp add: int)
    qed
  qed
qed (use ok in \<open>simp add: interrupted_append_def\<close>)

interpretation extent_log: record_log "handle_ok crc hash cfg eid" extent_contents "map plan_entry"
    "completed_append crc hash cfg eid" "interrupted_append crc hash cfg eid"
  for crc hash cfg eid
proof
  fix h p h' n
  assume ok: "handle_ok crc hash cfg eid h"
  show "handle_ok crc hash cfg eid (interrupted_append crc hash cfg eid n p h)"
    "extent_contents (interrupted_append crc hash cfg eid n p h) = extent_contents h \<or>
     extent_contents (interrupted_append crc hash cfg eid n p h) = extent_contents h @ map plan_entry p"
    using interrupted_append_ok [OF ok] by simp_all
  assume app: "completed_append crc hash cfg eid p h = Some h'"
  show "handle_ok crc hash cfg eid h'" "extent_contents h' = extent_contents h @ map plan_entry p"
    using completed_append_ok [OF ok app] by simp_all
qed

section \<open>Sealing and truncation\<close>

lemma seal_header_fits:
  assumes "hash_laws hash" "101 \<le> alignment" "es_next_batch_id s < 2 ^ 64" "length (es_records s) < 2 ^ 64"
  shows "header_fits alignment (seal_header hash s) True"
  using assms
  by (simp add: header_fits_def seal_header_def extent_digest_def hash_laws_def fixed_header_bytes_def max_record_id_bytes_def)

lemma open_record_count:
  assumes ok: "handle_ok crc hash cfg eid h" and "\<not> es_sealed (eh_state h)" and "length (eh_file h) < 2 ^ 64"
  shows "length (es_records (eh_state h)) < 2 ^ 64"
proof -
  note okD = handle_okD [OF ok]
  have "length (es_records (eh_state h)) * 1 \<le> length (es_records (eh_state h)) * ec_alignment cfg"
    using store_paramsD(3) [OF okD(1)] by (intro mult_le_mono2) simp
  moreover have "length (es_records (eh_state h)) * ec_alignment cfg + ec_alignment cfg \<le> length (eh_file h)"
    using image_bounds [OF okD(1) okD(6) [OF assms(2)]] by blast
  ultimately show ?thesis using assms(3) by linarith
qed

lemma seal_handle_effect:
  assumes ok: "handle_ok crc hash cfg eid h" and open': "\<not> es_sealed (eh_state h)" and small: "length (eh_file h) < 2 ^ 64"
  obtains header where "length header = ec_alignment cfg"
    "parse_record_header crc (ec_alignment cfg) header = Inr (seal_header hash (eh_state h))"
    "\<And>n. seal_handle crc hash cfg (MediaTorn n) cuts eid h = (Inl ExtentIo, h\<lparr>eh_file := eh_file h @ take n header\<rparr>)"
    "seal_handle crc hash cfg MediaBarrierFailed cuts eid h = (Inl Durability, h\<lparr>eh_file := eh_file h @ header\<rparr>)"
    "snd (seal_handle crc hash cfg MediaOk cuts eid h) =
       \<lparr>eh_file = eh_file h @ header, eh_state = (eh_state h)\<lparr>es_committed_end := length (eh_file h) + ec_alignment cfg,
          es_next_batch_id := saturating_add 64 (es_next_batch_id (eh_state h)) 1, es_sealed := True\<rparr>\<rparr>"
proof -
  note okD = handle_okD [OF ok]
  have "header_fits (ec_alignment cfg) (seal_header hash (eh_state h)) True"
    using okD(3) open_record_count [OF ok open' small] store_paramsD(2,3) [OF okD(1)] by (intro seal_header_fits)
  then obtain header where "encode_record_header crc (ec_alignment cfg) (seal_header hash (eh_state h)) True = Inr header"
      "length header = ec_alignment cfg" "parse_record_header crc (ec_alignment cfg) header = Inr (seal_header hash (eh_state h))"
    using record_header_parses [OF store_paramsD(1) [OF okD(1)]] by metis
  then show ?thesis using open' okD(4) by (intro that) (simp_all add: seal_handle_def write_file_end Let_def)
qed

lemma sealed_handle_ok:
  assumes ok: "handle_ok crc hash cfg eid h" and open': "\<not> es_sealed (eh_state h)" and small: "length (eh_file h) < 2 ^ 64"
    and header: "length header = ec_alignment cfg" "parse_record_header crc (ec_alignment cfg) header = Inr (seal_header hash (eh_state h))"
    and s: "es_committed_end s = length (eh_file h) + ec_alignment cfg" "es_next_batch_id s < 2 ^ 64" "es_sealed s"
      "es_records s = es_records (eh_state h)"
  shows "handle_ok crc hash cfg eid \<lparr>eh_file = eh_file h @ header, eh_state = s\<rparr>"
    and "extent_contents \<lparr>eh_file = eh_file h @ header, eh_state = s\<rparr> = extent_contents h"
proof -
  note okD = handle_okD [OF ok]
  note im = okD(6) [OF open']
  have "sealed_image crc hash (ec_alignment cfg) eid (eh_file h @ header) (es_records (eh_state h))"
    unfolding sealed_image_def using im header by (intro exI [of _ "eh_file h"] exI [of _ "eh_state h"] exI [of _ header]) simp
  then show "handle_ok crc hash cfg eid \<lparr>eh_file = eh_file h @ header, eh_state = s\<rparr>"
    using okD(1,2) header(1) s by (simp add: handle_ok_def)
  have "record_entry (eh_file h @ header) l = record_entry (eh_file h) l" if "l \<in> set (es_records (eh_state h))" for l
    using image_bounds [OF okD(1) im] that by (intro record_entry_append) (simp add: list_all_iff)
  then show "extent_contents \<lparr>eh_file = eh_file h @ header, eh_state = s\<rparr> = extent_contents h"
    using s(4) by (simp add: extent_contents_def)
qed

text \<open>A recovery scan of a file whose last bytes are a torn seal record.\<close>

lemma recover_torn_seal:
  assumes p: "store_params crc hash (ec_alignment cfg) eid" and im: "extent_image crc hash (ec_alignment cfg) eid f rs"
    and g: "length g < ec_alignment cfg"
  shows "\<exists>nb < 2 ^ 64. recover_file crc hash cfg IoOk eid (f @ g) =
    (Inr \<lparr>es_committed_end = length f, es_next_batch_id = nb, es_sealed = False, es_ignored_tail_bytes = length g, es_records = rs\<rparr>, f)"
proof -
  obtain t where t: "scan_loop crc hash (ec_alignment cfg) (f @ g) (scan_init (ec_alignment cfg)) = scan_loop crc hash (ec_alignment cfg) (f @ g) t"
      "sc_offset t = length f" "sc_committed_end t = length f" "sc_records t = rs" "\<not> sc_sealed t" "sc_next_batch_id t < 2 ^ 64"
    using image_scan [OF p im, of g] by (elim exE conjE)
  have "scan_loop crc hash (ec_alignment cfg) (f @ g) t = t" using t(2) g by (intro scan_loop_end) simp
  then show ?thesis using recover_file_scan [OF p im, of g] t by (intro exI [of _ "sc_next_batch_id t"]) simp
qed

text \<open>A recovery scan of a file that ends with the whole seal record.\<close>

lemma recover_seal_record:
  assumes ok: "handle_ok crc hash cfg eid h" and open': "\<not> es_sealed (eh_state h)" and small: "length (eh_file h) < 2 ^ 64"
    and header: "length header = ec_alignment cfg" "parse_record_header crc (ec_alignment cfg) header = Inr (seal_header hash (eh_state h))"
    and file': "eh_file h1 = eh_file h @ header" and h2: "h2 = snd (recover_handle crc hash cfg IoOk eid h1)"
  shows "handle_ok crc hash cfg eid h2 \<and> extent_contents h2 = extent_contents h \<and> es_sealed (eh_state h2)"
proof -
  note okD = handle_okD [OF ok]
  define s where "s = (eh_state h)\<lparr>es_committed_end := length (eh_file h) + ec_alignment cfg, es_sealed := True\<rparr>"
  have ok': "handle_ok crc hash cfg eid \<lparr>eh_file = eh_file h @ header, eh_state = s\<rparr>"
    and same: "extent_contents \<lparr>eh_file = eh_file h @ header, eh_state = s\<rparr> = extent_contents h"
    using sealed_handle_ok [OF ok open' small header, of s] okD(3) by (simp_all add: s_def)
  have "es_sealed s" by (simp add: s_def)
  then have "sealed_image crc hash (ec_alignment cfg) eid (eh_file h @ header) (es_records s)"
    using handle_okD(5) [OF ok'] by simp
  then obtain r where "recover_file crc hash cfg IoOk eid (eh_file h @ header) = (Inr r, eh_file h @ header)"
    using recover_sealed [OF okD(1)] by meson
  then have "h2 = snd (recover_handle crc hash cfg IoOk eid \<lparr>eh_file = eh_file h @ header, eh_state = s\<rparr>)"
    using file' h2 by (simp add: recover_handle_def split: prod.split)
  then show ?thesis using recover_whole [OF ok'] same \<open>es_sealed s\<close> by simp
qed


text \<open>
  C21. Truncation to a batch boundary keeps exactly the records before it: a truncation that is
  accepted leaves a consistent extent whose log is the first \<open>keep\<close> records, and one that would
  split a batch, go past the end or touch a sealed extent is refused and changes nothing.
\<close>

theorem truncate_keeps_prefix:
  fixes keep :: nat
  assumes ok: "handle_ok crc hash cfg eid h"
  defines "rs \<equiv> es_records (eh_state h)"
  shows "case truncate_handle hash cfg IoOk eid keep h of
      (Inr inspection, h') \<Rightarrow> keep \<le> length rs \<and> handle_ok crc hash cfg eid h' \<and>
        extent_contents h' = take keep (extent_contents h) \<and> ei_records inspection = map rl_inspection (take keep rs)
    | (Inl e, h') \<Rightarrow> h' = h \<and> (es_sealed (eh_state h) \<or> keep > length rs \<or>
        rl_batch_end (rs ! (keep - 1)) = rl_batch_end (rs ! keep))"
proof (cases "es_sealed (eh_state h) \<or> keep > length rs \<or>
    keep > 0 \<and> keep < length rs \<and> rl_batch_end (rs ! (keep - 1)) = rl_batch_end (rs ! keep)")
  case True
  then show ?thesis by (auto simp: truncate_handle_def rs_def Let_def)
next
  case False
  define stop where "stop = (if keep = 0 then ec_alignment cfg else rl_batch_end (rs ! (keep - 1)))"
  note okD = handle_okD [OF ok, folded rs_def]
  have open': "\<not> es_sealed (eh_state h)" using False by simp
  note im = okD(6) [OF open']
  have cut: "stop \<le> length (eh_file h)" "extent_image crc hash (ec_alignment cfg) eid (take stop (eh_file h)) (take keep rs)"
    using image_truncate [OF okD(1) im _ _ stop_def] False by auto
  have "record_entry (take stop (eh_file h)) l = record_entry (eh_file h) l" if "l \<in> set (take keep rs)" for l
    using image_bounds [OF okD(1) cut(2)] that record_entry_append [of "take stop (eh_file h)" l "drop stop (eh_file h)"]
    by (simp add: list_all_iff)
  then have "map (record_entry (take stop (eh_file h))) (take keep rs) = take keep (extent_contents h)"
    by (simp add: extent_contents_def rs_def take_map)
  moreover define s where "s = (eh_state h)\<lparr>es_records := take keep rs, es_committed_end := stop, es_ignored_tail_bytes := 0\<rparr>"
  moreover have "truncate_handle hash cfg IoOk eid keep h =
      (Inr (inspection_from_state hash eid s), \<lparr>eh_file = take stop (eh_file h), eh_state = s\<rparr>)"
    unfolding truncate_handle_def Let_def s_def stop_def rs_def using False [unfolded rs_def]
    by (subst if_not_P, blast, subst if_not_P, blast) simp
  ultimately show ?thesis
    using False cut okD(1-3) open' by (simp add: handle_ok_def extent_contents_def [of "\<lparr>eh_file = _, eh_state = _\<rparr>"] inspection_from_state_def)
qed

section \<open>Reading\<close>

text \<open>The bytes of record \<open>index\<close>, and any range of them.\<close>

lemma handle_within:
  assumes ok: "handle_ok crc hash cfg eid h"
  shows "list_all (within (length (eh_file h))) (es_records (eh_state h))"
proof (cases "es_sealed (eh_state h)")
  case True
  obtain f s header where h: "eh_file h = f @ header" "extent_image crc hash (ec_alignment cfg) eid f (es_records (eh_state h))"
    using handle_okD(5) [OF ok True] by (auto simp: sealed_image_def)
  show ?thesis using image_bounds [OF handle_okD(1) [OF ok] h(2)] h(1) by (auto simp: list_all_iff within_def)
next
  case False
  show ?thesis using image_bounds [OF handle_okD(1) [OF ok] handle_okD(6) [OF ok False]] by (auto simp: list_all_iff)
qed

lemma slice_slice: "i + n \<le> m \<Longrightarrow> slice i n (slice j m xs) = slice (j + i) n xs"
  by (simp add: slice_def drop_take add.commute)

lemma read_handle_contents:
  assumes ok: "handle_ok crc hash cfg eid h" and i: "index < length (es_records (eh_state h))"
    and r: "offset + len \<le> length (snd (extent_contents h ! index))"
  shows "\<exists>b. read_handle eid index offset len h = Inr b \<and> ob_bytes b = slice offset len (snd (extent_contents h ! index))"
proof -
  define l where "l = rl_inspection (es_records (eh_state h) ! index)"
  have w: "ri_payload_offset l + ri_encoded_len l \<le> length (eh_file h)"
    using handle_within [OF ok] i by (simp add: list_all_length within_def l_def)
  have e: "snd (extent_contents h ! index) = slice (ri_payload_offset l) (ri_encoded_len l) (eh_file h)"
    using i by (simp add: extent_contents_def record_entry_def l_def Let_def)
  then have r': "offset + len \<le> ri_encoded_len l" using r w by simp
  then have "saturating_add 64 offset len \<le> ri_encoded_len l" by (simp add: saturating_add_def)
  moreover have "ri_payload_offset l + offset + len \<le> length (eh_file h)" using w r' by simp
  ultimately show ?thesis
    using i r' by (simp add: read_handle_def ob_new_def e slice_slice not_less Let_def flip: l_def)
qed

lemma planned_receipts:
  "plan_records crc hash alignment batch index cursor plans = Inr ps \<Longrightarrow>
     map (\<lambda>p. (ri_record_index (rl_inspection (pr_location p)), ri_encoded_len (rl_inspection (pr_location p)))) ps =
     zip [index..<index + length plans] (map (\<lambda>p. bc_encoded_len (ap_payload p)) plans)"
proof (induction plans arbitrary: index cursor ps)
  case (Cons plan plans)
  have "[index..<index + length (plan # plans)] = index # [index + 1..<index + 1 + length plans]"
    by (subst upt_conv_Cons) simp_all
  then show ?case
    using Cons.prems Cons.IH [of "index + 1"] by (auto simp: planned_location_def Let_def split: sum.splits)
qed simp

lemma read_vectored_bytes:
  "list_all2 (\<lambda>(eid, i, offset, len) bs. \<exists>b. xs_read_range eid i offset len st = Inr b \<and> ob_bytes b = bs) reqs bss \<Longrightarrow>
     \<exists>bufs. xs_read_vectored reqs st = Inr bufs \<and> map ob_bytes bufs = bss"
  by (induction rule: list_all2_induct) auto

text \<open>The handle after an append that returned receipts.\<close>

lemma append_internal_handle:
  assumes "find_handle eid st = Inr h" and "list_all (\<lambda>p. ap_extent_id p = eid) plans"
    and "append_internal crc hash cfg media plans st = (Inr receipts, st')"
  shows "plans \<noteq> [] \<and> (\<exists>h'. append_handle crc hash cfg media eid plans h = (Inr receipts, h') \<and> find_handle eid st' = Inr h')"
  using assms by (cases plans) (auto simp: append_internal_def find_handle_def put_handle_def Let_def split: if_splits option.splits prod.splits)

text \<open>
  C13. What was appended can be read back: after a successful batch on a consistent extent, one
  vectored read of the returned receipts gives the payloads of the plans, byte for byte and in order.
\<close>

theorem append_batch_then_read:
  assumes found: "find_handle eid st = Inr h" and ok: "handle_ok crc hash cfg eid h"
    and eids: "list_all (\<lambda>p. ap_extent_id p = eid) plans" and fits: "list_all (plan_fits (ec_alignment cfg)) plans"
    and app: "xs_append_batch crc hash cfg MediaOk plans st = (Inr receipts, st')"
  shows "\<exists>bufs. xs_read_vectored (map (\<lambda>r. (rc_extent_id r, rc_record_index r, 0, rc_encoded_len r)) receipts) st' = Inr bufs \<and>
    map ob_bytes bufs = map (\<lambda>p. bc_bytes (ap_payload p)) plans"
proof -
  obtain h' where h': "append_handle crc hash cfg MediaOk eid plans h = (Inr receipts, h')" "find_handle eid st' = Inr h'" "plans \<noteq> []"
    using append_internal_handle [OF found eids app [unfolded xs_append_batch_def]] by blast
  then have req: "request_ok cfg plans" using fits by (simp add: request_ok_def)
  show ?thesis
  proof (cases rule: append_handle_effect [OF ok req, of MediaOk])
    case (2 written locs)
    let ?n = "length (es_records (eh_state h))"
    obtain ps where ps: "plan_records crc hash (ec_alignment cfg) (es_next_batch_id (eh_state h)) ?n (length (eh_file h)) plans = Inr ps"
        "locs = map (\<lambda>p. (pr_location p)\<lparr>rl_batch_end := length (eh_file h) + length written\<rparr>) ps"
      using 2(1) append_batch_bytesE [OF store_paramsD(1-3) [OF handle_okD(1) [OF ok]]] by (metis batch_for_def)
    have receipts: "receipts = map (receipt_of eid) locs" and locs: "es_records (eh_state h') = es_records (eh_state h) @ locs"
      using 2(2) h'(1) by (auto simp: after_append_def)
    have ok': "handle_ok crc hash cfg eid h'" and cont: "extent_contents h' = extent_contents h @ map plan_entry plans"
      using completed_append_ok [OF ok, of plans h'] h'(1) req by (auto simp: completed_append_def)
    have len: "length ps = length plans" "length locs = length plans" using plan_records_length [OF ps(1)] ps(2) by auto
    have "xs_read_range (rc_extent_id (receipts ! i)) (rc_record_index (receipts ! i)) 0 (rc_encoded_len (receipts ! i)) st' =
        read_handle eid (?n + i) 0 (bc_encoded_len (ap_payload (plans ! i))) h'" if "i < length plans" for i
      using that len arg_cong [OF planned_receipts [OF ps(1)], of "\<lambda>xs. xs ! i"] h'(2)
      by (simp add: receipts ps(2) receipt_of_def xs_read_range_def Let_def)
    moreover have "\<exists>b. read_handle eid (?n + i) 0 (bc_encoded_len (ap_payload (plans ! i))) h' = Inr b \<and>
        ob_bytes b = bc_bytes (ap_payload (plans ! i))" if "i < length plans" for i
    proof -
      have "length (bc_bytes (ap_payload (plans ! i))) = bc_encoded_len (ap_payload (plans ! i))"
        using fits that by (auto simp: list_all_length plan_fits_def chain_ok_def)
      moreover have "snd (extent_contents h' ! (?n + i)) = bc_bytes (ap_payload (plans ! i))"
        using that by (simp add: cont extent_contents_def [of h] nth_append plan_entry_def)
      ultimately show ?thesis
        using read_handle_contents [OF ok', of "?n + i" 0 "bc_encoded_len (ap_payload (plans ! i))"] that len locs
        by (metis add.left_neutral length_append nat_add_left_cancel_less order_refl slice_all)
    qed
    ultimately show ?thesis
      using len by (intro read_vectored_bytes) (simp add: list_all2_conv_all_nth receipts)
  qed (use h'(1) in simp)
qed

section \<open>Recovery of arbitrary bytes\<close>

text \<open>The recovery loop with a budget of steps; \<open>None\<close> when it is not enough.\<close>

fun scan_steps :: "nat \<Rightarrow> crc_function \<Rightarrow> hash_function \<Rightarrow> nat \<Rightarrow> bytes \<Rightarrow> scan_state \<Rightarrow> scan_state option" where
  "scan_steps n crc hash alignment bs s =
     (if 0 < alignment \<and> sc_offset s + alignment \<le> length bs
      then (case n of
              0 \<Rightarrow> None
            | Suc m \<Rightarrow> (case scan_step crc hash alignment bs s of
                ScanStop t \<Rightarrow> Some t
              | ScanMore t \<Rightarrow> scan_steps m crc hash alignment bs t))
      else Some s)"

declare scan_steps.simps [simp del]

lemma scan_steps_loop:
  "length bs < sc_offset s + (n + 1) * alignment \<Longrightarrow> scan_steps n crc hash alignment bs s = Some (scan_loop crc hash alignment bs s)"
proof (induction n arbitrary: s)
  case 0
  then show ?case by (subst scan_steps.simps, subst scan_loop.simps) simp
next
  case (Suc n)
  have "length bs < sc_offset t + (n + 1) * alignment" if "scan_step crc hash alignment bs s = ScanMore t" for t
    using scan_step_progress [OF that] Suc.prems by simp
  then show ?case using Suc.IH by (subst scan_steps.simps, subst scan_loop.simps) (simp split: scan_next.split)
qed

text \<open>
  C36. The recovery scan stops on every input: on a file of any bytes it reads at most one header
  per block of the file, whatever lengths and batch numbers the headers claim.
\<close>

theorem recovery_scan_stops:
  assumes "0 < alignment"
  shows "scan_steps (length bs div alignment) crc hash alignment bs (scan_init alignment) =
    Some (scan_loop crc hash alignment bs (scan_init alignment))"
proof (rule scan_steps_loop)
  have "length bs < length bs div alignment * alignment + alignment"
    using div_mult_mod_eq [of "length bs" alignment] mod_less_divisor [OF assms, of "length bs"] by linarith
  then show "length bs < sc_offset (scan_init alignment) + (length bs div alignment + 1) * alignment"
    by (simp add: scan_init_def)
qed

text \<open>A record inside the first \<open>n\<close> bytes whose payload has the indexed checksum.\<close>

definition record_sound :: "crc_function \<Rightarrow> bytes \<Rightarrow> nat \<Rightarrow> record_location \<Rightarrow> bool" where
  "record_sound crc bs n l \<longleftrightarrow> within n l \<and>
     ri_checksum (rl_inspection l) = Crc32c (crc32c crc (snd (record_entry bs l)))"

definition scan_sound :: "crc_function \<Rightarrow> nat \<Rightarrow> bytes \<Rightarrow> scan_state \<Rightarrow> bool" where
  "scan_sound crc alignment bs s \<longleftrightarrow> alignment \<le> sc_committed_end s \<and> sc_committed_end s \<le> sc_offset s \<and> sc_offset s \<le> length bs \<and>
     list_all (record_sound crc bs (sc_committed_end s)) (sc_records s) \<and>
     (\<forall>b ls. bt_get (sc_pending s) b = Some ls \<longrightarrow> list_all (record_sound crc bs (sc_offset s)) ls)"

lemma scan_soundD:
  assumes "scan_sound crc alignment bs s"
  shows "alignment \<le> sc_committed_end s" "sc_committed_end s \<le> sc_offset s" "sc_offset s \<le> length bs"
    "list_all (record_sound crc bs (sc_committed_end s)) (sc_records s)"
    "bt_get (sc_pending s) b = Some ls \<Longrightarrow> list_all (record_sound crc bs (sc_offset s)) ls"
  using assms by (simp_all add: scan_sound_def)

lemma record_sound_mono: "record_sound crc bs n l \<Longrightarrow> n \<le> m \<Longrightarrow> record_sound crc bs m l"
  and record_sound_batch_end [simp]: "record_sound crc bs n (l\<lparr>rl_batch_end := k\<rparr>) \<longleftrightarrow> record_sound crc bs n l"
  by (simp_all add: record_sound_def within_def record_entry_def)

lemma records_sound_mono: "list_all (record_sound crc bs n) ls \<Longrightarrow> n \<le> m \<Longrightarrow> list_all (record_sound crc bs m) ls"
  by (auto simp: list_all_iff intro: record_sound_mono)

fun next_state :: "scan_next \<Rightarrow> scan_state" where
  "next_state (ScanStop s) = s"
| "next_state (ScanMore s) = s"

lemma scan_data_sound:
  assumes s: "scan_sound crc alignment bs s" and small: "length bs < 2 ^ 64 - 1"
  shows "scan_sound crc alignment bs (next_state (scan_data crc alignment bs p s))"
proof (cases "rh_encoded_len p > rh_padded_len p \<or> rh_padded_len p mod alignment \<noteq> 0 \<or>
    saturating_add 64 (saturating_add 64 (sc_offset s) alignment) (rh_padded_len p) > length bs \<or>
    crc32c crc (slice (sc_offset s + alignment) (rh_encoded_len p) bs) \<noteq> rh_payload_crc p")
  case True
  then show ?thesis using s by (auto simp: scan_data_def Let_def)
next
  case False
  let ?off = "sc_offset s + alignment" and ?l = "scanned_location p (sc_offset s + alignment)"
  have stop: "?off + rh_padded_len p \<le> length bs" using False small by (auto simp: saturating_add_def min_def split: if_splits)
  have new: "record_sound crc bs (?off + rh_padded_len p) ?l"
    using False by (simp add: record_sound_def within_def record_entry_def scanned_location_def)
  have pend: "list_all (record_sound crc bs (?off + rh_padded_len p)) ls" if "bt_get (sc_pending s) b = Some ls" for b ls
    by (rule records_sound_mono [OF scan_soundD(5) [OF s that]]) simp
  have "scan_data crc alignment bs p s =
      ScanMore (s\<lparr>sc_pending := bt_insert (rh_batch_id p)
          ((case bt_get (sc_pending s) (rh_batch_id p) of None \<Rightarrow> [] | Some ls \<Rightarrow> ls) @ [?l]) (sc_pending s),
        sc_offset := ?off + rh_padded_len p\<rparr>)"
    using False by (simp add: scan_data_def Let_def)
  then show ?thesis
    using scan_soundD(1-4) [OF s] stop new pend by (simp add: scan_sound_def split: option.split)
qed

lemma scan_commit_sound:
  assumes s: "scan_sound crc alignment bs s" and room: "sc_offset s + alignment \<le> length bs"
  shows "scan_sound crc alignment bs (next_state (scan_commit hash alignment p s))"
proof (cases "bt_get (sc_pending s) (rh_batch_id p)")
  case None
  then show ?thesis using s by (simp add: scan_commit_def)
next
  case (Some batch)
  let ?stop = "sc_offset s + alignment"
  have "list_all (record_sound crc bs ?stop) batch"
    by (rule records_sound_mono [OF scan_soundD(5) [OF s Some]]) simp
  moreover have "list_all (record_sound crc bs ?stop) (sc_records s)"
    using scan_soundD(2) [OF s] by (intro records_sound_mono [OF scan_soundD(4) [OF s]]) simp
  moreover have "list_all (record_sound crc bs ?stop) ls" if "bt_get (sc_pending s) b = Some ls" for b ls
    by (rule records_sound_mono [OF scan_soundD(5) [OF s that]]) simp
  ultimately show ?thesis
    using s scan_soundD(1-4) [OF s] Some room by (simp add: scan_commit_def scan_sound_def list.pred_map comp_def Let_def)
qed

lemma scan_step_sound:
  assumes s: "scan_sound crc alignment bs s" and small: "length bs < 2 ^ 64 - 1" and room: "sc_offset s + alignment \<le> length bs"
  shows "scan_sound crc alignment bs (next_state (scan_step crc hash alignment bs s))"
proof -
  have s1: "scan_sound crc alignment bs (s\<lparr>sc_next_batch_id := n\<rparr>)" for n using s by (simp add: scan_sound_def)
  have "scan_sound crc alignment bs (next_state (scan_seal hash alignment p t))"
    if "scan_sound crc alignment bs t" "sc_offset t + alignment \<le> length bs" for p t
    using that records_sound_mono [of crc bs "sc_committed_end t" _ "sc_offset t + alignment"]
    by (auto simp: scan_seal_def scan_sound_def Let_def)
  then show ?thesis
    using s s1 room scan_data_sound [OF s1 small] scan_commit_sound [OF s1]
    by (simp add: scan_step_def Let_def split: sum.split)
qed

lemma scan_loop_sound:
  assumes "length bs < 2 ^ 64 - 1"
  shows "scan_sound crc alignment bs s \<Longrightarrow> scan_sound crc alignment bs (scan_loop crc hash alignment bs s)"
proof (induction "length bs - sc_offset s" arbitrary: s rule: less_induct)
  case less
  show ?case
  proof (cases "0 < alignment \<and> sc_offset s + alignment \<le> length bs")
    case True
    note next_ok = scan_step_sound [OF less.prems assms conjunct2 [OF True], of hash]
    show ?thesis
    proof (cases "scan_step crc hash alignment bs s")
      case (ScanStop t)
      then show ?thesis using True next_ok scan_loop_stop [OF ScanStop] by simp
    next
      case (ScanMore t)
      have "length bs - sc_offset t < length bs - sc_offset s" using True scan_step_progress [OF ScanMore] by linarith
      then show ?thesis using True next_ok ScanMore scan_loop_more [OF ScanMore] less.hyps [of t] by simp
    qed
  qed (use less.prems in \<open>subst scan_loop.simps, auto\<close>)
qed

text \<open>
  C12. Recovery is sound on arbitrary bytes: whatever a crash or a fault left in the file, a
  recovery that succeeds keeps a prefix of the file, and every record it indexes lies inside that
  prefix and has a payload that matches the checksum of its index entry.
\<close>

theorem recovery_indexes_only_sound_records:
  assumes "recover_file crc hash cfg io eid bs = (Inr s, bs')" and "length bs < 2 ^ 64 - 1"
  shows "bs' = take (es_committed_end s) bs \<and> ec_alignment cfg \<le> es_committed_end s \<and> es_committed_end s \<le> length bs \<and>
    list_all (record_sound crc bs' (es_committed_end s)) (es_records s)"
proof -
  let ?t = "scan_loop crc hash (ec_alignment cfg) bs (scan_init (ec_alignment cfg))"
  have s: "es_committed_end s = sc_committed_end ?t" "es_records s = sc_records ?t" "bs' = take (sc_committed_end ?t) bs"
      and al: "ec_alignment cfg \<le> length bs"
    using assms(1) by (auto simp: recover_file_def Let_def split: if_splits sum.splits io_outcome.splits)
  have "scan_sound crc (ec_alignment cfg) bs (scan_init (ec_alignment cfg))"
    using al by (simp add: scan_sound_def scan_init_def)
  then have t: "scan_sound crc (ec_alignment cfg) bs ?t" by (rule scan_loop_sound [OF assms(2)])
  have "record_entry (take n bs) l = record_entry bs l" if "within n l" for n l
    using that by (simp add: record_entry_def within_def slice_def drop_take Let_def min_absorb1)
  then have "record_sound crc (take n bs) n l" if "record_sound crc bs n l" for n l
    using that by (simp add: record_sound_def)
  then show ?thesis using t s by (auto simp: scan_sound_def list_all_iff)
qed

section \<open>The store as a log\<close>

lemma new_handle_ok:
  assumes p: "store_params crc hash (ec_alignment cfg) eid" and "ec_maximum_extent_bytes cfg < 2 ^ 64"
  shows "handle_ok crc hash cfg eid (new_handle crc cfg eid)" and "extent_contents (new_handle crc cfg eid) = []"
  using assms store_paramsD [OF p] extent_header_valid(2) [of crc "ec_alignment cfg" eid] extent_image.empty
  by (simp_all add: handle_ok_def new_handle_def extent_contents_def)

text \<open>
  C2. The extent store refines a log of whole appends. Take a new extent and any sequence of
  batches, each completed or interrupted by a crash after any number of bytes and then recovered
  from the file alone: the records are those of every completed batch and of some of the
  interrupted ones, whole and in order, and a further crash and recovery changes nothing.
\<close>

theorem extent_refines_log:
  assumes "store_params crc hash (ec_alignment cfg) eid" and "ec_maximum_extent_bytes cfg < 2 ^ 64"
    and "run_log (completed_append crc hash cfg eid) (interrupted_append crc hash cfg eid) ops (new_handle crc cfg eid) = Some h"
  shows "extent_contents h \<in> possible_logs (map plan_entry) ops \<and>
    extent_contents (snd (recover_handle crc hash cfg IoOk eid h)) = extent_contents h"
proof -
  note new = new_handle_ok [OF assms(1,2)]
  have "handle_ok crc hash cfg eid h \<and> (\<exists>log \<in> possible_logs (map plan_entry) ops. extent_contents h = [] @ log)"
    using extent_log.run_contents [OF new(1) assms(3)] new(2) by simp
  then show ?thesis using recover_whole by auto
qed

section \<open>Appends that fit succeed\<close>

text \<open>The bytes a batch takes, and the checksums its plans declare.\<close>

definition batch_bytes :: "nat \<Rightarrow> append_plan list \<Rightarrow> nat" where
  "batch_bytes alignment plans = (\<Sum>p\<leftarrow>plans. alignment + align_up_u64 (bc_encoded_len (ap_payload p)) alignment) + alignment"

definition checksum_ok :: "crc_function \<Rightarrow> hash_function \<Rightarrow> append_plan \<Rightarrow> bool" where
  "checksum_ok crc hash plan \<longleftrightarrow> (case ap_checksum plan of
       None \<Rightarrow> True
     | Some (Crc32c c) \<Rightarrow> c = crc32c crc (bc_bytes (ap_payload plan))
     | Some (Blake3 d) \<Rightarrow> d = hash (bc_bytes (ap_payload plan)))"

lemma declared_checksum_ok:
  assumes "crc_laws crc" "checksum_ok crc hash plan"
  shows "validate_declared_checksum hash plan (chain_crc32c crc (ap_payload plan)) = Inr ()"
  using assms(2) chain_crc32c_bytes(1) [OF assms(1)]
  by (auto simp: checksum_ok_def validate_declared_checksum_def bc_bytes_def split: option.splits checksum.splits)

lemma plan_records_total:
  assumes laws: "crc_laws crc"
  shows "list_all (plan_fits alignment) plans \<Longrightarrow> list_all (checksum_ok crc hash) plans \<Longrightarrow>
    \<exists>ps. plan_records crc hash alignment batch index cursor plans = Inr ps \<and>
      body_end alignment ps cursor + alignment = cursor + batch_bytes alignment plans"
proof (induction plans arbitrary: index cursor)
  case (Cons plan plans)
  let ?padded = "align_up_u64 (bc_encoded_len (ap_payload plan)) alignment"
  have "length (ap_record_id plan) \<le> alignment - fixed_header_bytes" using Cons.prems(1) by (auto simp: plan_fits_def)
  then obtain header where "encode_record_header crc alignment
      (data_header batch index plan ?padded (chain_crc32c crc (ap_payload plan))) False = Inr header"
    by (simp add: encode_record_header_def data_header_def)
  moreover obtain ps where "plan_records crc hash alignment batch (index + 1) (cursor + alignment + ?padded) plans = Inr ps"
      "body_end alignment ps (cursor + alignment + ?padded) + alignment = cursor + alignment + ?padded + batch_bytes alignment plans"
    using Cons.IH Cons.prems by force
  ultimately show ?case
    using declared_checksum_ok [OF laws, of hash plan] Cons.prems(2) by (simp add: batch_bytes_def Let_def)
qed (simp add: batch_bytes_def)

lemma append_handle_succeeds:
  assumes ok: "handle_ok crc hash cfg eid h" and open': "\<not> es_sealed (eh_state h)" and req: "request_ok cfg plans"
    and sums: "list_all (checksum_ok crc hash) plans"
    and room: "length (eh_file h) + batch_bytes (ec_alignment cfg) plans \<le> ec_maximum_extent_bytes cfg"
  obtains receipts h' where "append_handle crc hash cfg MediaOk eid plans h = (Inr receipts, h')" "length receipts = length plans"
    "completed_append crc hash cfg eid plans h = Some h'" "length (eh_file h') = length (eh_file h) + batch_bytes (ec_alignment cfg) plans"
proof -
  let ?s = "eh_state h" and ?al = "ec_alignment cfg"
  note okD = handle_okD [OF ok]
  obtain ps where ps: "plan_records crc hash ?al (es_next_batch_id ?s) (length (es_records ?s)) (es_committed_end ?s) plans = Inr ps"
      "body_end ?al ps (es_committed_end ?s) + ?al = es_committed_end ?s + batch_bytes ?al plans"
    using plan_records_total [OF store_paramsD(1) [OF okD(1)] _ sums] req [unfolded request_ok_def] by blast
  have len: "length ps = length plans" by (rule plan_records_length [OF ps(1)])
  obtain commit where "encode_record_header crc ?al (commit_header hash (es_next_batch_id ?s) ps) True = Inr commit"
    using store_paramsD(3) [OF okD(1)] by (simp add: encode_record_header_def commit_header_def fixed_header_bytes_def)
  then obtain written where app: "append_batch_bytes crc hash ?al (es_next_batch_id ?s) (length (es_records ?s)) (es_committed_end ?s) plans =
      Inr (written, map (\<lambda>p. (pr_location p)\<lparr>rl_batch_end := es_committed_end ?s + batch_bytes ?al plans\<rparr>) ps)"
    using ps by (simp add: append_batch_bytes_def body_end_def Let_def)
  have "ps \<noteq> []" using len req by (auto simp: request_ok_def)
  then have "\<exists>receipts h'. append_handle crc hash cfg MediaOk eid plans h = (Inr receipts, h') \<and> length receipts = length plans \<and>
      es_committed_end (eh_state h') = length (eh_file h) + batch_bytes ?al plans"
    using app room okD(4) open' len by (cases ps) (simp_all add: append_handle_def Let_def)
  then obtain receipts h' where h': "append_handle crc hash cfg MediaOk eid plans h = (Inr receipts, h')" "length receipts = length plans"
      "es_committed_end (eh_state h') = length (eh_file h) + batch_bytes ?al plans"
    by blast
  then have c: "completed_append crc hash cfg eid plans h = Some h'" using req by (simp add: completed_append_def)
  show ?thesis using that h' c handle_okD(4) [of crc hash cfg eid h'] completed_append_ok [OF ok c] by simp
qed

text \<open>
  C35. An append that fits succeeds: on a consistent open extent, a batch of well-formed plans
  with correct declared checksums that stays within the batch limits and the capacity of the
  extent is accepted when the media do not fail, and returns one receipt for each plan.
\<close>

theorem append_that_fits_succeeds:
  assumes found: "find_handle eid st = Inr h" and ok: "handle_ok crc hash cfg eid h" and open': "\<not> es_sealed (eh_state h)"
    and eids: "list_all (\<lambda>p. ap_extent_id p = eid) plans" and req: "request_ok cfg plans"
    and sums: "list_all (checksum_ok crc hash) plans"
    and limits: "length plans \<le> ec_maximum_batch_records cfg" "plans_bytes plans \<le> ec_maximum_batch_bytes cfg"
    and room: "length (eh_file h) + batch_bytes (ec_alignment cfg) plans \<le> ec_maximum_extent_bytes cfg"
  shows "\<exists>receipts st'. xs_append_batch crc hash cfg MediaOk plans st = (Inr receipts, st') \<and> length receipts = length plans"
proof -
  obtain receipts h' where "append_handle crc hash cfg MediaOk eid plans h = (Inr receipts, h')" "length receipts = length plans"
    by (rule append_handle_succeeds [OF ok open' req sums room])
  moreover have "\<not> list_ex (\<lambda>p. ap_extent_id p \<noteq> ap_extent_id (hd plans)) plans" "ap_extent_id (hd plans) = eid"
    using eids req by (auto simp: list_all_iff list_ex_iff request_ok_def)
  ultimately show ?thesis
    using found limits req by (cases plans) (auto simp: xs_append_batch_def append_internal_def request_ok_def Let_def)
qed

section \<open>A sample extent\<close>

definition zero_hash :: hash_function where
  "zero_hash bs = replicate 32 0"

definition sample_extent_config :: extent_config where
  "sample_extent_config = \<lparr>ec_alignment = 128, ec_maximum_extent_bytes = 4096, ec_maximum_batch_bytes = 1024,
     ec_maximum_batch_records = 8, ec_group_commit_max_requests = 4\<rparr>"

definition sample_extent_id :: extent_id where
  "sample_extent_id = replicate 16 5"

definition sample_plan :: "8 word \<Rightarrow> bytes \<Rightarrow> append_plan" where
  "sample_plan r bs = \<lparr>ap_extent_id = sample_extent_id, ap_record_id = [r],
     ap_payload = \<lparr>bc_segments = [ob_new bs], bc_encoded_len = length bs, bc_logical_len = length bs\<rparr>,
     ap_logical_len = length bs, ap_checksum = None, ap_metadata = record_metadata_default\<rparr>"

definition sample_handle :: extent_handle where
  "sample_handle = new_handle sum_crc sample_extent_config sample_extent_id"

lemma sample_params: "store_params sum_crc zero_hash (ec_alignment sample_extent_config) sample_extent_id"
  by (simp add: store_params_def sum_crc_laws hash_laws_def zero_hash_def sample_extent_config_def sample_extent_id_def)

lemma sample_ok: "handle_ok sum_crc zero_hash sample_extent_config sample_extent_id sample_handle"
  unfolding sample_handle_def by (rule new_handle_ok [OF sample_params]) (simp add: sample_extent_config_def)


lemma sample_plan_ok:
  assumes "length bs \<le> 1024"
  shows "plan_fits (ec_alignment sample_extent_config) (sample_plan r bs)" and "checksum_ok crc hash (sample_plan r bs)"
    and "bc_bytes (ap_payload (sample_plan r bs)) = bs" and "ap_extent_id (sample_plan r bs) = sample_extent_id"
    and "plan_entry (sample_plan r bs) = ([r], bs)"
  using assms
  by (simp_all add: plan_fits_def checksum_ok_def sample_plan_def sample_extent_config_def ob_new_def bc_bytes_def chain_ok_def
      fixed_header_bytes_def max_record_id_bytes_def plan_entry_def)

definition sample_plans :: "append_plan list" where
  "sample_plans = [sample_plan 1 [7, 8], sample_plan 2 []]"

lemma sample_plans_ok:
  "request_ok sample_extent_config sample_plans" "list_all (checksum_ok crc hash) sample_plans"
  "list_all (plan_fits (ec_alignment sample_extent_config)) sample_plans"
  "list_all (\<lambda>p. ap_extent_id p = sample_extent_id) sample_plans" "map plan_entry sample_plans = [([1], [7, 8]), ([2], [])]"
  "map (\<lambda>p. bc_bytes (ap_payload p)) sample_plans = [[7, 8], []]"
  by (simp_all add: sample_plans_def request_ok_def sample_plan_ok)

lemma sample_batch_bytes: "batch_bytes (ec_alignment sample_extent_config) sample_plans = 512"
  by (simp add: batch_bytes_def sample_plans_def sample_plan_def sample_extent_config_def align_up_u64_def int_ops saturating_mul_def)

lemma sample_capacity: "128 + 512 \<le> ec_maximum_extent_bytes sample_extent_config"
  by (simp add: sample_extent_config_def)

lemma sample_handle_open:
  "\<not> es_sealed (eh_state sample_handle)" "length (eh_file sample_handle) = 128" "extent_contents sample_handle = []"
  using handle_okD(4) [OF sample_ok]
  by (simp_all add: sample_handle_def new_handle_def sample_extent_config_def extent_contents_def)

lemma sample_append:
  obtains h' where "completed_append sum_crc zero_hash sample_extent_config sample_extent_id sample_plans sample_handle = Some h'"
    "handle_ok sum_crc zero_hash sample_extent_config sample_extent_id h'" "length (eh_file h') = 640" "\<not> es_sealed (eh_state h')"
proof -
  obtain h' where h': "completed_append sum_crc zero_hash sample_extent_config sample_extent_id sample_plans sample_handle = Some h'"
      "length (eh_file h') = 640"
    using append_handle_succeeds [OF sample_ok sample_handle_open(1) sample_plans_ok(1,2)] sample_capacity
    by (auto simp: sample_batch_bytes sample_handle_open(2))
  moreover have "\<not> es_sealed (eh_state h')"
    using h'(1) sample_handle_open(1) by (auto simp: completed_append_def append_handle_def Let_def split: if_splits sum.splits prod.splits)
  ultimately show ?thesis using that completed_append_ok [OF sample_ok] by blast
qed

definition sample_store :: extent_store where
  "sample_store = \<lparr>xs_extents = [(sample_extent_id, sample_handle)], xs_next_id = 2, xs_next_reservation = 1, xs_reservations = []\<rparr>"

lemma sample_store_handle: "find_handle sample_extent_id sample_store = Inr sample_handle"
  by (simp add: find_handle_def sample_store_def)

lemma append_that_fits_succeeds_witness:
  "\<exists>receipts st'. xs_append_batch sum_crc zero_hash sample_extent_config MediaOk sample_plans sample_store = (Inr receipts, st') \<and>
     length receipts = length sample_plans"
  by (rule append_that_fits_succeeds [OF sample_store_handle sample_ok sample_handle_open(1) sample_plans_ok(4,1,2)])
     (simp_all add: sample_batch_bytes sample_handle_open sample_capacity,
      simp_all add: sample_plans_def sample_plan_def sample_extent_config_def plans_bytes_def)

lemma append_batch_then_read_witness:
  "\<exists>receipts st' bufs. xs_append_batch sum_crc zero_hash sample_extent_config MediaOk sample_plans sample_store = (Inr receipts, st') \<and>
     xs_read_vectored (map (\<lambda>r. (rc_extent_id r, rc_record_index r, 0, rc_encoded_len r)) receipts) st' = Inr bufs \<and>
     map ob_bytes bufs = [[7, 8], []]"
proof -
  obtain h' where "completed_append sum_crc zero_hash sample_extent_config sample_extent_id sample_plans sample_handle = Some h'"
    by (rule sample_append)
  then obtain receipts where "append_handle sum_crc zero_hash sample_extent_config MediaOk sample_extent_id sample_plans sample_handle = (Inr receipts, h')"
    by (auto simp: completed_append_def split: if_splits prod.splits sum.splits)
  then have app: "xs_append_batch sum_crc zero_hash sample_extent_config MediaOk sample_plans sample_store =
      (Inr receipts, put_handle sample_extent_id h' sample_store)"
    using sample_store_handle
    by (simp add: xs_append_batch_def append_internal_def sample_plans_def sample_plan_def plans_bytes_def sample_extent_config_def)
  from append_batch_then_read [OF sample_store_handle sample_ok sample_plans_ok(4,3) app] app sample_plans_ok(6)
  show ?thesis by auto
qed

lemma extent_refines_log_witness:
  "\<exists>h. run_log (completed_append sum_crc zero_hash sample_extent_config sample_extent_id)
      (interrupted_append sum_crc zero_hash sample_extent_config sample_extent_id)
      [(sample_plans, None), (sample_plans, Some 200)] (new_handle sum_crc sample_extent_config sample_extent_id) = Some h \<and>
    extent_contents h \<in> {[([1], [7, 8]), ([2], [])], [([1], [7, 8]), ([2], []), ([1], [7, 8]), ([2], [])]} \<and>
    extent_contents (snd (recover_handle sum_crc zero_hash sample_extent_config IoOk sample_extent_id h)) = extent_contents h"
proof -
  let ?ops = "[(sample_plans, None), (sample_plans, Some 200)]"
  obtain h' where "completed_append sum_crc zero_hash sample_extent_config sample_extent_id sample_plans sample_handle = Some h'"
    by (rule sample_append)
  then have run: "run_log (completed_append sum_crc zero_hash sample_extent_config sample_extent_id)
      (interrupted_append sum_crc zero_hash sample_extent_config sample_extent_id) ?ops
      (new_handle sum_crc sample_extent_config sample_extent_id) =
      Some (interrupted_append sum_crc zero_hash sample_extent_config sample_extent_id 200 sample_plans h')"
    by (simp add: sample_handle_def)
  show ?thesis
    using extent_refines_log [OF sample_params _ run] run sample_plans_ok(5)
    by (auto simp: sample_extent_config_def)
qed


lemma truncate_keeps_prefix_witness:
  "\<exists>h' inspection h2. completed_append sum_crc zero_hash sample_extent_config sample_extent_id sample_plans sample_handle = Some h' \<and>
     truncate_handle zero_hash sample_extent_config IoOk sample_extent_id 0 h' = (Inr inspection, h2) \<and>
     extent_contents h2 = [] \<and> ei_records inspection = []"
proof -
  obtain h' where h': "completed_append sum_crc zero_hash sample_extent_config sample_extent_id sample_plans sample_handle = Some h'"
      "handle_ok sum_crc zero_hash sample_extent_config sample_extent_id h'" "\<not> es_sealed (eh_state h')"
    by (rule sample_append)
  then show ?thesis
    using truncate_keeps_prefix [OF h'(2), of 0] h'(1) by (auto simp: truncate_handle_def Let_def)
qed

lemma recovery_scan_stops_witness:
  "scan_steps (length (replicate 300 (0 :: 8 word)) div 128) sum_crc zero_hash 128 (replicate 300 0) (scan_init 128) =
     Some (scan_loop sum_crc zero_hash 128 (replicate 300 0) (scan_init 128))"
  by (rule recovery_scan_stops) simp

lemma recovery_indexes_only_sound_records_witness:
  "\<exists>s bs'. recover_file sum_crc zero_hash sample_extent_config IoOk sample_extent_id (eh_file sample_handle) = (Inr s, bs') \<and>
     bs' = take (es_committed_end s) (eh_file sample_handle) \<and> list_all (record_sound sum_crc bs' (es_committed_end s)) (es_records s)"
proof -
  obtain s where "recover_file sum_crc zero_hash sample_extent_config IoOk sample_extent_id (eh_file sample_handle) = (Inr s, eh_file sample_handle)"
    using recover_image [OF sample_params handle_okD(6) [OF sample_ok sample_handle_open(1)]] by blast
  from this recovery_indexes_only_sound_records [OF this] show ?thesis using sample_handle_open(2) by auto
qed

end
