(* ===== verification/Extent_Tail.thy ===== *)
theory Extent_Tail
  imports Extent_Log
begin

text \<open>
  What an append that failed leaves in the file: the bytes stay behind the committed end, a
  later append overwrites only as many of them as it writes, and recovery scans the rest.
\<close>

section \<open>A failed append and its bytes\<close>

text \<open>
  An append that fails leaves its bytes behind the committed end, and the next append
  overwrites them without cutting the file. What is left is scanned by the next recovery.
\<close>

lemma batch_for_facts:
  assumes ok: "handle_ok crc hash cfg eid h" and req: "request_ok cfg plans" and w: "batch_for crc hash cfg plans h written locs"
  obtains l ls where "locs = l # ls" "rl_batch_end l = length (eh_file h) + length written" "\<not> es_sealed (eh_state h)"
    "append_batch_bytes crc hash (ec_alignment cfg) (es_next_batch_id (eh_state h)) (length (es_records (eh_state h)))
       (es_committed_end (eh_state h)) plans = Inr (written, locs)"
    "length (eh_file h) + length written \<le> ec_maximum_extent_bytes cfg"
proof -
  note okD = handle_okD [OF ok]
  obtain ps :: "planned_record list" where
    "locs = map (\<lambda>p. (pr_location p)\<lparr>rl_batch_end := length (eh_file h) + length written\<rparr>) ps" "length ps = length plans"
    using w append_batch_bytesE [OF store_paramsD(1-3) [OF okD(1)]] by (metis batch_for_def)
  then obtain l ls where l: "locs = l # ls" "rl_batch_end l = length (eh_file h) + length written"
    using req by (cases ps) (auto simp: request_ok_def)
  show ?thesis using that [OF l] w okD(4) by (simp add: batch_for_def)
qed

text \<open>An append looks at the index only: the file may hold anything.\<close>

lemma append_over_file:
  assumes ok: "handle_ok crc hash cfg eid h" and req: "request_ok cfg plans" and w: "batch_for crc hash cfg plans h written locs"
  shows "append_handle crc hash cfg MediaOk eid plans (h\<lparr>eh_file := x\<rparr>) =
      (Inr (map (receipt_of eid) locs), (snd (after_append eid h written locs MediaOk))\<lparr>eh_file := write_file (length (eh_file h)) written x\<rparr>)"
    and "append_handle crc hash cfg MediaBarrierFailed eid plans h = (Inl Durability, h\<lparr>eh_file := eh_file h @ written\<rparr>)"
proof -
  obtain l ls where "locs = l # ls" "rl_batch_end l = length (eh_file h) + length written" "\<not> es_sealed (eh_state h)"
    "append_batch_bytes crc hash (ec_alignment cfg) (es_next_batch_id (eh_state h)) (length (es_records (eh_state h)))
       (es_committed_end (eh_state h)) plans = Inr (written, locs)"
    "length (eh_file h) + length written \<le> ec_maximum_extent_bytes cfg"
    by (rule batch_for_facts [OF ok req w])
  then show "append_handle crc hash cfg MediaOk eid plans (h\<lparr>eh_file := x\<rparr>) =
      (Inr (map (receipt_of eid) locs), (snd (after_append eid h written locs MediaOk))\<lparr>eh_file := write_file (length (eh_file h)) written x\<rparr>)"
    and "append_handle crc hash cfg MediaBarrierFailed eid plans h = (Inl Durability, h\<lparr>eh_file := eh_file h @ written\<rparr>)"
    using handle_okD(4) [OF ok] by (simp_all add: append_handle_def after_append_def write_file_end Let_def)
qed

lemma write_over_stale: "write_file (length f) written (f @ stale) = f @ written @ drop (length written) stale"
  and write_past_end: "length f \<le> n \<Longrightarrow> write_file n written f = f @ replicate (n - length f) 0 @ written"
  by (simp_all add: write_file_def)

lemma scan_step_extends:
  assumes "sc_committed_end s \<le> sc_offset s"
  shows "\<exists>more. sc_records (next_state (scan_step crc hash alignment bs s)) = sc_records s @ more"
    and "sc_committed_end s \<le> sc_committed_end (next_state (scan_step crc hash alignment bs s))"
    and "sc_committed_end (next_state (scan_step crc hash alignment bs s)) \<le> sc_offset (next_state (scan_step crc hash alignment bs s))"
  using assms
  by (simp_all add: scan_step_def scan_data_def scan_commit_def scan_seal_def Let_def split: sum.split option.split)

lemma scan_loop_extends:
  "sc_committed_end s \<le> sc_offset s \<Longrightarrow>
     (\<exists>more. sc_records (scan_loop crc hash alignment bs s) = sc_records s @ more) \<and>
     sc_committed_end s \<le> sc_committed_end (scan_loop crc hash alignment bs s)"
proof (induction "length bs - sc_offset s" arbitrary: s rule: less_induct)
  case less
  note ext = scan_step_extends [OF less.prems, of crc hash alignment bs]
  show ?case
  proof (cases "0 < alignment \<and> sc_offset s + alignment \<le> length bs")
    case True
    show ?thesis
    proof (cases "scan_step crc hash alignment bs s")
      case (ScanStop t)
      then show ?thesis using True ext scan_loop_stop [OF ScanStop] by simp
    next
      case (ScanMore t)
      have "length bs - sc_offset t < length bs - sc_offset s" using True scan_step_progress [OF ScanMore] by linarith
      then obtain more where "sc_records (scan_loop crc hash alignment bs t) = sc_records t @ more"
          "sc_committed_end t \<le> sc_committed_end (scan_loop crc hash alignment bs t)"
        using less.hyps [of t] ext(3) ScanMore by auto
      then show ?thesis using True ext(1,2) ScanMore scan_loop_more [OF ScanMore] by auto
    qed
  next
    case False
    then have "scan_loop crc hash alignment bs s = s" by (subst scan_loop.simps) auto
    then show ?thesis by simp
  qed
qed

lemma recover_over_tail:
  assumes p: "store_params crc hash (ec_alignment cfg) eid" and im: "extent_image crc hash (ec_alignment cfg) eid f rs"
    and h: "eh_file h = f @ g"
  shows "\<exists>more. extent_contents (snd (recover_handle crc hash cfg IoOk eid h)) = map (record_entry f) rs @ more"
proof -
  let ?al = "ec_alignment cfg"
  define t where "t = scan_loop crc hash ?al (f @ g) (scan_init ?al)"
  obtain u where "t = scan_loop crc hash ?al (f @ g) u" "sc_offset u = length f" "sc_committed_end u = length f" "sc_records u = rs"
    using image_scan [OF p im, of g] unfolding t_def by (elim exE conjE)
  then obtain more where t: "sc_records t = rs @ more" "length f \<le> sc_committed_end t"
    using scan_loop_extends [of u crc hash ?al "f @ g"] by auto
  have "record_entry (take (sc_committed_end t) (f @ g)) l = record_entry f l" if "l \<in> set rs" for l
    using record_entry_append [of f l] image_bounds [OF p im] that t(2) by (simp add: list_all_iff)
  then show ?thesis
    using t(1) by (simp add: recover_handle_def h recover_file_scan [OF p im t_def [symmetric]] extent_contents_def)
qed

text \<open>A payload that holds a batch, placed where a shorter append will end.\<close>

lemma single_record_bytes:
  assumes laws: "crc_laws crc" "hash_laws hash" "101 \<le> alignment" and fit: "plans_fit alignment [plan] batch index"
    and app: "append_batch_bytes crc hash alignment batch index cursor [plan] = Inr (written, locs)"
    and pad: "alignment dvd length (bc_bytes (ap_payload plan))"
  shows "\<exists>header commit. length header = alignment \<and> length commit = alignment \<and>
    written = header @ bc_bytes (ap_payload plan) @ commit"
proof -
  obtain ps commit where ps: "plan_records crc hash alignment batch index cursor [plan] = Inr ps" "length commit = alignment"
      "written = batch_body [plan] ps @ commit"
    using append_batch_bytesE [OF laws fit app] by metis
  have fits: "plan_fits alignment plan" "batch < 2 ^ 64" "index < 2 ^ 64" using fit by (simp_all add: plans_fit_def)
  obtain p where p: "ps = [p]" "planned_ok crc alignment batch index cursor plan p"
    by (rule plan_records_Cons [OF laws(1) fits ps(1)]) auto
  have el: "bc_encoded_len (ap_payload plan) = length (bc_bytes (ap_payload plan))" using fits(1) by (simp add: plan_fits_def chain_ok_def)
  have al: "0 < alignment" "bc_encoded_len (ap_payload plan) + alignment < 2 ^ 64" using fits(1) laws(3) by (simp_all add: plan_fits_def)
  have "pr_padded_len p = align_up_u64 (bc_encoded_len (ap_payload plan)) alignment" "length (pr_header p) = alignment"
    using p(2) by (simp_all add: planned_ok_def)
  moreover have "align_up_u64 (bc_encoded_len (ap_payload plan)) alignment = bc_encoded_len (ap_payload plan)"
  proof -
    have "alignment dvd align_up_u64 (bc_encoded_len (ap_payload plan)) alignment - bc_encoded_len (ap_payload plan)"
      using align_up_small(3) [OF al] pad by (intro dvd_diff_nat) (simp_all add: el)
    moreover have "align_up_u64 (bc_encoded_len (ap_payload plan)) alignment - bc_encoded_len (ap_payload plan) < alignment"
      using align_up_small(2,4) [OF al] by linarith
    ultimately have "align_up_u64 (bc_encoded_len (ap_payload plan)) alignment - bc_encoded_len (ap_payload plan) = 0"
      using nat_dvd_not_less by blast
    then show ?thesis using align_up_small(2) [OF al] by linarith
  qed
  ultimately show ?thesis
    using ps(2,3) by (intro exI [of _ "pr_header p"] exI [of _ commit]) (simp add: p(1) batch_body_def record_image_def concat_io_slices)
qed

text \<open>The bytes of a batch of well-formed plans.\<close>

lemma append_batch_bytes_total:
  assumes laws: "crc_laws crc" "hash_laws hash" "101 \<le> alignment" and fit: "plans_fit alignment plans batch index"
    and sums: "list_all (checksum_ok crc hash) plans"
  obtains written locs where "append_batch_bytes crc hash alignment batch index cursor plans = Inr (written, locs)"
    "length written = batch_bytes alignment plans"
proof -
  obtain ps where ps: "plan_records crc hash alignment batch index cursor plans = Inr ps"
      "body_end alignment ps cursor + alignment = cursor + batch_bytes alignment plans"
    using plan_records_total [OF laws(1) _ sums] fit [unfolded plans_fit_def] by blast
  obtain commit where "encode_record_header crc alignment (commit_header hash batch ps) True = Inr commit"
    using laws(3) by (simp add: encode_record_header_def commit_header_def fixed_header_bytes_def)
  then obtain written locs where app: "append_batch_bytes crc hash alignment batch index cursor plans = Inr (written, locs)"
    using ps(1) by (simp add: append_batch_bytes_def Let_def)
  obtain ps' where "plan_records crc hash alignment batch index cursor plans = Inr ps'"
      "cursor + length written = body_end alignment ps' cursor + alignment"
    using append_batch_bytesE [OF laws fit app] by metis
  then show ?thesis using that [OF app] ps by simp
qed

lemma sample_record_bytes:
  "length bs \<le> 1024 \<Longrightarrow> bs \<noteq> [] \<Longrightarrow> batch_bytes 128 [sample_plan r bs] = 256 + (length bs + 127) div 128 * 128"
  by (simp add: batch_bytes_def sample_plan_def align_up_u64_def int_ops saturating_mul_def)

lemma sample_batch:
  assumes bs: "length bs \<le> 1024" "bs \<noteq> []"
  obtains written locs where
    "batch_for sum_crc zero_hash sample_extent_config [sample_plan r bs] sample_handle written locs"
    "append_batch_bytes sum_crc zero_hash 128 1 0 128 [sample_plan r bs] = Inr (written, locs)"
    "plans_fit 128 [sample_plan r bs] 1 0" "length written = 256 + (length bs + 127) div 128 * 128"
proof -
  have al: "ec_alignment sample_extent_config = 128" by (simp add: sample_extent_config_def)
  note p = store_paramsD [OF sample_params, unfolded al]
  have fit: "plans_fit 128 [sample_plan r bs] 1 0" using sample_plan_ok(1) [OF bs(1)] by (simp add: plans_fit_def al)
  have "list_all (checksum_ok sum_crc zero_hash) [sample_plan r bs]" using sample_plan_ok(2) [OF bs(1)] by simp
  from append_batch_bytes_total [OF p(1-3) fit this, of 128] obtain written locs where
    app: "append_batch_bytes sum_crc zero_hash 128 1 0 128 [sample_plan r bs] = Inr (written, locs)"
      "length written = 256 + (length bs + 127) div 128 * 128"
    using sample_record_bytes [OF bs] by metis
  have "batch_for sum_crc zero_hash sample_extent_config [sample_plan r bs] sample_handle written locs"
    using app fit bs by (simp add: batch_for_def sample_handle_open(1,2) al)
      (simp add: sample_handle_def new_handle_def sample_extent_config_def)
  then show ?thesis using that app fit by blast
qed

lemma sample_request: "length bs \<le> 1024 \<Longrightarrow> request_ok sample_extent_config [sample_plan r bs]"
  by (simp add: request_ok_def sample_plan_ok)

text \<open>A batch that was never appended, in the place after an acknowledged one.\<close>

lemma sample_forgery:
  assumes w: "batch_for sum_crc zero_hash sample_extent_config [sample_plan 1 [7, 8]] sample_handle written locs"
    and len: "length written = 384"
  obtains forged rs where "length forged = 384"
    "extent_image sum_crc zero_hash (ec_alignment sample_extent_config) sample_extent_id (eh_file sample_handle @ written @ forged) rs"
    "map (record_entry (eh_file sample_handle @ written @ forged)) rs = [([1], [7, 8]), ([3], [6])]"
    "map (record_entry (eh_file sample_handle @ written @ g)) locs = [([1], [7, 8])]"
proof -
  let ?f = "eh_file sample_handle" and ?e = "[sample_plan 3 [6]]" and ?al = "ec_alignment sample_extent_config"
  note p = store_paramsD(1-3) [OF sample_params]
  have al: "?al = 128" by (simp add: sample_extent_config_def)
  have rs0: "es_records (eh_state sample_handle) = []" by (simp add: sample_handle_def new_handle_def)
  have im: "extent_image sum_crc zero_hash ?al sample_extent_id (?f @ written) locs"
    and one: "map (record_entry (?f @ written)) locs = [([1], [7, 8])]"
    using batch_for_image [OF sample_ok sample_request w] sample_plan_ok(5) [of "[7, 8]" 1] by (simp_all add: rs0 sample_handle_open(3))
  have "length locs = 1" using arg_cong [OF one, of length] by simp
  then have fit: "plans_fit ?al ?e 7 (length locs)" using sample_plan_ok(1) [of "[6]" 3] by (simp add: plans_fit_def)
  have "list_all (checksum_ok sum_crc zero_hash) ?e" using sample_plan_ok(2) [of "[6]"] by simp
  then obtain forged elocs where e: "append_batch_bytes sum_crc zero_hash ?al 7 (length locs) (length (?f @ written)) ?e = Inr (forged, elocs)"
      "length forged = batch_bytes ?al ?e"
    by (rule append_batch_bytes_total [OF p fit])
  have flen: "length forged = 384" using e(2) sample_record_bytes [of "[6]" 3] by (simp add: al)
  have "extent_image sum_crc zero_hash ?al sample_extent_id ((?f @ written) @ forged) (locs @ elocs)"
    using flen len sample_handle_open(2) by (intro extent_image.batch [OF im _ fit e(1)]) simp_all
  moreover have "map (record_entry ((?f @ written) @ forged)) (locs @ elocs) = [([1], [7, 8]), ([3], [6])]"
    using image_append_contents [OF sample_params im fit e(1)] one sample_plan_ok(5) [of "[6]" 3] by simp
  moreover have "map (record_entry ((?f @ written) @ g)) locs = [([1], [7, 8])]"
    unfolding one [symmetric] using image_bounds [OF sample_params im] record_entry_append [of "?f @ written" _ g]
    by (intro map_cong) (simp_all add: list_all_iff)
  ultimately show ?thesis using that flen by simp
qed


section \<open>A truncation that fails after the cut\<close>

text \<open>
  When \<open>sync_data\<close> fails after \<open>set_len\<close>, the file is shorter and the index is not. The next
  append is acknowledged at its old offset, behind a hole, and recovery stops at the hole.
\<close>

lemma record_magic_nonzero: "record_magic \<noteq> replicate 8 0"
  by code_simp

lemma scan_stops_at_hole:
  assumes p: "store_params crc hash (ec_alignment cfg) eid" and im: "extent_image crc hash (ec_alignment cfg) eid f rs"
    and hole: "ec_alignment cfg \<le> n"
  shows "\<exists>nb tail. recover_file crc hash cfg IoOk eid (f @ replicate n 0 @ g) =
    (Inr \<lparr>es_committed_end = length f, es_next_batch_id = nb, es_sealed = False, es_ignored_tail_bytes = tail, es_records = rs\<rparr>, f)"
proof -
  let ?al = "ec_alignment cfg" and ?g = "replicate n 0 @ g"
  obtain u where u: "scan_loop crc hash ?al (f @ ?g) (scan_init ?al) = scan_loop crc hash ?al (f @ ?g) u"
      "sc_offset u = length f" "sc_committed_end u = length f" "sc_records u = rs" "\<not> sc_sealed u"
    using image_scan [OF p im, of ?g] by (elim exE conjE)
  have al: "101 \<le> ?al" by (rule store_paramsD(3) [OF p])
  have "slice (length f) ?al (f @ ?g) = replicate ?al 0" using hole by (simp add: slice_def)
  moreover have "slice 0 8 (replicate ?al 0) \<noteq> record_magic"
    using al slice_replicate [of 0 8 ?al "0 :: 8 word"] record_magic_nonzero by simp
  ultimately have "scan_step crc hash ?al (f @ ?g) u = ScanStop u"
    using u(2) by (simp add: scan_step_def parse_record_header_def)
  then have "scan_loop crc hash ?al (f @ ?g) u = u" using u(2) al hole by (intro scan_loop_stop) simp_all
  then show ?thesis using recover_file_scan [OF p im, of ?g u] u by simp
qed

lemma failed_truncation_loses_appends:
  "\<exists>h1 h2 receipts h3.
     completed_append sum_crc zero_hash sample_extent_config sample_extent_id sample_plans sample_handle = Some h1 \<and>
     truncate_handle zero_hash sample_extent_config IoFailedAfter sample_extent_id 0 h1 = (Inl ExtentIo, h2) \<and>
     append_handle sum_crc zero_hash sample_extent_config MediaOk sample_extent_id sample_plans h2 = (Inr receipts, h3) \<and>
     extent_contents (snd (recover_handle sum_crc zero_hash sample_extent_config IoOk sample_extent_id h3)) = []"
proof -
  let ?al = "ec_alignment sample_extent_config"
  have al: "?al = 128" by (simp add: sample_extent_config_def)
  obtain h1 where h1: "completed_append sum_crc zero_hash sample_extent_config sample_extent_id sample_plans sample_handle = Some h1"
      "handle_ok sum_crc zero_hash sample_extent_config sample_extent_id h1" "length (eh_file h1) = 640" "\<not> es_sealed (eh_state h1)"
    by (rule sample_append)
  obtain receipts h' where "append_handle sum_crc zero_hash sample_extent_config MediaOk sample_extent_id sample_plans h1 = (Inr receipts, h')"
    by (rule append_handle_succeeds [OF h1(2,4) sample_plans_ok(1,2)]) (simp_all add: h1(3) sample_batch_bytes, simp add: sample_extent_config_def)
  then obtain written locs where w: "batch_for sum_crc zero_hash sample_extent_config sample_plans h1 written locs"
    by (auto intro: append_handle_effect [OF h1(2) sample_plans_ok(1), of MediaOk])
  have cut: "extent_image sum_crc zero_hash ?al sample_extent_id (take 128 (eh_file h1)) []"
    using image_truncate [OF sample_params handle_okD(6) [OF h1(2,4)], of 0 128] by (simp add: al)
  define h2 where "h2 = h1\<lparr>eh_file := take 128 (eh_file h1)\<rparr>"
  have trunc: "truncate_handle zero_hash sample_extent_config IoFailedAfter sample_extent_id 0 h1 = (Inl ExtentIo, h2)"
    using h1(4) by (simp add: truncate_handle_def h2_def al)
  define h3 where "h3 = (snd (after_append sample_extent_id h1 written locs MediaOk))
    \<lparr>eh_file := take 128 (eh_file h1) @ replicate 512 0 @ written\<rparr>"
  have app: "append_handle sum_crc zero_hash sample_extent_config MediaOk sample_extent_id sample_plans h2 =
      (Inr (map (receipt_of sample_extent_id) locs), h3)"
    using append_over_file(1) [OF h1(2) sample_plans_ok(1) w, of "take 128 (eh_file h1)"] h1(3) by (simp add: h2_def h3_def write_past_end)
  have "\<exists>nb tail. recover_file sum_crc zero_hash sample_extent_config IoOk sample_extent_id (eh_file h3) =
      (Inr \<lparr>es_committed_end = length (take 128 (eh_file h1)), es_next_batch_id = nb, es_sealed = False,
            es_ignored_tail_bytes = tail, es_records = []\<rparr>, take 128 (eh_file h1))"
    using scan_stops_at_hole [OF sample_params cut, of 512 written] by (simp add: h3_def al)
  then have "extent_contents (snd (recover_handle sum_crc zero_hash sample_extent_config IoOk sample_extent_id h3)) = []"
    by (auto simp: recover_handle_def extent_contents_def)
  then show ?thesis using h1(1) trunc app by blast
qed

end
