(* ===== verification/Radix_Tree.thy ===== *)
theory Radix_Tree
  imports Prelude
begin

text \<open>
  Compressed radix trees over byte strings, the reference for the persistent map of
  \<open>crates/pepper-merkle/src/lib.rs\<close>. A node holds the bytes it adds to the path, an optional
  value and children sorted by the first byte of their prefix. The theory proves what the trees
  mean as maps, that the operations keep them compressed, and that a compressed tree is
  determined by its map.
\<close>

section \<open>Trees\<close>

datatype 'v rtree = RNode (rt_prefix: bytes) (rt_value: "'v option") (rt_children: "(8 word \<times> 'v rtree) list")

fun t_get :: "'v rtree \<Rightarrow> bytes \<Rightarrow> 'v option" and t_get_list :: "(8 word \<times> 'v rtree) list \<Rightarrow> bytes \<Rightarrow> 'v option" where
  "t_get (RNode p v cs) key =
     (if prefix p key then (case drop (length p) key of [] \<Rightarrow> v | e # rest \<Rightarrow> t_get_list cs (e # rest)) else None)"
| "t_get_list [] key = None"
| "t_get_list ((e, t) # cs) key = (if e = hd key then t_get t key else t_get_list cs key)"

fun common_prefix_len :: "'a list \<Rightarrow> 'a list \<Rightarrow> nat" where
  "common_prefix_len (x # xs) (y # ys) = (if x = y then Suc (common_prefix_len xs ys) else 0)"
| "common_prefix_len _ _ = 0"

fun t_norm :: "'v rtree \<Rightarrow> 'v rtree" where
  "t_norm (RNode p None [(e, RNode q w ds)]) = RNode (p @ q) w ds"
| "t_norm t = t"

definition t_pair :: "8 word \<times> 'v rtree \<Rightarrow> 8 word \<times> 'v rtree \<Rightarrow> (8 word \<times> 'v rtree) list" where
  "t_pair a b = (if fst a < fst b then [a, b] else [b, a])"

fun t_insert :: "bytes \<Rightarrow> 'v \<Rightarrow> 'v rtree \<Rightarrow> 'v rtree"
  and t_insert_list :: "bytes \<Rightarrow> 'v \<Rightarrow> (8 word \<times> 'v rtree) list \<Rightarrow> (8 word \<times> 'v rtree) list" where
  "t_insert key v (RNode p w cs) =
     (let n = common_prefix_len p key
      in if n < length p
         then (let old = (p ! n, RNode (drop n p) w cs)
               in if n = length key then RNode (take n p) (Some v) [old]
                  else RNode (take n p) None (t_pair (key ! n, RNode (drop n key) (Some v) []) old))
         else if n = length key then RNode p (Some v) cs
         else t_norm (RNode p w (t_insert_list (drop n key) v cs)))"
| "t_insert_list key v [] = [(hd key, RNode key (Some v) [])]"
| "t_insert_list key v ((e, t) # cs) =
     (if hd key < e then (hd key, RNode key (Some v) []) # (e, t) # cs
      else if hd key = e then (e, t_insert key v t) # cs
      else (e, t) # t_insert_list key v cs)"

definition t_norm_opt :: "'v rtree \<Rightarrow> 'v rtree option" where
  "t_norm_opt t = (if rt_value t = None \<and> rt_children t = [] then None else Some (t_norm t))"

fun t_delete :: "bytes \<Rightarrow> 'v rtree \<Rightarrow> 'v rtree option"
  and t_delete_list :: "bytes \<Rightarrow> (8 word \<times> 'v rtree) list \<Rightarrow> (8 word \<times> 'v rtree) list" where
  "t_delete key (RNode p v cs) =
     (if \<not> prefix p key then Some (RNode p v cs)
      else (case drop (length p) key of
              [] \<Rightarrow> (if v = None then Some (RNode p v cs) else t_norm_opt (RNode p None cs))
            | e # rest \<Rightarrow> (if e \<in> set (map fst cs) then t_norm_opt (RNode p v (t_delete_list (e # rest) cs))
                         else Some (RNode p v cs))))"
| "t_delete_list key [] = []"
| "t_delete_list key ((e, t) # cs) =
     (if hd key = e then (case t_delete key t of None \<Rightarrow> cs | Some t' \<Rightarrow> (e, t') # cs)
      else (e, t) # t_delete_list key cs)"

section \<open>Compressed trees\<close>

fun rt_ok :: "'v rtree \<Rightarrow> bool" and rt_ok_list :: "(8 word \<times> 'v rtree) list \<Rightarrow> bool" where
  "rt_ok (RNode p v cs) \<longleftrightarrow> (v \<noteq> None \<or> 2 \<le> length cs) \<and> rt_ok_list cs"
| "rt_ok_list [] \<longleftrightarrow> True"
| "rt_ok_list ((e, t) # cs) \<longleftrightarrow> rt_ok t \<and> prefix [e] (rt_prefix t) \<and> (\<forall>x \<in> fst ` set cs. e < x) \<and> rt_ok_list cs"

definition empty_tree :: "'v rtree" where
  "empty_tree = RNode [] None []"

definition rt_root :: "'v rtree \<Rightarrow> bool" where
  "rt_root t \<longleftrightarrow> rt_ok t \<or> t = empty_tree"

lemma rt_root_list: "rt_root t \<Longrightarrow> rt_ok_list (rt_children t)"
  by (cases t) (auto simp: rt_root_def empty_tree_def)

lemma get_list_none: "hd key \<notin> fst ` set cs \<Longrightarrow> t_get_list cs key = None"
  by (induction cs) auto

lemma get_off_prefix: "\<not> prefix (rt_prefix t) key \<Longrightarrow> t_get t key = None"
  by (cases t) simp

lemma prefix_hd: "prefix (x # xs) ys \<Longrightarrow> ys \<noteq> [] \<and> hd ys = x"
  by (cases ys) auto

lemma get_wrong_edge: "prefix [e] (rt_prefix t) \<Longrightarrow> key \<noteq> [] \<Longrightarrow> hd key \<noteq> e \<Longrightarrow> t_get t key = None"
  by (rule get_off_prefix) (metis list.distinct(1) prefix_Cons prefix_hd prefix_order.trans)

lemma t_norm_get:
  assumes "rt_ok_list (rt_children t)"
  shows "t_get (t_norm t) key = t_get t key"
proof (cases t rule: t_norm.cases)
  case (1 p e q w ds)
  obtain q' where q: "q = e # q'" using assms 1 by (cases q) auto
  have "t_get (RNode (p @ q) w ds) key = t_get (RNode p None [(e, RNode q w ds)]) key"
  proof (cases "prefix p key")
    case True
    then obtain r where "key = p @ r" by (auto simp: prefix_def)
    then show ?thesis by (cases r) (auto simp: q)
  next
    case False
    then have "\<not> prefix (p @ q) key" using append_prefixD by blast
    then show ?thesis using False by simp
  qed
  then show ?thesis by (simp add: 1)
qed simp_all

section \<open>Common prefixes\<close>

lemma common_prefix_le: "common_prefix_len xs ys \<le> length xs" "common_prefix_len xs ys \<le> length ys"
  by (induction xs ys rule: common_prefix_len.induct) auto

lemma common_prefix_take: "take (common_prefix_len xs ys) xs = take (common_prefix_len xs ys) ys"
  by (induction xs ys rule: common_prefix_len.induct) auto

lemma common_prefix_stop:
  "common_prefix_len xs ys < length xs \<Longrightarrow> common_prefix_len xs ys < length ys \<Longrightarrow>
     xs ! common_prefix_len xs ys \<noteq> ys ! common_prefix_len xs ys"
  by (induction xs ys rule: common_prefix_len.induct) auto

lemma common_prefix_all: "common_prefix_len xs ys = length xs \<longleftrightarrow> prefix xs ys"
  by (induction xs ys rule: common_prefix_len.induct) auto

lemma common_prefix_same [simp]: "common_prefix_len (xs @ ys) (xs @ zs) = length xs + common_prefix_len ys zs"
  by (induction xs) auto

lemma common_prefix_Nil2 [simp]: "common_prefix_len xs [] = 0"
  by (cases xs) auto

lemma common_prefix_left [simp]: "common_prefix_len (xs @ ys) xs = length xs"
  using common_prefix_same [of xs ys "[]"] by simp

section \<open>Insertion\<close>

lemma common_prefix_cases:
  obtains (split) c a p' r where "p = c @ a # p'" "key = c @ r" "r = [] \<or> hd r \<noteq> a" "common_prefix_len p key = length c"
  | (all) r where "key = p @ r" "common_prefix_len p key = length p"
proof (cases "common_prefix_len p key < length p")
  case True
  let ?n = "common_prefix_len p key"
  have "p = take ?n p @ p ! ?n # drop (Suc ?n) p" using True by (simp add: id_take_nth_drop)
  moreover have "key = take ?n p @ drop ?n key" by (simp add: common_prefix_take)
  moreover have "drop ?n key = [] \<or> hd (drop ?n key) \<noteq> p ! ?n"
    using common_prefix_stop [OF True] by (cases "?n < length key") (auto simp: hd_drop_conv_nth)
  moreover have "?n = length (take ?n p)" using True by simp
  ultimately show ?thesis by (rule split)
next
  case False
  then have "common_prefix_len p key = length p" using common_prefix_le(1) [of p key] by simp
  moreover from this have "prefix p key" using common_prefix_all by blast
  ultimately show ?thesis using all by (auto elim: prefixE)
qed

lemma insert_split:
  assumes "r = [] \<or> hd r \<noteq> a"
  shows "t_insert (c @ r) v (RNode (c @ a # p) w cs) =
    (if r = [] then RNode c (Some v) [(a, RNode (a # p) w cs)]
     else RNode c None (t_pair (hd r, RNode r (Some v) []) (a, RNode (a # p) w cs)))"
proof -
  have "common_prefix_len (c @ a # p) (c @ r) = length c" using assms by (cases r) auto
  then show ?thesis by (cases r) auto
qed

lemma insert_below: "t_insert (p @ r) v (RNode p w cs) =
    (if r = [] then RNode p (Some v) cs else t_norm (RNode p w (t_insert_list r v cs)))"
proof -
  have "common_prefix_len p (p @ r) = length p" by (simp add: common_prefix_all)
  then show ?thesis by simp
qed

declare t_insert.simps [simp del]

lemma get_pair: "fst a \<noteq> fst b \<Longrightarrow> t_get_list (t_pair a b) key =
    (if hd key = fst a then t_get (snd a) key else if hd key = fst b then t_get (snd b) key else None)"
  by (cases a, cases b) (auto simp: t_pair_def)

lemma get_leaf: "t_get (RNode p (Some v) []) key = (if key = p then Some v else None)"
  by (auto simp: prefix_def split: list.split)

lemma set_insert_list: "fst ` set (t_insert_list key v cs) = insert (hd key) (fst ` set cs)"
proof (induction cs)
  case (Cons c cs)
  then show ?case by (cases c) (simp add: insert_commute)
qed simp

lemma rt_ok_list_edges: "rt_ok_list ((e, t) # cs) \<Longrightarrow> hd key = e \<Longrightarrow> t_get_list cs key = None"
  by (rule get_list_none) fastforce

text \<open>Insertion keeps trees compressed and prefixes on their edge.\<close>

lemma t_norm_ok: "rt_ok_list cs \<Longrightarrow> v \<noteq> None \<or> cs \<noteq> [] \<Longrightarrow> rt_ok (t_norm (RNode p v cs))"
  by (cases "RNode p v cs" rule: t_norm.cases) auto

lemma t_norm_prefix: "prefix p (rt_prefix (t_norm (RNode p v cs)))"
  by (cases "RNode p v cs" rule: t_norm.cases) auto

lemma pair_ok:
  assumes "fst a \<noteq> fst b" "rt_ok (snd a)" "rt_ok (snd b)" "prefix [fst a] (rt_prefix (snd a))" "prefix [fst b] (rt_prefix (snd b))"
  shows "rt_ok_list (t_pair a b)" "length (t_pair a b) = 2"
  using assms by (cases a; cases b; auto simp: t_pair_def)+

lemma insert_ok:
  fixes t :: "'v rtree"
  shows "rt_ok t \<or> t = empty_tree \<Longrightarrow> rt_ok (t_insert key v t) \<and> (prefix [e] key \<longrightarrow> prefix [e] (rt_prefix t) \<longrightarrow> prefix [e] (rt_prefix (t_insert key v t)))"
    and "rt_ok_list cs \<Longrightarrow> key \<noteq> [] \<Longrightarrow> rt_ok_list (t_insert_list key v cs) \<and> length cs \<le> length (t_insert_list key v cs)"
proof (induction key v t and key v cs arbitrary: e and e rule: t_insert_t_insert_list.induct)
  case (1 key v p w cs)
  have cs: "rt_ok_list cs" using "1.prems" by (auto simp: empty_tree_def)
  show ?case
  proof (cases rule: common_prefix_cases [of p key])
    case (split c a p' r)
    have old: "rt_ok (RNode (a # p') w cs)" using "1.prems" split(1) by (auto simp: empty_tree_def)
    have hd: "prefix [e] (c @ a # p') \<Longrightarrow> prefix [e] (c @ r) \<Longrightarrow> prefix [e] c" using split(3) by (cases c; cases r) auto
    show ?thesis
    proof (cases "r = []")
      case True
      then show ?thesis using old hd unfolding split(1,2) insert_split [OF split(3)] by auto
    next
      case False
      then have "prefix [hd r] r" by (cases r) auto
      then have "rt_ok_list (t_pair (hd r, RNode r (Some v) []) (a, RNode (a # p') w cs))"
          "length (t_pair (hd r, RNode r (Some v) []) (a, RNode (a # p') w cs)) = 2"
        using False split(3) old pair_ok [of "(hd r, RNode r (Some v) [])" "(a, RNode (a # p') w cs)"] by auto
      then show ?thesis using False hd unfolding split(1,2) insert_split [OF split(3)] by simp
    qed
  next
    case (all r)
    show ?thesis
    proof (cases "r = []")
      case True
      then show ?thesis using cs unfolding all(1) insert_below by simp
    next
      case False
      have list: "rt_ok_list (t_insert_list r v cs)" "t_insert_list r v cs \<noteq> []"
        using "1.IH" [OF refl] all False cs set_insert_list [of r v cs] by (auto simp: all(2) common_prefix_le)
      have "prefix [e] p \<Longrightarrow> prefix [e] (rt_prefix (t_norm (RNode p w (t_insert_list r v cs))))"
        using t_norm_prefix prefix_order.trans by blast
      then show ?thesis using False list t_norm_ok unfolding all(1) insert_below by auto
    qed
  qed
next
  case (2 key v)
  then show ?case by (cases key) auto
next
  case (3 key v f t cs)
  have hd: "prefix [hd key] key" using "3.prems"(2) by (cases key) auto
  show ?case
  proof (cases "hd key = f")
    case True
    then show ?thesis using "3.IH"(1) [of f] "3.prems" hd by simp
  next
    case False
    then show ?thesis
      using "3.IH"(2) "3.prems" hd
      by (cases "hd key < f") (auto simp: set_insert_list ball_simps simp del: image_iff intro: less_trans)
  qed
qed

section \<open>Lookup after insertion\<close>

lemma get_insert:
  fixes t :: "'v rtree"
  shows "rt_ok_list (rt_children t) \<Longrightarrow> t_get (t_insert key v t) key' = (if key' = key then Some v else t_get t key')"
    and "rt_ok_list cs \<Longrightarrow> key \<noteq> [] \<Longrightarrow> key' \<noteq> [] \<Longrightarrow>
      t_get_list (t_insert_list key v cs) key' = (if key' = key then Some v else t_get_list cs key')"
proof (induction key v t and key v cs arbitrary: key' and key' rule: t_insert_t_insert_list.induct)
  case (1 key v p w cs)
  have cs: "rt_ok_list cs" using "1.prems" by simp
  show ?case
  proof (cases rule: common_prefix_cases [of p key])
    case (split c a p' r)
    have new: "t_get (RNode (c @ a # p') w cs) key' = (if prefix c key' then t_get (RNode (a # p') w cs) (drop (length c) key') else None)" for key'
      by (auto simp: prefix_def)
    show ?thesis
    proof (cases "prefix c key'")
      case True
      then obtain r' where "key' = c @ r'" by (auto elim: prefixE)
      then show ?thesis
        using split(3) unfolding split(1,2) insert_split [OF split(3)] new
        by (cases r'; cases r) (auto simp: get_pair prefix_def split: list.split)
    next
      case False
      then show ?thesis unfolding split(1,2) insert_split [OF split(3)] new by auto
    qed
  next
    case (all r)
    show ?thesis
    proof (cases "r = []")
      case True
      then show ?thesis unfolding all(1) insert_below by (auto simp: prefix_def split: list.split)
    next
      case False
      have "rt_ok_list (t_insert_list r v cs)" using insert_ok(2) [OF cs False] by simp
      then have "t_get (t_insert key v (RNode p w cs)) key' = t_get (RNode p w (t_insert_list r v cs)) key'"
        using False unfolding all(1) insert_below by (simp add: t_norm_get del: t_get.simps)
      also have "\<dots> = (if key' = key then Some v else t_get (RNode p w cs) key')"
        using "1.IH" [OF refl] all False cs by (auto simp: prefix_def all(2) common_prefix_le split: list.split)
      finally show ?thesis .
    qed
  qed
next
  case (2 key v)
  then show ?case by (cases key; cases key') (auto simp: get_leaf simp del: t_get.simps)
next
  case (3 key v f t cs)
  have lf: "t_get (RNode key (Some v) []) key' = (if key' = key then Some v else None)" for key' by (rule get_leaf)
  show ?case
  proof (cases "hd key = f")
    case True
    then show ?thesis using "3.IH"(1) "3.prems" rt_ok_list_edges by (cases t) auto
  next
    case False
    moreover have "hd key < f \<Longrightarrow> hd key' = hd key \<Longrightarrow> t_get_list cs key' = None"
      using "3.prems"(1) by (intro get_list_none) fastforce
    ultimately show ?thesis
      using "3.IH"(2) "3.prems" get_wrong_edge [of f t key'] by (auto simp: lf simp del: t_get.simps)
  qed
qed

section \<open>Deletion\<close>

lemma ball_subset: "A \<subseteq> B \<Longrightarrow> \<forall>x \<in> B. P x \<Longrightarrow> \<forall>x \<in> A. P x"
  by blast

lemma delete_list_edges: "fst ` set (t_delete_list key cs) \<subseteq> fst ` set cs"
proof (induction cs)
  case (Cons c cs)
  then show ?case by (cases c) (simp add: subset_insertI2 split: option.split)
qed simp

definition t_get_opt :: "'v rtree option \<Rightarrow> bytes \<Rightarrow> 'v option" where
  "t_get_opt t key = Option.bind t (\<lambda>t. t_get t key)"

lemma t_get_opt_simps [simp]: "t_get_opt None key = None" "t_get_opt (Some t) key = t_get t key"
  by (simp_all add: t_get_opt_def)

lemma norm_opt_get: "rt_ok_list (rt_children t) \<Longrightarrow> t_get_opt (t_norm_opt t) key = t_get t key"
  by (cases t) (auto simp: t_norm_opt_def t_norm_get simp del: t_get.simps, auto split: list.split)

lemma norm_opt_ok: "rt_ok_list cs \<Longrightarrow> t_norm_opt (RNode p v cs) = Some t \<Longrightarrow> rt_ok t \<and> prefix p (rt_prefix t)"
  using t_norm_ok t_norm_prefix by (fastforce simp: t_norm_opt_def split: if_splits)

text \<open>Deletion keeps trees compressed, and a tree that remains keeps the path it had.\<close>

lemma delete_ok:
  fixes t :: "'v rtree" and cs :: "(8 word \<times> 'v rtree) list"
  shows "rt_root t \<Longrightarrow> t_delete key t = Some t' \<Longrightarrow> rt_root t' \<and> (rt_ok t \<longrightarrow> rt_ok t') \<and> prefix (rt_prefix t) (rt_prefix t')"
    and "rt_ok_list cs \<Longrightarrow> rt_ok_list (t_delete_list key cs)"
proof (induction key t and key cs arbitrary: t' rule: t_delete_t_delete_list.induct)
  case (1 key p v cs)
  have cs: "rt_ok_list cs" using rt_root_list [OF "1.prems"(1)] by simp
  have norm: "rt_ok u \<and> prefix p (rt_prefix u)" if "rt_ok_list ds" "t_norm_opt (RNode p w ds) = Some u" for w ds u
    using norm_opt_ok [OF that] .
  show ?case
  proof (cases "t' = RNode p v cs")
    case False
    then have "rt_ok t' \<and> prefix p (rt_prefix t')"
      using "1.prems"(2) "1.IH" cs norm by (auto split: if_splits list.splits)
    then show ?thesis by (simp add: rt_root_def)
  qed (use "1.prems"(1) in simp)
next
  case (3 key f t cs)
  show ?case
  proof (cases "hd key = f")
    case True
    have "rt_ok u \<and> prefix [f] (rt_prefix u)" if "t_delete key t = Some u" for u
      using "3.IH"(1) [OF True _ that] "3.prems" prefix_order.trans by (auto simp: rt_root_def)
    then show ?thesis using True "3.prems" by (simp split: option.split)
  next
    case False
    have "\<forall>x \<in> fst ` set cs. f < x" using "3.prems" unfolding rt_ok_list.simps by blast
    then have "\<forall>x \<in> fst ` set (t_delete_list key cs). f < x" by (rule ball_subset [rotated]) (rule delete_list_edges)
    then show ?thesis using False "3.IH"(2) "3.prems" by simp
  qed
qed simp

lemma get_delete:
  fixes t :: "'v rtree" and cs :: "(8 word \<times> 'v rtree) list"
  shows "rt_ok_list (rt_children t) \<Longrightarrow> t_get_opt (t_delete key t) key' = (if key' = key then None else t_get t key')"
    and "rt_ok_list cs \<Longrightarrow> key \<noteq> [] \<Longrightarrow> key' \<noteq> [] \<Longrightarrow>
      t_get_list (t_delete_list key cs) key' = (if key' = key then None else t_get_list cs key')"
proof (induction key t and key cs arbitrary: key' and key' rule: t_delete_t_delete_list.induct)
  case (1 key p v cs)
  have cs: "rt_ok_list cs" using "1.prems" by simp
  show ?case
  proof (cases "prefix p key")
    case False
    then show ?thesis by auto
  next
    case True
    then obtain r where r: "key = p @ r" by (auto elim: prefixE)
    show ?thesis
    proof (cases r)
      case Nil
      then show ?thesis
        using cs by (auto simp: r norm_opt_get simp del: t_get.simps, auto simp: prefix_def split: list.split)
    next
      case (Cons e rest)
      show ?thesis
      proof (cases "e \<in> fst ` set cs")
        case True
        then have del: "t_delete key (RNode p v cs) = t_norm_opt (RNode p v (t_delete_list r cs))" by (simp add: r Cons)
        have "t_get (RNode p v (t_delete_list r cs)) key' = (if key' = key then None else t_get (RNode p v cs) key')"
          using "1.IH" [of e rest] cs True Cons by (auto simp: r prefix_def split: list.split)
        then show ?thesis
          using norm_opt_get [of "RNode p v (t_delete_list r cs)" key'] delete_ok(2) [OF cs, of r] unfolding del
          by (simp del: t_get.simps)
      next
        case False
        then show ?thesis using get_list_none [of r cs] by (auto simp: r Cons)
      qed
    qed
  qed
next
  case (3 key f t cs)
  have list: "rt_ok_list (rt_children t)" using "3.prems"(1) by (cases t) auto
  show ?case
  proof (cases "hd key = f")
    case True
    have "t_get_list cs key'' = None" if "hd key'' = f" for key'' using rt_ok_list_edges "3.prems"(1) that by blast
    then show ?thesis using True "3.IH"(1) [OF True list, of key'] by (cases "t_delete key t"; cases "hd key' = f") auto
  next
    case False
    then show ?thesis using "3.IH"(2) "3.prems" get_wrong_edge [of f t key] by auto
  qed
qed simp

section \<open>Canonical form\<close>

lemma ok_has_key:
  fixes t :: "'v rtree" and cs :: "(8 word \<times> 'v rtree) list"
  shows "rt_ok t \<Longrightarrow> \<exists>key v. t_get t key = Some v"
    and "rt_ok_list cs \<Longrightarrow> c \<in> set cs \<Longrightarrow> \<exists>key v. prefix [fst c] key \<and> t_get_list cs key = Some v"
proof (induction t and cs arbitrary: and c rule: rt_ok_rt_ok_list.induct)
  case (1 p v cs)
  show ?case
  proof (cases v)
    case None
    then obtain c where "c \<in> set cs" using "1.prems" by (cases cs) auto
    moreover have "rt_ok_list cs" using "1.prems" by simp
    ultimately obtain key w where "prefix [fst c] key" "t_get_list cs key = Some w" using "1.IH" by blast
    then have "t_get (RNode p v cs) (p @ key) = Some w" by (cases key) auto
    then show ?thesis by blast
  next
    case (Some w)
    then have "t_get (RNode p v cs) p = Some w" by simp
    then show ?thesis by blast
  qed
next
  case (3 e t cs)
  obtain key v where k: "t_get t key = Some v" using "3.IH"(1) "3.prems"(1) by auto
  have kp: "prefix [e] key" using k get_off_prefix [of t key] "3.prems"(1) prefix_order.trans by fastforce
  show ?case
  proof (cases "c = (e, t)")
    case True
    then show ?thesis using k kp prefix_hd [of e "[]" key] by (intro exI [of _ key] exI [of _ v]) auto
  next
    case False
    then have c: "c \<in> set cs" using "3.prems"(2) by simp
    obtain key' w where k': "prefix [fst c] key'" "t_get_list cs key' = Some w" using "3.IH"(2) [OF _ c] "3.prems"(1) by auto
    have "e < fst c" using "3.prems"(1) c by auto
    then have "t_get_list ((e, t) # cs) key' = Some w" using k' prefix_hd [of "fst c" "[]" key'] by auto
    then show ?thesis using k'(1) by blast
  qed
qed simp

lemma prefix_of_both: "prefix q (p @ e # x) \<Longrightarrow> prefix q (p @ f # y) \<Longrightarrow> e \<noteq> f \<Longrightarrow> prefix q p"
  by (induction p arbitrary: q) (auto simp: prefix_Cons)

lemma ok_prefix_greatest:
  assumes ok: "rt_ok t" and all: "\<And>key v. t_get t key = Some v \<Longrightarrow> prefix q key"
  shows "prefix q (rt_prefix t)"
proof (cases t)
  case t: (RNode p v cs)
  have cs: "rt_ok_list cs" using ok t by simp
  show ?thesis
  proof (cases v)
    case (Some w)
    then have "t_get t p = Some w" by (simp add: t)
    then show ?thesis using all t by simp
  next
    case None
    then obtain c d ds where ds: "cs = c # d # ds" using ok t by (auto simp: Suc_le_length_iff numeral_2_eq_2)
    have "fst c < fst d" using cs ds by (cases c) auto
    moreover obtain k1 v1 where k1: "prefix [fst c] k1" "t_get_list cs k1 = Some v1" using ok_has_key(2) [OF cs, of c] ds by auto
    moreover obtain k2 v2 where k2: "prefix [fst d] k2" "t_get_list cs k2 = Some v2" using ok_has_key(2) [OF cs, of d] ds by auto
    moreover have "t_get t (p @ k) = t_get_list cs k" if "k \<noteq> []" for k using that by (cases k) (simp_all add: t)
    ultimately have "prefix q (p @ k1)" "prefix q (p @ k2)" using all by (metis prefix_hd)+
    moreover obtain x y where "k1 = fst c # x" "k2 = fst d # y" using k1(1) k2(1) by (auto elim!: prefixE)
    ultimately show ?thesis using prefix_of_both [of q p "fst c" x "fst d" y] \<open>fst c < fst d\<close> by (simp add: t)
  qed
qed

lemma least_edge:
  assumes us: "rt_ok_list ((f, u) # us)" and ws: "rt_ok_list ((g, w) # ws)"
    and same: "\<And>key. key \<noteq> [] \<Longrightarrow> t_get_list ((f, u) # us) key = t_get_list ((g, w) # ws) key"
  shows "f \<le> g"
proof (rule ccontr)
  assume less: "\<not> f \<le> g"
  obtain key v where k: "prefix [g] key" "t_get_list ((g, w) # ws) key = Some v"
    using ok_has_key(2) [OF ws, of "(g, w)"] by auto
  have hd: "key \<noteq> []" "hd key = g" using prefix_hd [OF k(1)] by simp_all
  have "hd key \<notin> fst ` set ((f, u) # us)" using us less hd(2) by fastforce
  then show False using get_list_none [of key "(f, u) # us"] same [OF hd(1)] k(2) by simp
qed

text \<open>A compressed tree is determined by the map it stands for.\<close>

lemma canonical:
  fixes t :: "'v rtree" and cs :: "(8 word \<times> 'v rtree) list"
  shows "rt_ok t \<Longrightarrow> rt_ok t' \<Longrightarrow> (\<And>key. t_get t key = t_get t' key) \<Longrightarrow> t = t'"
    and "rt_ok_list cs \<Longrightarrow> rt_ok_list cs' \<Longrightarrow> (\<And>key. key \<noteq> [] \<Longrightarrow> t_get_list cs key = t_get_list cs' key) \<Longrightarrow> cs = cs'"
proof (induction t and cs arbitrary: t' and cs' rule: rt_ok_rt_ok_list.induct)
  case (1 p v cs)
  obtain p' v' cs' where t': "t' = RNode p' v' cs'" by (cases t')
  have keys: "t_get u key = Some w \<Longrightarrow> prefix (rt_prefix u) key" for u :: "'v rtree" and key w using get_off_prefix by fastforce
  have "prefix (rt_prefix t') (rt_prefix (RNode p v cs))"
    by (rule ok_prefix_greatest [OF "1.prems"(1)]) (metis "1.prems"(3) keys)
  moreover have "prefix (rt_prefix (RNode p v cs)) (rt_prefix t')"
    by (rule ok_prefix_greatest [OF "1.prems"(2)]) (metis "1.prems"(3) keys)
  ultimately have p: "p' = p" by (simp add: t' prefix_order.antisym)
  have "v = v'" using "1.prems"(3) [of p] by (simp add: t' p)
  moreover have "t_get_list cs key = t_get_list cs' key" if "key \<noteq> []" for key
    using "1.prems"(3) [of "p @ key"] that by (cases key) (simp_all add: t' p)
  then have "cs = cs'" using "1.IH" [of cs'] "1.prems"(1,2) by (simp add: t')
  ultimately show ?case by (simp add: t' p)
next
  case 2
  show ?case
  proof (rule ccontr)
    assume "[] \<noteq> cs'"
    then obtain key v where k: "prefix [fst (hd cs')] key" "t_get_list cs' key = Some v"
      using ok_has_key(2) [OF "2.prems"(2), of "hd cs'"] by (cases cs') auto
    have "key \<noteq> []" using prefix_hd [OF k(1)] by simp
    then show False using "2.prems"(3) [of key] k(2) by simp
  qed
next
  case (3 e t cs)
  have t: "rt_ok t" "prefix [e] (rt_prefix t)" and cs: "rt_ok_list cs" using "3.prems"(1) by simp_all
  have "cs' \<noteq> []"
  proof
    assume "cs' = []"
    moreover obtain key v where k: "prefix [e] key" "t_get_list ((e, t) # cs) key = Some v"
      using ok_has_key(2) [OF "3.prems"(1), of "(e, t)"] by auto
    moreover have "key \<noteq> []" using prefix_hd [OF k(1)] by simp
    ultimately show False using "3.prems"(3) [of key] by simp
  qed
  then obtain e' t' ds where cs': "cs' = (e', t') # ds" by (cases cs') auto
  have t': "rt_ok t'" "prefix [e'] (rt_prefix t')" and ds: "rt_ok_list ds" using "3.prems"(2) by (simp_all add: cs')
  have e: "e' = e"
  proof (rule antisym)
    show "e' \<le> e" using "3.prems"(3) by (intro least_edge [OF "3.prems"(2) [unfolded cs'] "3.prems"(1)]) (simp add: cs')
    show "e \<le> e'" using "3.prems"(3) by (intro least_edge [OF "3.prems"(1) "3.prems"(2) [unfolded cs']]) (simp add: cs')
  qed
  have "t_get t key = t_get t' key" for key
  proof (cases "key \<noteq> [] \<and> hd key = e")
    case True
    then show ?thesis using "3.prems"(3) [of key] by (simp add: cs' e)
  next
    case False
    have "\<not> prefix (rt_prefix u) key" if "prefix [e] (rt_prefix u)" for u :: "'v rtree"
      using False prefix_order.trans [OF that, of key] prefix_hd [of e "[]" key] by blast
    then show ?thesis using t(2) t'(2) get_off_prefix e by metis
  qed
  then have "t = t'" using "3.IH"(1) t t' by blast
  moreover have "cs = ds"
  proof (rule "3.IH"(2) [OF cs ds])
    fix key :: bytes
    assume "key \<noteq> []"
    then show "t_get_list cs key = t_get_list ds key"
      using "3.prems"(3) [of key] rt_ok_list_edges [OF "3.prems"(1), of key] rt_ok_list_edges [of e t' ds key] "3.prems"(2)
      by (cases "hd key = e") (auto simp: cs' e)
  qed
  ultimately show ?case by (simp add: cs' e)
qed

lemma canonical_root:
  fixes t :: "'v rtree"
  assumes "rt_root t" "rt_root t'" and same: "\<And>key. t_get t key = t_get t' key"
  shows "t = t'"
proof -
  have none: "t_get (empty_tree :: 'v rtree) key = None" for key by (simp add: empty_tree_def split: list.split)
  have "t' = empty_tree \<longleftrightarrow> t = empty_tree"
    using assms(1,2) ok_has_key(1) [of t] ok_has_key(1) [of t'] none same by (metis option.distinct(1) rt_root_def)
  then show ?thesis using canonical(1) [of t t'] assms by (auto simp: rt_root_def)
qed

section \<open>Entries in order\<close>

fun t_entries :: "'v rtree \<Rightarrow> (bytes \<times> 'v) list" and t_entries_list :: "(8 word \<times> 'v rtree) list \<Rightarrow> (bytes \<times> 'v) list" where
  "t_entries (RNode p v cs) =
     map (\<lambda>(k, w). (p @ k, w)) ((case v of None \<Rightarrow> [] | Some w \<Rightarrow> [([], w)]) @ t_entries_list cs)"
| "t_entries_list [] = []"
| "t_entries_list ((e, t) # cs) = t_entries t @ t_entries_list cs"

lemma entries_get:
  fixes t :: "'v rtree" and cs :: "(8 word \<times> 'v rtree) list"
  shows "rt_ok_list (rt_children t) \<Longrightarrow> (key, v) \<in> set (t_entries t) \<longleftrightarrow> t_get t key = Some v"
    and "rt_ok_list cs \<Longrightarrow> (key, v) \<in> set (t_entries_list cs) \<longleftrightarrow> key \<noteq> [] \<and> t_get_list cs key = Some v"
proof (induction t and cs arbitrary: key and key rule: t_entries_t_entries_list.induct)
  case (1 p w cs)
  show ?case
  proof (cases "prefix p key")
    case True
    then obtain r where "key = p @ r" by (auto elim: prefixE)
    then show ?thesis using "1.IH" [of r] "1.prems" by (cases r) (force split: option.splits)+
  next
    case False
    then show ?thesis by (auto split: option.splits)
  qed
next
  case (3 e t cs)
  have list: "rt_ok_list (rt_children t)" using "3.prems" by (cases t) auto
  have nil: "t_get t [] = None" using "3.prems" by (intro get_off_prefix) auto
  show ?case
  proof (cases "key \<noteq> [] \<and> hd key = e")
    case True
    then show ?thesis using "3.IH"(1) [OF list] "3.IH"(2) "3.prems" rt_ok_list_edges [OF "3.prems", of key] by simp
  next
    case False
    then show ?thesis
      using "3.IH"(1) [OF list, of key] "3.IH"(2) [of key] "3.prems" nil get_wrong_edge [of e t key] by (cases "key = []") auto
  qed
qed simp

lemma append_less_iff [simp]: "(p @ x < p @ y) = (x < (y :: 'a :: order list))"
  by (induction p) auto

lemma sorted_under: "sorted_wrt (<) (map fst (map (\<lambda>(k, w). (p @ k, w)) xs)) \<longleftrightarrow>
    sorted_wrt (<) (map (fst :: 'a :: order list \<times> 'b \<Rightarrow> 'a list) xs)"
  by (induction xs) auto

lemma entries_sorted:
  fixes t :: "'v rtree" and cs :: "(8 word \<times> 'v rtree) list"
  shows "rt_ok_list (rt_children t) \<Longrightarrow> sorted_wrt (<) (map fst (t_entries t))"
    and "rt_ok_list cs \<Longrightarrow> sorted_wrt (<) (map fst (t_entries_list cs))"
proof (induction t and cs rule: t_entries_t_entries_list.induct)
  case (1 p w cs)
  have "sorted_wrt (<) (map fst ((case w of None \<Rightarrow> [] | Some w \<Rightarrow> [([], w)]) @ t_entries_list cs))"
    using "1.IH" "1.prems" entries_get(2) [of cs] by (fastforce simp: neq_Nil_conv split: option.split)
  then show ?case unfolding t_entries.simps by (rule sorted_under [THEN iffD2])
next
  case (3 e t cs)
  have list: "rt_ok_list (rt_children t)" using "3.prems" by (cases t) auto
  have "k < k'" if "(k, w) \<in> set (t_entries t)" "(k', w') \<in> set (t_entries_list cs)" for k k' w w'
  proof -
    have "t_get t k = Some w" using that(1) entries_get(1) [OF list] by simp
    then have "prefix [e] k" using get_off_prefix [of t k] "3.prems" prefix_order.trans by fastforce
    moreover have "k' \<noteq> []" "t_get_list cs k' = Some w'" using that(2) entries_get(2) [of cs k' w'] "3.prems" by simp_all
    moreover have "hd k' \<in> fst ` set cs" using get_list_none [of k' cs] calculation(3) by fastforce
    moreover have "\<forall>x \<in> fst ` set cs. e < x" using "3.prems" unfolding rt_ok_list.simps by blast
    ultimately have "k \<noteq> []" "hd k < hd k'" "k' \<noteq> []" using prefix_hd [of e "[]" k] by auto
    then show ?thesis by (cases k; cases k') auto
  qed
  then show ?case using "3.IH" list "3.prems" by (auto simp: sorted_wrt_append)
qed simp

lemma sorted_map_of: "sorted_wrt (<) (map fst xs) \<Longrightarrow> map_of xs k = Some v \<longleftrightarrow> (k :: 'a :: linorder, v) \<in> set xs"
  by (rule map_of_eq_Some_iff) (simp add: strict_sorted_iff)

lemma get_map_of:
  assumes "rt_ok_list (rt_children t)"
  shows "t_get t = map_of (t_entries t)"
proof
  fix key
  show "t_get t key = map_of (t_entries t) key"
    using entries_get(1) [OF assms, of key] sorted_map_of [OF entries_sorted(1) [OF assms], of key]
    by (cases "t_get t key"; cases "map_of (t_entries t) key") auto
qed

end
