(* ===== verification/Merkle_Map.thy ===== *)
theory Merkle_Map
  imports Radix_Tree
begin

text \<open>
  The persistent ordered Merkle map of \<open>crates/pepper-merkle/src/lib.rs\<close>, with the content
  identifiers of \<open>crates/pepper-types/src/lib.rs\<close>. A map is the identifier of its root node; nodes
  are JSON blocks in a content-addressed store and name their children by identifier. \<open>blake3\<close>,
  \<open>hex\<close>, \<open>serde_json\<close> and the block store are parameters, collected in \<open>merkle_env\<close>; the counters
  of nodes read and written are left out. \<open>serde_json::to_vec\<close> does not fail on these types.
\<close>

section \<open>Content identifiers\<close>

text \<open>\<open>HashAlg\<close> has one value and is left out.\<close>

record cid =
  cid_version :: nat
  cid_codec :: nat
  cid_digest :: bytes

definition cid_current_version :: nat where
  "cid_current_version = 1"

definition codec_merkle_node :: nat where
  "codec_merkle_node = 7"

fun encode_u64_varint :: "nat \<Rightarrow> bytes" where
  "encode_u64_varint n =
     (if n < 128 then [of_nat n] else of_nat (n mod 128 + 128) # encode_u64_varint (n div 128))"

declare encode_u64_varint.simps [simp del]

definition compute_digest :: "(bytes \<Rightarrow> bytes) \<Rightarrow> nat \<Rightarrow> nat \<Rightarrow> bytes \<Rightarrow> bytes" where
  "compute_digest hash version codec payload =
     hash ([of_nat version] @ encode_u64_varint codec @ rev (to_le_bytes 8 (length payload)) @ payload)"

definition cid_new :: "(bytes \<Rightarrow> bytes) \<Rightarrow> nat \<Rightarrow> bytes \<Rightarrow> cid" where
  "cid_new hash codec payload =
     \<lparr>cid_version = cid_current_version, cid_codec = codec,
      cid_digest = compute_digest hash cid_current_version codec payload\<rparr>"

definition cid_verify :: "(bytes \<Rightarrow> bytes) \<Rightarrow> cid \<Rightarrow> bytes \<Rightarrow> bool" where
  "cid_verify hash c payload \<longleftrightarrow> cid_version c = cid_current_version \<and>
     compute_digest hash (cid_version c) (cid_codec c) payload = cid_digest c"

section \<open>Data\<close>

record merkle_limits =
  ml_max_key_bytes :: nat
  ml_max_value_kind_bytes :: nat
  ml_max_metadata_entries :: nat
  ml_max_metadata_bytes :: nat
  ml_max_node_bytes :: nat
  ml_max_children :: nat
  ml_max_depth :: nat
  ml_max_validation_nodes :: nat
  ml_max_scan_entries :: nat
  ml_max_scan_nodes :: nat

definition merkle_limits_default :: merkle_limits where
  "merkle_limits_default =
     \<lparr>ml_max_key_bytes = 1024, ml_max_value_kind_bytes = 64, ml_max_metadata_entries = 64, ml_max_metadata_bytes = 16 * 1024,
      ml_max_node_bytes = 1024 * 1024, ml_max_children = 256, ml_max_depth = 1024, ml_max_validation_nodes = 2000000,
      ml_max_scan_entries = 10000, ml_max_scan_nodes = 2000000\<rparr>"

datatype merkle_error = InvalidLimits | InvalidCodec nat | ReadFailed cid string | WriteFailed string
  | WrongStoredCid cid cid | HashMismatch cid | InvalidNode string | NonCanonicalNode | NodeTooLarge nat nat
  | KeyTooLarge nat nat | InvalidValue string | UnsortedMutations | InvalidScanLimit nat | InvalidScanRange
  | InvalidCursor string | CursorRootMismatch cid cid | CursorQueryMismatch | TooDeep nat | TooManyNodes nat
  | DuplicateNode cid

definition limits_validate :: "merkle_limits \<Rightarrow> merkle_error + merkle_limits" where
  "limits_validate l =
     (if ml_max_key_bytes l = 0 \<or> ml_max_value_kind_bytes l = 0 \<or> ml_max_metadata_entries l = 0 \<or>
         ml_max_metadata_bytes l = 0 \<or> ml_max_node_bytes l = 0 \<or> ml_max_children l = 0 \<or> 256 < ml_max_children l \<or>
         ml_max_depth l = 0 \<or> ml_max_validation_nodes l = 0 \<or> ml_max_scan_entries l = 0 \<or> ml_max_scan_nodes l = 0
      then Inl InvalidLimits else Inr l)"

record merkle_value =
  mv_cid :: cid
  mv_generation :: nat
  mv_value_kind :: string
  mv_metadata :: "(string, string) btree"

datatype mutation = Put bytes merkle_value | Delete bytes

fun mutation_key :: "mutation \<Rightarrow> bytes" where
  "mutation_key (Put key _) = key"
| "mutation_key (Delete key) = key"

type_synonym map_entry = "bytes \<times> merkle_value"

record node_child =
  ch_edge :: "8 word"
  ch_cid :: cid

record merkle_node =
  mn_type :: string
  mn_version :: nat
  mn_prefix_hex :: string
  mn_value :: "merkle_value option"
  mn_children :: "node_child list"

record scan_query =
  sq_start :: "bytes option"
  sq_end :: "bytes option"
  sq_prefix :: "bytes option"
  sq_limit :: nat
  sq_cursor :: "string option"

record scan_page =
  sp_root :: cid
  sp_entries :: "map_entry list"
  sp_next_cursor :: "string option"
  sp_nodes_read :: nat

record cursor_record =
  cr_version :: nat
  cr_root :: cid
  cr_after_key_hex :: string
  cr_start_hex :: "string option"
  cr_end_hex :: "string option"
  cr_prefix_hex :: "string option"

record validation_report =
  vr_nodes :: nat
  vr_entries :: nat
  vr_max_depth :: nat

text \<open>Third-party code and the store: \<open>'s\<close> is the state of the store.\<close>

record 's merkle_env =
  me_hash :: "bytes \<Rightarrow> bytes"
  me_hex :: "bytes \<Rightarrow> string"
  me_unhex :: "string \<Rightarrow> string + bytes"
  me_to_json :: "merkle_node \<Rightarrow> bytes"
  me_from_json :: "bytes \<Rightarrow> string + merkle_node"
  me_cursor_to_json :: "cursor_record \<Rightarrow> bytes"
  me_cursor_from_json :: "bytes \<Rightarrow> string + cursor_record"
  me_get :: "'s \<Rightarrow> cid \<Rightarrow> string + bytes"
  me_put :: "nat \<Rightarrow> bytes \<Rightarrow> 's \<Rightarrow> (string + cid) \<times> 's"

section \<open>Validation\<close>

definition node_type :: string where
  "node_type = ''pepper.merkle_radix_node''"

definition node_version :: nat where
  "node_version = 1"

definition node_new :: "'s merkle_env \<Rightarrow> bytes \<Rightarrow> merkle_value option \<Rightarrow> node_child list \<Rightarrow> merkle_node" where
  "node_new env p v cs =
     \<lparr>mn_type = node_type, mn_version = node_version, mn_prefix_hex = me_hex env p, mn_value = v, mn_children = cs\<rparr>"

definition node_prefix :: "'s merkle_env \<Rightarrow> merkle_node \<Rightarrow> merkle_error + bytes" where
  "node_prefix env n = (case me_unhex env (mn_prefix_hex n) of Inl m \<Rightarrow> Inl (InvalidNode m) | Inr p \<Rightarrow> Inr p)"

definition validate_key :: "merkle_limits \<Rightarrow> bytes \<Rightarrow> merkle_error + unit" where
  "validate_key l key =
     (if length key > ml_max_key_bytes l then Inl (KeyTooLarge (length key) (ml_max_key_bytes l)) else Inr ())"

fun metadata_bytes :: "(string, string) btree \<Rightarrow> nat \<Rightarrow> merkle_error + nat" where
  "metadata_bytes [] n = Inr n"
| "metadata_bytes ((k, v) # m) n =
     (if k = [] then Inl (InvalidValue ''metadata key must not be empty'')
      else metadata_bytes m (saturating_add 64 (saturating_add 64 n (length k)) (length v)))"

definition validate_value :: "merkle_limits \<Rightarrow> merkle_value \<Rightarrow> merkle_error + unit" where
  "validate_value l v =
     (if mv_generation v = 0 then Inl (InvalidValue ''generation must be greater than zero'')
      else if mv_value_kind v = [] \<or> length (mv_value_kind v) > ml_max_value_kind_bytes l
      then Inl (InvalidValue ''value kind is empty or too long'')
      else if length (mv_metadata v) > ml_max_metadata_entries l then Inl (InvalidValue ''too many metadata entries'')
      else (case metadata_bytes (mv_metadata v) 0 of
              Inl e \<Rightarrow> Inl e
            | Inr n \<Rightarrow> if n > ml_max_metadata_bytes l then Inl (InvalidValue ''metadata exceeds byte limit'') else Inr ()))"

fun validate_children :: "8 word option \<Rightarrow> node_child list \<Rightarrow> merkle_error + unit" where
  "validate_children previous [] = Inr ()"
| "validate_children previous (c # cs) =
     (if cid_codec (ch_cid c) \<noteq> codec_merkle_node then Inl (InvalidCodec (cid_codec (ch_cid c)))
      else if (case previous of None \<Rightarrow> False | Some e \<Rightarrow> e \<ge> ch_edge c)
      then Inl (InvalidNode ''child edges are not strictly sorted'')
      else validate_children (Some (ch_edge c)) cs)"

definition validate_node_shallow :: "'s merkle_env \<Rightarrow> merkle_limits \<Rightarrow> merkle_node \<Rightarrow> merkle_error + unit" where
  "validate_node_shallow env l n =
     (if mn_type n \<noteq> node_type then Inl (InvalidNode ''wrong type'')
      else if mn_version n \<noteq> node_version then Inl (InvalidNode ''unsupported version'')
      else (case node_prefix env n of
              Inl e \<Rightarrow> Inl e
            | Inr p \<Rightarrow>
                if length p > ml_max_key_bytes l then Inl (KeyTooLarge (length p) (ml_max_key_bytes l))
                else (case (case mn_value n of None \<Rightarrow> Inr () | Some v \<Rightarrow> validate_value l v) of
                        Inl e \<Rightarrow> Inl e
                      | Inr _ \<Rightarrow>
                          if length (mn_children n) > ml_max_children l then Inl (InvalidNode ''too many children'')
                          else validate_children None (mn_children n))))"

section \<open>Reading and writing nodes\<close>

definition decode_node :: "'s merkle_env \<Rightarrow> merkle_limits \<Rightarrow> bytes \<Rightarrow> merkle_error + merkle_node" where
  "decode_node env l payload =
     (if length payload > ml_max_node_bytes l then Inl (NodeTooLarge (length payload) (ml_max_node_bytes l))
      else (case me_from_json env payload of
              Inl m \<Rightarrow> Inl (InvalidNode m)
            | Inr n \<Rightarrow>
                (case validate_node_shallow env l n of
                   Inl e \<Rightarrow> Inl e
                 | Inr _ \<Rightarrow> if me_to_json env n \<noteq> payload then Inl NonCanonicalNode else Inr n)))"

definition load_node :: "'s merkle_env \<Rightarrow> merkle_limits \<Rightarrow> 's \<Rightarrow> cid \<Rightarrow> merkle_error + merkle_node" where
  "load_node env l s c =
     (if cid_codec c \<noteq> codec_merkle_node then Inl (InvalidCodec (cid_codec c))
      else (case me_get env s c of
              Inl m \<Rightarrow> Inl (ReadFailed c m)
            | Inr payload \<Rightarrow>
                if \<not> cid_verify (me_hash env) c payload then Inl (HashMismatch c) else decode_node env l payload))"

definition store_node :: "'s merkle_env \<Rightarrow> merkle_limits \<Rightarrow> merkle_node \<Rightarrow> 's \<Rightarrow> (merkle_error + cid) \<times> 's" where
  "store_node env l n s =
     (case validate_node_shallow env l n of
        Inl e \<Rightarrow> (Inl e, s)
      | Inr _ \<Rightarrow>
          (let payload = me_to_json env n
           in if length payload > ml_max_node_bytes l then (Inl (NodeTooLarge (length payload) (ml_max_node_bytes l)), s)
              else (let expected = cid_new (me_hash env) codec_merkle_node payload
                    in case me_put env codec_merkle_node payload s of
                         (Inl m, s') \<Rightarrow> (Inl (WriteFailed m), s')
                       | (Inr actual, s') \<Rightarrow>
                           if actual \<noteq> expected then (Inl (WrongStoredCid expected actual), s') else (Inr actual, s'))))"

definition merkle_empty_root :: "'s merkle_env \<Rightarrow> merkle_limits \<Rightarrow> 's \<Rightarrow> (merkle_error + cid) \<times> 's" where
  "merkle_empty_root env l s =
     (case limits_validate l of Inl e \<Rightarrow> (Inl e, s) | Inr _ \<Rightarrow> store_node env l (node_new env [] None []) s)"

text \<open>\<open>binary_search_by_key\<close> on children that are strictly sorted: the index, or where to insert.\<close>

definition child_search :: "8 word \<Rightarrow> node_child list \<Rightarrow> nat + nat" where
  "child_search edge cs =
     (let i = length (takeWhile (\<lambda>c. ch_edge c < edge) cs)
      in if i < length cs \<and> ch_edge (cs ! i) = edge then Inr i else Inl i)"

section \<open>Lookup\<close>

function get_loop ::
    "'s merkle_env \<Rightarrow> merkle_limits \<Rightarrow> 's \<Rightarrow> bytes \<Rightarrow> cid \<Rightarrow> nat \<Rightarrow> nat \<Rightarrow> merkle_error + merkle_value option" where
  "get_loop env l s key c offset depth =
     (if depth > ml_max_depth l then Inl (TooDeep (ml_max_depth l))
      else (case load_node env l s c of
              Inl e \<Rightarrow> Inl e
            | Inr n \<Rightarrow>
                (case node_prefix env n of
                   Inl e \<Rightarrow> Inl e
                 | Inr p \<Rightarrow>
                     if \<not> prefix p (drop offset key) then Inr None
                     else if offset + length p = length key then Inr (mn_value n)
                     else (case child_search (key ! (offset + length p)) (mn_children n) of
                             Inl _ \<Rightarrow> Inr None
                           | Inr i \<Rightarrow> get_loop env l s key (ch_cid (mn_children n ! i)) (offset + length p) (depth + 1)))))"
  by pat_completeness auto
termination by (relation "measure (\<lambda>(env, l, s, key, c, offset, depth). Suc (ml_max_depth l) - depth)") auto

declare get_loop.simps [simp del]

definition merkle_get ::
    "'s merkle_env \<Rightarrow> merkle_limits \<Rightarrow> cid \<Rightarrow> bytes \<Rightarrow> 's \<Rightarrow> merkle_error + merkle_value option" where
  "merkle_get env l root key s =
     (case limits_validate l of
        Inl e \<Rightarrow> Inl e
      | Inr _ \<Rightarrow> (case validate_key l key of Inl e \<Rightarrow> Inl e | Inr _ \<Rightarrow> get_loop env l s key root 0 0))"

section \<open>Insertion and deletion\<close>

definition normalize_and_store ::
    "'s merkle_env \<Rightarrow> merkle_limits \<Rightarrow> merkle_node \<Rightarrow> 's \<Rightarrow> (merkle_error + cid option) \<times> 's" where
  "normalize_and_store env l n s =
     (let put = (\<lambda>m. case store_node env l m s of (Inl e, s') \<Rightarrow> (Inl e, s') | (Inr c, s') \<Rightarrow> (Inr (Some c), s'))
      in if mn_value n = None \<and> mn_children n = [] then (Inr None, s)
         else if mn_value n = None \<and> length (mn_children n) = 1
         then (case load_node env l s (ch_cid (mn_children n ! 0)) of
                 Inl e \<Rightarrow> (Inl e, s)
               | Inr child \<Rightarrow>
                   (case node_prefix env n of
                      Inl e \<Rightarrow> (Inl e, s)
                    | Inr p \<Rightarrow>
                        (case node_prefix env child of
                           Inl e \<Rightarrow> (Inl e, s)
                         | Inr q \<Rightarrow> put (node_new env (p @ q) (mn_value child) (mn_children child)))))
         else put n)"

definition insert_child_sorted :: "node_child list \<Rightarrow> node_child \<Rightarrow> merkle_error + node_child list" where
  "insert_child_sorted cs c =
     (case child_search (ch_edge c) cs of
        Inr _ \<Rightarrow> Inl (InvalidNode ''duplicate child edge'')
      | Inl i \<Rightarrow> Inr (take i cs @ c # drop i cs))"

text \<open>The branch of \<open>insert_at\<close> that splits the prefix of a node after \<open>common\<close> bytes.\<close>

definition insert_splitting ::
    "'s merkle_env \<Rightarrow> merkle_limits \<Rightarrow> merkle_node \<Rightarrow> bytes \<Rightarrow> bytes \<Rightarrow> nat \<Rightarrow> merkle_value \<Rightarrow> 's \<Rightarrow> (merkle_error + cid) \<times> 's" where
  "insert_splitting env l n p remaining common v s =
     (case store_node env l (n\<lparr>mn_prefix_hex := me_hex env (drop common p)\<rparr>) s of
        (Inl e, s1) \<Rightarrow> (Inl e, s1)
      | (Inr existing, s1) \<Rightarrow>
          (let parent = node_new env (take common p) (if common = length remaining then Some v else None)
                          [\<lparr>ch_edge = hd (drop common p), ch_cid = existing\<rparr>]
           in if common < length remaining
              then (case store_node env l (node_new env (drop common remaining) (Some v) []) s1 of
                      (Inl e, s2) \<Rightarrow> (Inl e, s2)
                    | (Inr new, s2) \<Rightarrow>
                        (case insert_child_sorted (mn_children parent)
                                \<lparr>ch_edge = hd (drop common remaining), ch_cid = new\<rparr> of
                           Inl e \<Rightarrow> (Inl e, s2)
                         | Inr cs \<Rightarrow> store_node env l (parent\<lparr>mn_children := cs\<rparr>) s2))
              else store_node env l parent s1))"

definition insert_finish ::
    "'s merkle_env \<Rightarrow> merkle_limits \<Rightarrow> merkle_node \<Rightarrow> 's \<Rightarrow> (merkle_error + cid) \<times> 's" where
  "insert_finish env l n s =
     (case normalize_and_store env l n s of
        (Inl e, s') \<Rightarrow> (Inl e, s')
      | (Inr None, s') \<Rightarrow> (Inl (InvalidNode ''insert produced an empty tree''), s')
      | (Inr (Some c), s') \<Rightarrow> (Inr c, s'))"

function insert_at ::
    "'s merkle_env \<Rightarrow> merkle_limits \<Rightarrow> bytes \<Rightarrow> merkle_value \<Rightarrow> cid \<Rightarrow> nat \<Rightarrow> nat \<Rightarrow> 's \<Rightarrow> (merkle_error + cid) \<times> 's" where
  "insert_at env l key v c offset depth s =
     (if depth > ml_max_depth l \<or> offset > length key then (Inl (TooDeep (ml_max_depth l)), s)
      else (case validate_value l v of
              Inl e \<Rightarrow> (Inl e, s)
            | Inr _ \<Rightarrow>
                (case load_node env l s c of
                   Inl e \<Rightarrow> (Inl e, s)
                 | Inr n \<Rightarrow>
                     (case node_prefix env n of
                        Inl e \<Rightarrow> (Inl e, s)
                      | Inr p \<Rightarrow>
                          (let common = common_prefix_len p (drop offset key); next_offset = offset + length p; cs = mn_children n
                           in if common < length p then insert_splitting env l n p (drop offset key) common v s
                              else if next_offset = length key then store_node env l (n\<lparr>mn_value := Some v\<rparr>) s
                              else (case child_search (key ! next_offset) cs of
                                      Inr i \<Rightarrow>
                                        (case insert_at env l key v (ch_cid (cs ! i)) next_offset (depth + 1) s of
                                           (Inl e, s1) \<Rightarrow> (Inl e, s1)
                                         | (Inr c', s1) \<Rightarrow>
                                             insert_finish env l (n\<lparr>mn_children := cs[i := (cs ! i)\<lparr>ch_cid := c'\<rparr>]\<rparr>) s1)
                                    | Inl i \<Rightarrow>
                                        (case store_node env l (node_new env (drop next_offset key) (Some v) []) s of
                                           (Inl e, s1) \<Rightarrow> (Inl e, s1)
                                         | (Inr c', s1) \<Rightarrow>
                                             insert_finish env l (n\<lparr>mn_children :=
                                               take i cs @ \<lparr>ch_edge = key ! next_offset, ch_cid = c'\<rparr> # drop i cs\<rparr>) s1)))))))"
  by pat_completeness auto
termination by (relation "measure (\<lambda>(env, l, key, v, c, offset, depth, s). Suc (ml_max_depth l) - depth)") auto

declare insert_at.simps [simp del]

function delete_at ::
    "'s merkle_env \<Rightarrow> merkle_limits \<Rightarrow> bytes \<Rightarrow> cid \<Rightarrow> nat \<Rightarrow> nat \<Rightarrow> 's \<Rightarrow> (merkle_error + cid option) \<times> 's" where
  "delete_at env l key c offset depth s =
     (if depth > ml_max_depth l then (Inl (TooDeep (ml_max_depth l)), s)
      else (case load_node env l s c of
              Inl e \<Rightarrow> (Inl e, s)
            | Inr n \<Rightarrow>
                (case node_prefix env n of
                   Inl e \<Rightarrow> (Inl e, s)
                 | Inr p \<Rightarrow>
                     (let next_offset = offset + length p; cs = mn_children n
                      in if \<not> prefix p (drop offset key) then (Inr (Some c), s)
                         else if next_offset = length key
                         then (if mn_value n = None then (Inr (Some c), s)
                               else normalize_and_store env l (n\<lparr>mn_value := None\<rparr>) s)
                         else (case child_search (key ! next_offset) cs of
                                 Inl _ \<Rightarrow> (Inr (Some c), s)
                               | Inr i \<Rightarrow>
                                   (case delete_at env l key (ch_cid (cs ! i)) next_offset (depth + 1) s of
                                      (Inl e, s1) \<Rightarrow> (Inl e, s1)
                                    | (Inr (Some c'), s1) \<Rightarrow>
                                        normalize_and_store env l (n\<lparr>mn_children := cs[i := (cs ! i)\<lparr>ch_cid := c'\<rparr>]\<rparr>) s1
                                    | (Inr None, s1) \<Rightarrow>
                                        normalize_and_store env l (n\<lparr>mn_children := take i cs @ drop (i + 1) cs\<rparr>) s1))))))"
  by pat_completeness auto
termination by (relation "measure (\<lambda>(env, l, key, c, offset, depth, s). Suc (ml_max_depth l) - depth)") auto

declare delete_at.simps [simp del]

section \<open>Batches\<close>

fun validate_mutations :: "merkle_limits \<Rightarrow> bytes option \<Rightarrow> mutation list \<Rightarrow> merkle_error + unit" where
  "validate_mutations l previous [] = Inr ()"
| "validate_mutations l previous (m # ms) =
     (case validate_key l (mutation_key m) of
        Inl e \<Rightarrow> Inl e
      | Inr _ \<Rightarrow>
          (case (case m of Put _ v \<Rightarrow> validate_value l v | Delete _ \<Rightarrow> Inr ()) of
             Inl e \<Rightarrow> Inl e
           | Inr _ \<Rightarrow>
               if (case previous of None \<Rightarrow> False | Some k \<Rightarrow> k \<ge> mutation_key m) then Inl UnsortedMutations
               else validate_mutations l (Some (mutation_key m)) ms))"

definition apply_mutation ::
    "'s merkle_env \<Rightarrow> merkle_limits \<Rightarrow> mutation \<Rightarrow> cid \<Rightarrow> 's \<Rightarrow> (merkle_error + cid) \<times> 's" where
  "apply_mutation env l m root s =
     (case m of
        Put key v \<Rightarrow> insert_at env l key v root 0 0 s
      | Delete key \<Rightarrow>
          (case delete_at env l key root 0 0 s of
             (Inl e, s1) \<Rightarrow> (Inl e, s1)
           | (Inr (Some c), s1) \<Rightarrow> (Inr c, s1)
           | (Inr None, s1) \<Rightarrow> merkle_empty_root env l s1))"

fun apply_mutations ::
    "'s merkle_env \<Rightarrow> merkle_limits \<Rightarrow> mutation list \<Rightarrow> cid \<Rightarrow> 's \<Rightarrow> (merkle_error + cid) \<times> 's" where
  "apply_mutations env l [] root s = (Inr root, s)"
| "apply_mutations env l (m # ms) root s =
     (case apply_mutation env l m root s of
        (Inl e, s1) \<Rightarrow> (Inl e, s1)
      | (Inr root1, s1) \<Rightarrow> apply_mutations env l ms root1 s1)"

definition merkle_apply_batch ::
    "'s merkle_env \<Rightarrow> merkle_limits \<Rightarrow> cid \<Rightarrow> mutation list \<Rightarrow> 's \<Rightarrow> (merkle_error + cid) \<times> 's" where
  "merkle_apply_batch env l root ms s =
     (case limits_validate l of
        Inl e \<Rightarrow> (Inl e, s)
      | Inr _ \<Rightarrow>
          (case validate_mutations l None ms of
             Inl e \<Rightarrow> (Inl e, s)
           | Inr _ \<Rightarrow> (case load_node env l s root of Inl e \<Rightarrow> (Inl e, s) | Inr _ \<Rightarrow> apply_mutations env l ms root s)))"

section \<open>Bulk construction\<close>

definition common_prefix_for_entries :: "map_entry list \<Rightarrow> nat \<Rightarrow> nat" where
  "common_prefix_for_entries es offset = common_prefix_len (drop offset (fst (hd es))) (drop offset (fst (last es)))"

text \<open>\<open>build_groups\<close> is the loop over the groups of equal next byte; its check repeats the caller's.\<close>

function build_subtree ::
    "'s merkle_env \<Rightarrow> merkle_limits \<Rightarrow> map_entry list \<Rightarrow> nat \<Rightarrow> nat \<Rightarrow> 's \<Rightarrow> (merkle_error + cid) \<times> 's"
  and build_groups ::
    "'s merkle_env \<Rightarrow> merkle_limits \<Rightarrow> map_entry list \<Rightarrow> nat \<Rightarrow> nat \<Rightarrow> 's \<Rightarrow> (merkle_error + node_child list) \<times> 's" where
  "build_subtree env l es offset depth s =
     (if depth > ml_max_depth l then (Inl (TooDeep (ml_max_depth l)), s)
      else (let prefix_len = common_prefix_for_entries es offset;
                p = take prefix_len (drop offset (fst (hd es)));
                position = offset + prefix_len;
                here = length (fst (hd es)) = position
            in case build_groups env l (if here then tl es else es) position depth s of
                 (Inl e, s1) \<Rightarrow> (Inl e, s1)
               | (Inr cs, s1) \<Rightarrow> store_node env l (node_new env p (if here then Some (snd (hd es)) else None) cs) s1))"
| "build_groups env l [] position depth s = (Inr [], s)"
| "build_groups env l (x # es) position depth s =
     (if depth > ml_max_depth l then (Inl (TooDeep (ml_max_depth l)), s)
      else (let edge = fst x ! position;
                same = (\<lambda>y. length (fst y) > position \<and> fst y ! position = edge)
            in case build_subtree env l (x # takeWhile same es) position (depth + 1) s of
                 (Inl e, s1) \<Rightarrow> (Inl e, s1)
               | (Inr c, s1) \<Rightarrow>
                   (case build_groups env l (dropWhile same es) position depth s1 of
                      (Inl e, s2) \<Rightarrow> (Inl e, s2)
                    | (Inr cs, s2) \<Rightarrow> (Inr (\<lparr>ch_edge = edge, ch_cid = c\<rparr> # cs), s2))))"
  by pat_completeness auto
termination
  by (relation "measures [\<lambda>x. case x of Inl (env, l, es, offset, depth, s) \<Rightarrow> Suc (ml_max_depth l) - depth
                          | Inr (env, l, es, position, depth, s) \<Rightarrow> Suc (ml_max_depth l) - depth,
                        \<lambda>x. case x of Inl _ \<Rightarrow> 1 | Inr _ \<Rightarrow> 0,
                        \<lambda>x. case x of Inl _ \<Rightarrow> 0 | Inr (env, l, es, position, depth, s) \<Rightarrow> length es]")
     (auto simp: length_dropWhile_le less_Suc_eq_le)

declare build_subtree.simps [simp del] build_groups.simps [simp del]

fun validate_entries :: "merkle_limits \<Rightarrow> bytes option \<Rightarrow> map_entry list \<Rightarrow> merkle_error + unit" where
  "validate_entries l previous [] = Inr ()"
| "validate_entries l previous (x # es) =
     (case validate_key l (fst x) of
        Inl e \<Rightarrow> Inl e
      | Inr _ \<Rightarrow>
          (case validate_value l (snd x) of
             Inl e \<Rightarrow> Inl e
           | Inr _ \<Rightarrow>
               if (case previous of None \<Rightarrow> False | Some k \<Rightarrow> k \<ge> fst x) then Inl UnsortedMutations
               else validate_entries l (Some (fst x)) es))"

definition merkle_build_from_sorted ::
    "'s merkle_env \<Rightarrow> merkle_limits \<Rightarrow> map_entry list \<Rightarrow> 's \<Rightarrow> (merkle_error + cid) \<times> 's" where
  "merkle_build_from_sorted env l es s =
     (case limits_validate l of
        Inl e \<Rightarrow> (Inl e, s)
      | Inr _ \<Rightarrow>
          (case validate_entries l None es of
             Inl e \<Rightarrow> (Inl e, s)
           | Inr _ \<Rightarrow> if es = [] then merkle_empty_root env l s else build_subtree env l es 0 0 s))"

section \<open>Bulk lookup\<close>

text \<open>One lookup of \<open>get_many\<close>, with the nodes already fetched for the request.\<close>

function cached_loop ::
    "'s merkle_env \<Rightarrow> merkle_limits \<Rightarrow> 's \<Rightarrow> bytes \<Rightarrow> cid \<Rightarrow> nat \<Rightarrow> nat \<Rightarrow> (cid \<times> merkle_node) list
      \<Rightarrow> merkle_error + merkle_value option \<times> (cid \<times> merkle_node) list" where
  "cached_loop env l s key c offset depth cache =
     (if depth > ml_max_depth l then Inl (TooDeep (ml_max_depth l))
      else (case (case map_of cache c of
                    Some n \<Rightarrow> Inr (n, cache)
                  | None \<Rightarrow> (case load_node env l s c of Inl e \<Rightarrow> Inl e | Inr n \<Rightarrow> Inr (n, (c, n) # cache))) of
              Inl e \<Rightarrow> Inl e
            | Inr (n, cache1) \<Rightarrow>
                (case node_prefix env n of
                   Inl e \<Rightarrow> Inl e
                 | Inr p \<Rightarrow>
                     if \<not> prefix p (drop offset key) then Inr (None, cache1)
                     else if offset + length p = length key then Inr (mn_value n, cache1)
                     else (case child_search (key ! (offset + length p)) (mn_children n) of
                             Inl _ \<Rightarrow> Inr (None, cache1)
                           | Inr i \<Rightarrow> cached_loop env l s key (ch_cid (mn_children n ! i)) (offset + length p) (depth + 1) cache1))))"
  by pat_completeness auto
termination by (relation "measure (\<lambda>(env, l, s, key, c, offset, depth, cache). Suc (ml_max_depth l) - depth)") auto

declare cached_loop.simps [simp del]

fun validate_keys :: "merkle_limits \<Rightarrow> bytes list \<Rightarrow> merkle_error + unit" where
  "validate_keys l [] = Inr ()"
| "validate_keys l (k # ks) = (case validate_key l k of Inl e \<Rightarrow> Inl e | Inr _ \<Rightarrow> validate_keys l ks)"

fun get_each ::
    "'s merkle_env \<Rightarrow> merkle_limits \<Rightarrow> 's \<Rightarrow> cid \<Rightarrow> bytes list \<Rightarrow> (cid \<times> merkle_node) list
      \<Rightarrow> merkle_error + merkle_value option list \<times> (cid \<times> merkle_node) list" where
  "get_each env l s root [] cache = Inr ([], cache)"
| "get_each env l s root (k # ks) cache =
     (case cached_loop env l s k root 0 0 cache of
        Inl e \<Rightarrow> Inl e
      | Inr (v, cache1) \<Rightarrow>
          (case get_each env l s root ks cache1 of Inl e \<Rightarrow> Inl e | Inr (vs, cache2) \<Rightarrow> Inr (v # vs, cache2)))"

definition merkle_get_many ::
    "'s merkle_env \<Rightarrow> merkle_limits \<Rightarrow> cid \<Rightarrow> bytes list \<Rightarrow> 's \<Rightarrow> merkle_error + merkle_value option list \<times> nat" where
  "merkle_get_many env l root keys s =
     (case limits_validate l of
        Inl e \<Rightarrow> Inl e
      | Inr _ \<Rightarrow>
          if length keys > ml_max_scan_entries l then Inl (TooManyNodes (ml_max_scan_entries l))
          else (case validate_keys l keys of
                  Inl e \<Rightarrow> Inl e
                | Inr _ \<Rightarrow>
                    (case get_each env l s root keys [] of
                       Inl e \<Rightarrow> Inl e
                     | Inr (vs, cache) \<Rightarrow> Inr (vs, length cache))))"

section \<open>Scans\<close>

definition cursor_version :: nat where
  "cursor_version = 1"

definition key_matches :: "scan_query \<Rightarrow> bytes option \<Rightarrow> bytes \<Rightarrow> bool" where
  "key_matches q after key \<longleftrightarrow>
     (case after of None \<Rightarrow> True | Some a \<Rightarrow> a < key) \<and>
     (case sq_start q of None \<Rightarrow> True | Some k \<Rightarrow> k \<le> key) \<and>
     (case sq_end q of None \<Rightarrow> True | Some k \<Rightarrow> key < k) \<and>
     (case sq_prefix q of None \<Rightarrow> True | Some p \<Rightarrow> prefix p key)"

text \<open>The stack has its top at the head; the node itself comes before its children, which are in order.\<close>

function scan_nodes ::
    "'s merkle_env \<Rightarrow> merkle_limits \<Rightarrow> 's \<Rightarrow> scan_query \<Rightarrow> bytes option \<Rightarrow> (cid \<times> bytes \<times> nat) list
      \<Rightarrow> map_entry list \<Rightarrow> nat \<Rightarrow> merkle_error + map_entry list \<times> nat" where
  "scan_nodes env l s q after [] found nodes_read = Inr (found, nodes_read)"
| "scan_nodes env l s q after ((c, parent_key, depth) # stack) found nodes_read =
     (if depth > ml_max_depth l then Inl (TooDeep (ml_max_depth l))
      else if nodes_read + 1 > ml_max_scan_nodes l then Inl (TooManyNodes (ml_max_scan_nodes l))
      else (case load_node env l s c of
              Inl e \<Rightarrow> Inl e
            | Inr n \<Rightarrow>
                (case node_prefix env n of
                   Inl e \<Rightarrow> Inl e
                 | Inr p \<Rightarrow>
                     (let key = parent_key @ p;
                          found1 = (case mn_value n of
                                      None \<Rightarrow> found
                                    | Some v \<Rightarrow> if key_matches q after key then found @ [(key, v)] else found)
                      in if length found1 > sq_limit q \<and> length found1 > length found then Inr (found1, nodes_read + 1)
                         else scan_nodes env l s q after
                                (map (\<lambda>ch. (ch_cid ch, key, depth + 1)) (mn_children n) @ stack) found1 (nodes_read + 1)))))"
  by pat_completeness auto
termination
  by (relation "measure (\<lambda>(env, l, s, q, after, stack, found, nodes_read). Suc (ml_max_scan_nodes l) - nodes_read)") auto

declare scan_nodes.simps [simp del]

definition encode_optional :: "'s merkle_env \<Rightarrow> bytes option \<Rightarrow> string option" where
  "encode_optional env = map_option (me_hex env)"

definition validate_bound :: "merkle_limits \<Rightarrow> bytes option \<Rightarrow> merkle_error + unit" where
  "validate_bound l k = (case k of None \<Rightarrow> Inr () | Some k \<Rightarrow> validate_key l k)"

definition scan_validate :: "merkle_limits \<Rightarrow> scan_query \<Rightarrow> merkle_error + unit" where
  "scan_validate l q =
     (case limits_validate l of
        Inl e \<Rightarrow> Inl e
      | Inr _ \<Rightarrow>
          if sq_limit q = 0 \<or> sq_limit q > ml_max_scan_entries l then Inl (InvalidScanLimit (ml_max_scan_entries l))
          else if (case (sq_start q, sq_end q) of (Some a, Some b) \<Rightarrow> a \<ge> b | _ \<Rightarrow> False) then Inl InvalidScanRange
          else (case validate_bound l (sq_start q) of
                  Inl e \<Rightarrow> Inl e
                | Inr _ \<Rightarrow> (case validate_bound l (sq_end q) of
                    Inl e \<Rightarrow> Inl e
                  | Inr _ \<Rightarrow> validate_bound l (sq_prefix q))))"

definition encode_cursor :: "'s merkle_env \<Rightarrow> cursor_record \<Rightarrow> string" where
  "encode_cursor env cur = me_hex env (me_cursor_to_json env cur)"

definition decode_cursor :: "'s merkle_env \<Rightarrow> string \<Rightarrow> merkle_error + cursor_record" where
  "decode_cursor env text =
     (case me_unhex env text of
        Inl m \<Rightarrow> Inl (InvalidCursor m)
      | Inr bs \<Rightarrow>
          (case me_cursor_from_json env bs of
             Inl m \<Rightarrow> Inl (InvalidCursor m)
           | Inr cur \<Rightarrow>
               if me_cursor_to_json env cur \<noteq> bs then Inl (InvalidCursor ''non-canonical encoding'')
               else if cr_version cur \<noteq> cursor_version then Inl (InvalidCursor ''unsupported version'')
               else Inr cur))"

definition scan_after :: "'s merkle_env \<Rightarrow> cid \<Rightarrow> scan_query \<Rightarrow> merkle_error + bytes option" where
  "scan_after env root q =
     (case sq_cursor q of
        None \<Rightarrow> Inr None
      | Some text \<Rightarrow>
          (case decode_cursor env text of
             Inl e \<Rightarrow> Inl e
           | Inr cur \<Rightarrow>
               if cr_root cur \<noteq> root then Inl (CursorRootMismatch (cr_root cur) root)
               else if cr_start_hex cur \<noteq> encode_optional env (sq_start q) \<or> cr_end_hex cur \<noteq> encode_optional env (sq_end q) \<or>
                       cr_prefix_hex cur \<noteq> encode_optional env (sq_prefix q)
               then Inl CursorQueryMismatch
               else (case me_unhex env (cr_after_key_hex cur) of Inl m \<Rightarrow> Inl (InvalidCursor m) | Inr k \<Rightarrow> Inr (Some k))))"

definition next_cursor :: "'s merkle_env \<Rightarrow> cid \<Rightarrow> scan_query \<Rightarrow> bytes \<Rightarrow> string" where
  "next_cursor env root q key = encode_cursor env
     \<lparr>cr_version = cursor_version, cr_root = root, cr_after_key_hex = me_hex env key,
      cr_start_hex = encode_optional env (sq_start q), cr_end_hex = encode_optional env (sq_end q),
      cr_prefix_hex = encode_optional env (sq_prefix q)\<rparr>"

definition merkle_scan ::
    "'s merkle_env \<Rightarrow> merkle_limits \<Rightarrow> cid \<Rightarrow> scan_query \<Rightarrow> 's \<Rightarrow> merkle_error + scan_page" where
  "merkle_scan env l root q s =
     (case scan_validate l q of
        Inl e \<Rightarrow> Inl e
      | Inr _ \<Rightarrow>
          (case scan_after env root q of
             Inl e \<Rightarrow> Inl e
           | Inr after \<Rightarrow>
               (case scan_nodes env l s q after [(root, [], 0)] [] 0 of
                  Inl e \<Rightarrow> Inl e
                | Inr (found, nodes_read) \<Rightarrow>
                    (let has_more = length found > sq_limit q; entries = take (sq_limit q) found
                     in Inr \<lparr>sp_root = root, sp_entries = entries,
                             sp_next_cursor = (if has_more \<and> entries \<noteq> []
                                               then Some (next_cursor env root q (fst (last entries))) else None),
                             sp_nodes_read = nodes_read\<rparr>))))"

section \<open>Validation of a whole tree\<close>

fun check_children :: "'s merkle_env \<Rightarrow> merkle_limits \<Rightarrow> 's \<Rightarrow> node_child list \<Rightarrow> merkle_error + unit" where
  "check_children env l s [] = Inr ()"
| "check_children env l s (ch # cs) =
     (case load_node env l s (ch_cid ch) of
        Inl e \<Rightarrow> Inl e
      | Inr n \<Rightarrow>
          (case node_prefix env n of
             Inl e \<Rightarrow> Inl e
           | Inr p \<Rightarrow>
               if p = [] \<or> hd p \<noteq> ch_edge ch then Inl (InvalidNode ''child edge does not match child prefix'')
               else check_children env l s cs))"

function validate_loop ::
    "'s merkle_env \<Rightarrow> merkle_limits \<Rightarrow> 's \<Rightarrow> (cid \<times> bytes \<times> nat \<times> bool) list \<Rightarrow> cid list \<Rightarrow> nat \<Rightarrow> nat
      \<Rightarrow> merkle_error + validation_report" where
  "validate_loop env l s [] seen entries max_depth = Inr \<lparr>vr_nodes = length seen, vr_entries = entries, vr_max_depth = max_depth\<rparr>"
| "validate_loop env l s ((c, parent_key, depth, is_root) # stack) seen entries max_depth =
     (if depth > ml_max_depth l then Inl (TooDeep (ml_max_depth l))
      else if c \<in> set seen then Inl (DuplicateNode c)
      else if length (c # seen) > ml_max_validation_nodes l then Inl (TooManyNodes (ml_max_validation_nodes l))
      else (case load_node env l s c of
              Inl e \<Rightarrow> Inl e
            | Inr n \<Rightarrow>
                (case node_prefix env n of
                   Inl e \<Rightarrow> Inl e
                 | Inr p \<Rightarrow>
                     if \<not> is_root \<and> p = [] then Inl (InvalidNode ''non-root node has an empty prefix'')
                     else if mn_value n = None \<and> length (mn_children n) = 1 then Inl (InvalidNode ''compressible single-child node'')
                     else if \<not> is_root \<and> mn_value n = None \<and> mn_children n = [] then Inl (InvalidNode ''empty non-root node'')
                     else (let key = parent_key @ p
                           in case validate_key l key of
                                Inl e \<Rightarrow> Inl e
                              | Inr _ \<Rightarrow>
                                  (case check_children env l s (rev (mn_children n)) of
                                     Inl e \<Rightarrow> Inl e
                                   | Inr _ \<Rightarrow>
                                       validate_loop env l s
                                         (map (\<lambda>ch. (ch_cid ch, key, depth + 1, False)) (mn_children n) @ stack) (c # seen)
                                         (if mn_value n = None then entries else entries + 1) (max max_depth depth))))))"
  by pat_completeness auto
termination
  by (relation "measure (\<lambda>(env, l, s, stack, seen, entries, max_depth). Suc (ml_max_validation_nodes l) - length seen)") auto

declare validate_loop.simps [simp del]

definition merkle_validate_tree :: "'s merkle_env \<Rightarrow> merkle_limits \<Rightarrow> cid \<Rightarrow> 's \<Rightarrow> merkle_error + validation_report" where
  "merkle_validate_tree env l root s =
     (case limits_validate l of Inl e \<Rightarrow> Inl e | Inr _ \<Rightarrow> validate_loop env l s [(root, [], 0, True)] [] 0 0)"

section \<open>Links for graph traversal\<close>

text \<open>\<open>MerkleNodeCodecHandler::links\<close>: the children of a node and then the block of its value; the error is wrapped by the caller's type.\<close>

definition merkle_links :: "'s merkle_env \<Rightarrow> bytes \<Rightarrow> merkle_error + cid list" where
  "merkle_links env payload =
     (case decode_node env merkle_limits_default payload of
        Inl e \<Rightarrow> Inl e
      | Inr n \<Rightarrow> Inr (map ch_cid (mn_children n) @ (case mn_value n of None \<Rightarrow> [] | Some v \<Rightarrow> [mv_cid v])))"

end
