(* ===== verification/Merkle_Refinement.thy ===== *)
theory Merkle_Refinement
  imports Merkle_Map
begin

text \<open>
  The nodes in the store represent the compressed radix trees of \<open>Radix_Tree\<close>, and lookup,
  insertion, deletion and bulk construction on nodes implement the operations on trees. The laws
  of the parameters (\<open>hex\<close>, \<open>serde_json\<close>, the store) are collected in \<open>env_laws\<close>.
\<close>

section \<open>What the parameters promise\<close>

definition env_laws :: "'s merkle_env \<Rightarrow> bool" where
  "env_laws env \<longleftrightarrow>
     (\<forall>p. me_unhex env (me_hex env p) = Inr p) \<and>
     (\<forall>n. me_from_json env (me_to_json env n) = Inr n) \<and>
     (\<forall>cur. me_cursor_from_json env (me_cursor_to_json env cur) = Inr cur) \<and>
     (\<forall>k p s c s'. me_put env k p s = (Inr c, s') \<longrightarrow> me_get env s' c = Inr p) \<and>
     (\<forall>k p s r s' c q. me_put env k p s = (r, s') \<longrightarrow> me_get env s c = Inr q \<longrightarrow> me_get env s' c = Inr q)"

lemma env_lawsD:
  assumes "env_laws env"
  shows "me_unhex env (me_hex env p) = Inr p" "me_from_json env (me_to_json env n) = Inr n"
    "me_cursor_from_json env (me_cursor_to_json env cur) = Inr cur"
    "me_put env k p s = (Inr c, s') \<Longrightarrow> me_get env s' c = Inr p"
    "me_put env k p s = (r, s') \<Longrightarrow> me_get env s d = Inr q \<Longrightarrow> me_get env s' d = Inr q"
  using assms unfolding env_laws_def by blast+

definition extends :: "'s merkle_env \<Rightarrow> 's \<Rightarrow> 's \<Rightarrow> bool" where
  "extends env s s' \<longleftrightarrow> (\<forall>c q. me_get env s c = Inr q \<longrightarrow> me_get env s' c = Inr q)"

lemma extends_refl [simp]: "extends env s s"
  by (simp add: extends_def)

lemma extends_trans: "extends env s s' \<Longrightarrow> extends env s' s'' \<Longrightarrow> extends env s s''"
  by (simp add: extends_def)

section \<open>Nodes\<close>

lemma load_nodeD:
  assumes "load_node env l s c = Inr n"
  shows "c = cid_new (me_hash env) codec_merkle_node (me_to_json env n)" "validate_node_shallow env l n = Inr ()"
    "me_get env s c = Inr (me_to_json env n)"
  using assms
  by (auto simp: load_node_def decode_node_def cid_new_def cid_verify_def split: if_splits sum.splits)

lemma load_extends: "extends env s s' \<Longrightarrow> load_node env l s c = Inr n \<Longrightarrow> load_node env l s' c = Inr n"
  unfolding load_node_def extends_def by (auto split: if_splits sum.splits)

lemma store_node_extends: "env_laws env \<Longrightarrow> store_node env l n s = (r, s') \<Longrightarrow> extends env s s'"
  unfolding store_node_def extends_def Let_def
  by (auto split: if_splits sum.splits prod.splits dest: env_lawsD(5))

lemma store_nodeD:
  assumes "store_node env l n s = (Inr c, s')"
  shows "validate_node_shallow env l n = Inr ()" "length (me_to_json env n) \<le> ml_max_node_bytes l"
    "c = cid_new (me_hash env) codec_merkle_node (me_to_json env n)"
    "me_put env codec_merkle_node (me_to_json env n) s = (Inr c, s')"
  using assms by (auto simp: store_node_def Let_def split: if_splits sum.splits prod.splits)

lemma store_node_load:
  assumes "env_laws env" "store_node env l n s = (Inr c, s')"
  shows "load_node env l s' c = Inr n"
proof -
  note d = store_nodeD [OF assms(2)]
  have "me_get env s' c = Inr (me_to_json env n)" using env_lawsD(4) [OF assms(1) d(4)] .
  then show ?thesis
    using d(1-3) env_lawsD(2) [OF assms(1), of n]
    by (simp add: load_node_def decode_node_def cid_new_def cid_verify_def)
qed

lemma validate_shallowD:
  assumes "validate_node_shallow env l n = Inr ()"
  shows "mn_type n = node_type" "mn_version n = node_version" "\<exists>p. node_prefix env n = Inr p"
  using assms by (auto simp: validate_node_shallow_def split: if_splits sum.splits)

lemma node_prefix_hex: "env_laws env \<Longrightarrow> mn_prefix_hex n = me_hex env p \<Longrightarrow> node_prefix env n = Inr p"
  by (simp add: node_prefix_def env_lawsD)

section \<open>Trees in the store\<close>

fun rep :: "'s merkle_env \<Rightarrow> merkle_limits \<Rightarrow> 's \<Rightarrow> cid \<Rightarrow> merkle_value rtree \<Rightarrow> bool"
  and rep_list :: "'s merkle_env \<Rightarrow> merkle_limits \<Rightarrow> 's \<Rightarrow> node_child list \<Rightarrow> (8 word \<times> merkle_value rtree) list \<Rightarrow> bool" where
  "rep env l s c (RNode p v cs) \<longleftrightarrow>
     (\<exists>n. load_node env l s c = Inr n \<and> mn_prefix_hex n = me_hex env p \<and> mn_value n = v \<and> rep_list env l s (mn_children n) cs)"
| "rep_list env l s chs [] \<longleftrightarrow> chs = []"
| "rep_list env l s chs ((e, t) # cs) \<longleftrightarrow>
     (\<exists>ch rest. chs = ch # rest \<and> ch_edge ch = e \<and> rep env l s (ch_cid ch) t \<and> rep_list env l s rest cs)"

lemma rep_extends:
  fixes t :: "merkle_value rtree" and cs :: "(8 word \<times> merkle_value rtree) list"
  assumes "extends env s s'"
  shows "rep env l s c t \<Longrightarrow> rep env l s' c t"
    and "rep_list env l s chs cs \<Longrightarrow> rep_list env l s' chs cs"
proof (induction t and cs arbitrary: c and chs rule: rt_ok_rt_ok_list.induct)
  case (1 p v cs)
  then show ?case using load_extends [OF assms] by fastforce
next
  case (3 e t cs)
  then show ?case by fastforce
qed simp

lemma rep_unique:
  fixes t :: "merkle_value rtree" and cs :: "(8 word \<times> merkle_value rtree) list"
  shows "rep env l s c t \<Longrightarrow> rep env l s' c' t \<Longrightarrow> c = c'"
    and "rep_list env l s chs cs \<Longrightarrow> rep_list env l s' chs' cs \<Longrightarrow> chs = chs'"
proof (induction t and cs arbitrary: c c' and chs chs' rule: rt_ok_rt_ok_list.induct)
  case (1 p v cs)
  obtain n where n: "load_node env l s c = Inr n" "mn_prefix_hex n = me_hex env p" "mn_value n = v" "rep_list env l s (mn_children n) cs"
    using "1.prems"(1) by auto
  obtain n' where n': "load_node env l s' c' = Inr n'" "mn_prefix_hex n' = me_hex env p" "mn_value n' = v" "rep_list env l s' (mn_children n') cs"
    using "1.prems"(2) by auto
  have "mn_children n = mn_children n'" using "1.IH" n(4) n'(4) by blast
  moreover have "mn_type n = mn_type n'" "mn_version n = mn_version n'"
    using validate_shallowD(1,2) load_nodeD(2) n(1) n'(1) by metis+
  ultimately have "n = n'" using n(2,3) n'(2,3) by (intro merkle_node.equality) simp_all
  then show ?case using load_nodeD(1) [OF n(1)] load_nodeD(1) [OF n'(1)] by simp
next
  case (3 e t cs)
  then show ?case by (fastforce intro: node_child.equality)
qed simp

lemma rep_prefix:
  assumes "env_laws env" "rep env l s c t"
  obtains n where "load_node env l s c = Inr n" "node_prefix env n = Inr (rt_prefix t)" "mn_prefix_hex n = me_hex env (rt_prefix t)"
    "mn_value n = rt_value t" "rep_list env l s (mn_children n) (rt_children t)"
  using assms(2) node_prefix_hex [OF assms(1)] by (cases t) auto

lemma rep_stored:
  assumes "env_laws env" "store_node env l n s = (Inr c, s')" "mn_prefix_hex n = me_hex env p" "mn_value n = v"
    "rep_list env l s (mn_children n) cs"
  shows "extends env s s' \<and> rep env l s' c (RNode p v cs)"
  using store_node_load [OF assms(1,2)] store_node_extends [OF assms(1,2)] rep_extends(2) [OF _ assms(5)] assms(3,4) by auto

lemma child_search_Nil [simp]: "child_search e [] = Inl 0"
  by (simp add: child_search_def)

lemma child_search_Cons: "child_search e (ch # chs) =
    (if ch_edge ch < e then (case child_search e chs of Inl i \<Rightarrow> Inl (Suc i) | Inr i \<Rightarrow> Inr (Suc i))
     else if ch_edge ch = e then Inr 0 else Inl 0)"
  by (auto simp: child_search_def)

section \<open>Children\<close>

lemma rep_list_lookup:
  assumes "rep_list env l s chs cs" "rt_ok_list cs" "child_search (hd key) chs = Inr i"
  shows "\<exists>t. i < length chs \<and> rep env l s (ch_cid (chs ! i)) t \<and> rt_ok t \<and> prefix [hd key] (rt_prefix t) \<and>
    t_get_list cs key = t_get t key \<and> hd key \<in> fst ` set cs \<and>
    (\<forall>s' c' v. extends env s s' \<longrightarrow> rep env l s' c' (t_insert key v t) \<longrightarrow>
       rep_list env l s' (chs[i := (chs ! i)\<lparr>ch_cid := c'\<rparr>]) (t_insert_list key v cs)) \<and>
    (\<forall>s' c' t'. extends env s s' \<longrightarrow> t_delete key t = Some t' \<longrightarrow> rep env l s' c' t' \<longrightarrow>
       rep_list env l s' (chs[i := (chs ! i)\<lparr>ch_cid := c'\<rparr>]) (t_delete_list key cs)) \<and>
    (\<forall>s'. extends env s s' \<longrightarrow> t_delete key t = None \<longrightarrow> rep_list env l s' (take i chs @ drop (Suc i) chs) (t_delete_list key cs))"
  using assms
proof (induction cs arbitrary: chs i)
  case (Cons et cs)
  obtain e t where et: "et = (e, t)" by (cases et)
  obtain ch rest where ch: "chs = ch # rest" "ch_edge ch = e" "rep env l s (ch_cid ch) t" "rep_list env l s rest cs"
    using Cons.prems(1) by (auto simp: et)
  have mono: "rep_list env l s' rest cs" "rep env l s' (ch_cid ch) t" if "extends env s s'" for s'
    using rep_extends [OF that] ch by blast+
  show ?case
  proof (cases "e = hd key")
    case True
    then have "i = 0" using Cons.prems(3) ch by (simp add: child_search_Cons)
    then show ?thesis using True Cons.prems(2) ch mono by (intro exI [of _ t]) (auto simp: et)
  next
    case False
    then have lt: "e < hd key" and "\<exists>j. i = Suc j \<and> child_search (hd key) rest = Inr j"
      using Cons.prems(3) ch by (auto simp: child_search_Cons split: if_splits sum.splits)
    then obtain j where j: "i = Suc j" "child_search (hd key) rest = Inr j" by blast
    have ok: "rt_ok_list cs" using Cons.prems(2) by (simp add: et)
    obtain u where u: "j < length rest" "rep env l s (ch_cid (rest ! j)) u" "rt_ok u" "prefix [hd key] (rt_prefix u)"
      "t_get_list cs key = t_get u key" "hd key \<in> fst ` set cs"
      "\<And>s' c' v. extends env s s' \<Longrightarrow> rep env l s' c' (t_insert key v u) \<Longrightarrow>
         rep_list env l s' (rest[j := (rest ! j)\<lparr>ch_cid := c'\<rparr>]) (t_insert_list key v cs)"
      "\<And>s' c' t'. extends env s s' \<Longrightarrow> t_delete key u = Some t' \<Longrightarrow> rep env l s' c' t' \<Longrightarrow>
         rep_list env l s' (rest[j := (rest ! j)\<lparr>ch_cid := c'\<rparr>]) (t_delete_list key cs)"
      "\<And>s'. extends env s s' \<Longrightarrow> t_delete key u = None \<Longrightarrow> rep_list env l s' (take j rest @ drop (Suc j) rest) (t_delete_list key cs)"
      using Cons.IH [OF ch(4) ok j(2)] by blast
    show ?thesis
      using lt False order_less_not_sym [OF lt] u mono(2) ch(2) by (intro exI [of _ u]) (simp add: et ch(1) j(1))
  qed
qed simp

lemma rep_list_missing:
  assumes "rep_list env l s chs cs" "child_search (hd key) chs = Inl i" "rt_ok_list cs"
  shows "t_get_list cs key = None" "hd key \<notin> fst ` set cs"
    "extends env s s' \<Longrightarrow> rep env l s' c' (RNode key (Some v) []) \<Longrightarrow>
       rep_list env l s' (take i chs @ \<lparr>ch_edge = hd key, ch_cid = c'\<rparr> # drop i chs) (t_insert_list key v cs)"
proof -
  have "hd key \<notin> fst ` set cs \<and> (extends env s s' \<longrightarrow> rep env l s' c' (RNode key (Some v) []) \<longrightarrow>
       rep_list env l s' (take i chs @ \<lparr>ch_edge = hd key, ch_cid = c'\<rparr> # drop i chs) (t_insert_list key v cs))"
    using assms
  proof (induction cs arbitrary: chs i)
    case (Cons et cs)
    obtain e t where et: "et = (e, t)" by (cases et)
    obtain ch rest where ch: "chs = ch # rest" "ch_edge ch = e" "rep env l s (ch_cid ch) t" "rep_list env l s rest cs"
      using Cons.prems(1) by (auto simp: et)
    have mono: "rep_list env l s' rest cs" "rep env l s' (ch_cid ch) t" if "extends env s s'"
      using rep_extends [OF that] ch by blast+
    have ok: "rt_ok_list cs" "\<forall>x \<in> fst ` set cs. e < x" using Cons.prems(3) unfolding et rt_ok_list.simps by blast+
    show ?case
    proof (cases "e < hd key")
      case True
      then obtain j where j: "i = Suc j" "child_search (hd key) rest = Inl j"
        using Cons.prems(2) ch by (auto simp: child_search_Cons split: sum.splits)
      show ?thesis using Cons.IH [OF ch(4) j(2) ok(1)] True order_less_not_sym [OF True] mono(2) ch(2) by (simp add: et ch(1) j(1))
    next
      case False
      then have "hd key < e" "i = 0"
        using Cons.prems(2) ch by (auto simp: child_search_Cons split: if_splits)
      moreover have "hd key \<notin> fst ` set cs" using \<open>hd key < e\<close> ok(2) by (meson order_less_asym)
      ultimately show ?thesis using ch mono by (simp add: et del: rep.simps)
    qed
  qed simp
  then show "hd key \<notin> fst ` set cs"
    "extends env s s' \<Longrightarrow> rep env l s' c' (RNode key (Some v) []) \<Longrightarrow>
       rep_list env l s' (take i chs @ \<lparr>ch_edge = hd key, ch_cid = c'\<rparr> # drop i chs) (t_insert_list key v cs)" by blast+
  then show "t_get_list cs key = None" by (simp add: get_list_none)
qed

lemma rep_list_empty: "rep_list env l s chs cs \<Longrightarrow> chs = [] \<longleftrightarrow> cs = []"
  by (cases cs) auto

lemma rep_list_length: "rep_list env l s chs cs \<Longrightarrow> length chs = length cs"
proof (induction cs arbitrary: chs)
  case (Cons et cs)
  then show ?case by (cases et) auto
qed simp

section \<open>Lookup\<close>

lemma drop_nonempty: "offset + n < length key \<Longrightarrow> drop n (drop offset key) = key ! (offset + n) # drop (Suc (offset + n)) key"
  by (simp add: add.commute Cons_nth_drop_Suc)

lemma prefix_drop_le: "prefix p (drop offset key) \<Longrightarrow> offset \<le> length key \<Longrightarrow> offset + length p \<le> length key"
  using prefix_length_le [of p "drop offset key"] by simp

text \<open>A lookup succeeds when the depth limit admits the rest of the key after the node's prefix.\<close>

lemma get_loop_rep:
  assumes "env_laws env" "rep env l s c t" "rt_ok_list (rt_children t)" "offset \<le> length key" "depth \<le> ml_max_depth l"
    "depth + (length key - offset - length (rt_prefix t)) \<le> ml_max_depth l"
  shows "get_loop env l s key c offset depth = Inr (t_get t (drop offset key))"
  using assms(2-)
proof (induction "Suc (ml_max_depth l) - depth" arbitrary: c t offset depth rule: less_induct)
  case less
  let ?p = "rt_prefix t" let ?next = "offset + length ?p"
  obtain n where n: "load_node env l s c = Inr n" "node_prefix env n = Inr ?p" "mn_value n = rt_value t"
      "rep_list env l s (mn_children n) (rt_children t)"
    using rep_prefix [OF assms(1) less.prems(1)] by blast
  obtain v cs where t: "t = RNode ?p v cs" by (cases t) auto
  have v: "rt_value t = v" "rt_children t = cs" using t by (metis rtree.sel)+
  note unfold = get_loop.simps [of env l s key c offset depth]
  show ?case
  proof (cases "prefix ?p (drop offset key) \<and> ?next < length key")
    case True
    let ?rest = "drop ?next key"
    have rest: "drop (length ?p) (drop offset key) = ?rest" "?rest = key ! ?next # drop (Suc ?next) key" "hd ?rest = key ! ?next"
      using True drop_nonempty [of offset "length ?p" key] by (simp_all add: add.commute hd_drop_conv_nth)
    have get: "t_get t (drop offset key) = t_get_list cs ?rest"
      using True rest t by (metis list.simps(5) t_get.simps)
    show ?thesis
    proof (cases "child_search (key ! ?next) (mn_children n)")
      case (Inl i)
      then have "t_get_list cs ?rest = None"
        using rep_list_missing(1) [OF n(4), of ?rest i] rest(3) less.prems(2) v by simp
      then show ?thesis using unfold n True Inl less.prems(4) get by simp
    next
      case (Inr i)
      then obtain u where u: "rep env l s (ch_cid (mn_children n ! i)) u" "rt_ok u" "prefix [key ! ?next] (rt_prefix u)"
          "t_get_list cs ?rest = t_get u ?rest"
        using rep_list_lookup [OF n(4), of ?rest i] rest(3) less.prems(2) v by auto
      have len: "1 \<le> length (rt_prefix u)" using u(3) prefix_length_le by fastforce
      have ok: "rt_ok_list (rt_children u)" using u(2) by (cases u) simp
      have "get_loop env l s key (ch_cid (mn_children n ! i)) ?next (depth + 1) = Inr (t_get u (drop ?next key))"
      proof (rule less.hyps)
        show "Suc (ml_max_depth l) - (depth + 1) < Suc (ml_max_depth l) - depth" using less.prems(4) by simp
        show "depth + 1 \<le> ml_max_depth l" using less.prems(5) True by linarith
        show "depth + 1 + (length key - ?next - length (rt_prefix u)) \<le> ml_max_depth l"
          using less.prems(5) True len by linarith
      qed (use u(1) ok True in simp_all)
      then show ?thesis using unfold n True Inr less.prems(4) get u(4) by simp
    qed
  next
    case False
    have "?next = length key" if "prefix ?p (drop offset key)"
      using False that prefix_drop_le [OF that less.prems(3)] by simp
    moreover have "t_get t (drop offset key) = (if prefix ?p (drop offset key) then rt_value t else None)"
    proof (cases "prefix ?p (drop offset key)")
      case True
      then have "drop (length ?p) (drop offset key) = []" using False by simp
      then show ?thesis using True t v(1) by (metis list.simps(4) t_get.simps)
    qed (simp add: get_off_prefix)
    ultimately show ?thesis using unfold n less.prems(4) by auto
  qed
qed

section \<open>Normalisation\<close>

lemma normalize_extends:
  assumes "env_laws env" "normalize_and_store env l n s = (r, s')"
  shows "extends env s s'"
  using assms(2) store_node_extends [OF assms(1)]
  by (fastforce simp: normalize_and_store_def Let_def split: if_splits sum.splits prod.splits)

lemma normalize_rep:
  assumes "env_laws env" "normalize_and_store env l n s = (Inr r, s')" "mn_prefix_hex n = me_hex env p" "mn_value n = v"
    "rep_list env l s (mn_children n) cs"
  shows "case r of None \<Rightarrow> t_norm_opt (RNode p v cs) = None
    | Some c \<Rightarrow> \<exists>t. t_norm_opt (RNode p v cs) = Some t \<and> rep env l s' c t"
proof (cases "v = None \<and> length cs = 1")
  case True
  then obtain e u where cs: "cs = [(e, u)]" by (metis One_nat_def length_0_conv length_Suc_conv surj_pair)
  obtain ch where ch: "mn_children n = [ch]" "rep env l s (ch_cid ch) u" using assms(5) cs by auto
  obtain q w ds where u: "u = RNode q w ds" by (cases u)
  obtain m where m: "load_node env l s (ch_cid ch) = Inr m" "node_prefix env m = Inr q" "mn_value m = w" "rep_list env l s (mn_children m) ds"
    using rep_prefix [OF assms(1) ch(2)] u by auto
  have "node_prefix env n = Inr p" using node_prefix_hex [OF assms(1,3)] .
  then obtain c where c: "r = Some c" "store_node env l (node_new env (p @ q) w (mn_children m)) s = (Inr c, s')"
    using assms(2,4) True ch(1) m(1-3) by (auto simp: normalize_and_store_def Let_def split: prod.splits sum.splits)
  have "rep env l s' c (RNode (p @ q) w ds)"
    using rep_stored [OF assms(1) c(2), of "p @ q" w ds] m(4) by (simp add: node_new_def)
  then show ?thesis using c(1) True by (simp add: t_norm_opt_def cs u)
next
  case False
  have len: "length (mn_children n) = length cs" using rep_list_length [OF assms(5)] .
  show ?thesis
  proof (cases "v = None \<and> cs = []")
    case True
    then show ?thesis using assms(2,4) len by (auto simp: normalize_and_store_def t_norm_opt_def)
  next
    case ne: False
    then obtain c where c: "r = Some c" "store_node env l n s = (Inr c, s')"
      using assms(2,4) False len by (auto simp: normalize_and_store_def Let_def split: prod.splits sum.splits if_splits)
    have "rep env l s' c (RNode p v cs)" using rep_stored [OF assms(1) c(2) assms(3-5)] by blast
    moreover have "t_norm (RNode p v cs) = RNode p v cs"
      using False by (cases "RNode p v cs" rule: t_norm.cases) auto
    ultimately show ?thesis using c(1) ne by (auto simp: t_norm_opt_def)
  qed
qed

lemma insert_finish_rep:
  assumes "env_laws env" "insert_finish env l n s = (Inr c, s')" "mn_prefix_hex n = me_hex env p" "mn_value n = v"
    "rep_list env l s (mn_children n) cs"
  shows "extends env s s' \<and> rep env l s' c (t_norm (RNode p v cs))"
proof -
  have n: "normalize_and_store env l n s = (Inr (Some c), s')"
    using assms(2) by (auto simp: insert_finish_def split: prod.splits sum.splits option.splits)
  obtain t where "t_norm_opt (RNode p v cs) = Some t" "rep env l s' c t"
    using normalize_rep [OF assms(1) n assms(3-5)] by auto
  then show ?thesis using normalize_extends [OF assms(1) n] by (auto simp: t_norm_opt_def split: if_splits)
qed

lemma insert_finish_extends:
  assumes "env_laws env" "insert_finish env l n s = (r, s')"
  shows "extends env s s'"
  using assms(2) normalize_extends [OF assms(1)]
  by (fastforce simp: insert_finish_def split: prod.splits sum.splits option.splits)

section \<open>Insertion\<close>

lemma store_snd: "env_laws env \<Longrightarrow> extends env s (snd (store_node env l n s))"
  using store_node_extends [of env l n s] by (metis prod.collapse)

lemma insert_splitting_extends:
  assumes "env_laws env"
  shows "extends env s (snd (insert_splitting env l n p rest k v s))"
proof -
  obtain r1 s1 where 1: "store_node env l (n\<lparr>mn_prefix_hex := me_hex env (drop k p)\<rparr>) s = (r1, s1)" by fastforce
  obtain r2 s2 where 2: "store_node env l (node_new env (drop k rest) (Some v) []) s1 = (r2, s2)" by fastforce
  have "extends env s s1" "extends env s1 s2" using store_node_extends [OF assms] 1 2 by blast+
  moreover have "extends env s1 (snd (store_node env l m s1))" "extends env s2 (snd (store_node env l m s2))" for m
    using store_snd [OF assms] by blast+
  ultimately show ?thesis
    unfolding insert_splitting_def 1 Let_def
    by (cases r1; cases r2) (simp_all add: 2 split: sum.split, auto intro: extends_trans)
qed

lemma insert_splitting_rep:
  assumes "env_laws env" "insert_splitting env l n (x @ a # p) (x @ rest) (length x) v s = (Inr c, s')"
    "mn_value n = w" "rep_list env l s (mn_children n) cs" "rest = [] \<or> hd rest \<noteq> a"
  shows "rep env l s' c (t_insert (x @ rest) v (RNode (x @ a # p) w cs))"
proof -
  let ?old = "n\<lparr>mn_prefix_hex := me_hex env (a # p)\<rparr>"
  obtain d s1 where d: "store_node env l ?old s = (Inr d, s1)"
    using assms(2) by (auto simp: insert_splitting_def split: prod.splits sum.splits)
  have r1: "extends env s s1" "rep env l s1 d (RNode (a # p) w cs)"
    using rep_stored [OF assms(1) d, of "a # p" w cs] assms(3,4) by (simp_all del: rep.simps)
  note split = insert_split [OF assms(5), of x v p w cs]
  show ?thesis
  proof (cases "rest = []")
    case True
    then have "store_node env l (node_new env x (Some v) [\<lparr>ch_edge = a, ch_cid = d\<rparr>]) s1 = (Inr c, s')"
      using assms(2) d by (simp add: insert_splitting_def)
    from rep_stored [OF assms(1) this, of x "Some v" "[(a, RNode (a # p) w cs)]"] show ?thesis
      using r1(2) True split by (simp add: node_new_def del: rep.simps)
  next
    case False
    then have ne: "hd rest \<noteq> a" using assms(5) by simp
    let ?leaf = "node_new env rest (Some v) []"
    define kids where "kids f = (if hd rest < a then [\<lparr>ch_edge = hd rest, ch_cid = f\<rparr>, \<lparr>ch_edge = a, ch_cid = d\<rparr>]
                 else [\<lparr>ch_edge = a, ch_cid = d\<rparr>, \<lparr>ch_edge = hd rest, ch_cid = f\<rparr>])" for f
    have ins: "insert_child_sorted [\<lparr>ch_edge = a, ch_cid = d\<rparr>] \<lparr>ch_edge = hd rest, ch_cid = f\<rparr> = Inr (kids f)" for f
      using ne by (auto simp: insert_child_sorted_def child_search_Cons kids_def)
    obtain f s2 where f: "store_node env l ?leaf s1 = (Inr f, s2)"
        "store_node env l (node_new env x None (kids f)) s2 = (Inr c, s')"
      using assms(2) d False ins
      by (auto simp: insert_splitting_def Let_def node_new_def split: prod.splits sum.splits)
    have r2: "extends env s1 s2" "rep env l s2 f (RNode rest (Some v) [])"
      using rep_stored [OF assms(1) f(1), of rest "Some v" "[]"] by (simp_all add: node_new_def del: rep.simps)
    have "rep env l s2 d (RNode (a # p) w cs)" using rep_extends(1) [OF r2(1) r1(2)] .
    then have "rep_list env l s2 (kids f) (t_pair (hd rest, RNode rest (Some v) []) (a, RNode (a # p) w cs))"
      using r2(2) by (simp add: t_pair_def kids_def del: rep.simps)
    from rep_stored [OF assms(1) f(2), of x None] this show ?thesis
      using False split by (simp add: node_new_def del: rep.simps)
  qed
qed

lemma extends_bind:
  assumes "extends env s (snd x)" "\<And>c s1. x = (Inr c, s1) \<Longrightarrow> extends env s1 (snd (f c s1))"
  shows "extends env s (snd (case x of (Inl e, s1) \<Rightarrow> (Inl e, s1) | (Inr c, s1) \<Rightarrow> f c s1))"
  using assms by (cases x; cases "fst x") (auto intro: extends_trans)

lemma insert_finish_snd: "env_laws env \<Longrightarrow> extends env s (snd (insert_finish env l n s))"
  using insert_finish_extends [of env l n s] by (metis prod.collapse)

lemma insert_at_extends:
  assumes "env_laws env"
  shows "extends env s (snd (insert_at env l key v c offset depth s))"
proof (induction "Suc (ml_max_depth l) - depth" arbitrary: c offset depth s rule: less_induct)
  case less
  have IH: "extends env s (snd (insert_at env l key v c offset (Suc depth) s))" if "\<not> depth > ml_max_depth l" for c offset s
    using less [of "Suc depth"] that by simp
  show ?case
    unfolding insert_at.simps [of env l key v c offset depth s] Let_def
    by (auto split: sum.split intro!: extends_bind IH store_snd [OF assms] insert_splitting_extends [OF assms] insert_finish_snd [OF assms])
qed

lemma insert_at_rep:
  assumes "env_laws env" "rep env l s c t" "rt_ok_list (rt_children t)" "insert_at env l key v c offset depth s = (Inr c', s')"
  shows "rep env l s' c' (t_insert (drop offset key) v t)"
  using assms(2-)
proof (induction "Suc (ml_max_depth l) - depth" arbitrary: c t offset depth s c' s' rule: less_induct)
  case less
  let ?p = "rt_prefix t" let ?next = "offset + length ?p" let ?key = "drop offset key"
  obtain n where n: "load_node env l s c = Inr n" "node_prefix env n = Inr ?p" "mn_prefix_hex n = me_hex env ?p" "mn_value n = rt_value t"
      "rep_list env l s (mn_children n) (rt_children t)"
    using rep_prefix [OF assms(1) less.prems(1)] by blast
  obtain w cs where t: "t = RNode ?p w cs" by (cases t) auto
  have v: "rt_value t = w" "rt_children t = cs" using t by (metis rtree.sel)+
  note ins = less.prems(3) [unfolded insert_at.simps [of env l key v c offset depth s]]
  have guard: "depth \<le> ml_max_depth l" "offset \<le> length key" using ins by (auto split: if_splits)
  show ?case
  proof (cases rule: common_prefix_cases [of ?p ?key])
    case (split x a p r)
    have "insert_splitting env l n (x @ a # p) (x @ r) (length x) v s = (Inr c', s')"
      using ins n guard split by (auto split: sum.splits)
    from insert_splitting_rep [OF assms(1) this n(4) n(5) split(3)] show ?thesis
      using t v split(1,2) by (metis)
  next
    case (all r)
    have "length key - offset = length ?p + length r" using arg_cong [OF all(1), of length] by simp
    then have "?next = length key \<longleftrightarrow> length r = 0" using guard(2) by linarith
    then have key: "?next = length key \<longleftrightarrow> r = []" "?key = ?p @ r" using all(1) by simp_all
    show ?thesis
    proof (cases "r = []")
      case True
      then have "store_node env l (n\<lparr>mn_value := Some v\<rparr>) s = (Inr c', s')"
        using ins n guard all key by (auto split: sum.splits)
      from rep_stored [OF assms(1) this, of ?p "Some v" cs] have "rep env l s' c' (RNode ?p (Some v) cs)"
        using n v by (simp del: rep.simps)
      then show ?thesis using t key(2) True insert_below [of ?p r v w cs] by metis
    next
      case False
      let ?cs = "mn_children n"
      have rest: "r = drop ?next key" using key(2) by (metis add.commute append_eq_conv_conj drop_drop)
      have hd: "hd r = key ! ?next" using False rest by (simp add: hd_drop_conv_nth)
      have goal: "rep env l s' c' (t_norm (RNode ?p w (t_insert_list r v cs))) \<Longrightarrow> ?thesis"
        using insert_below [of ?p r v w cs] False key(2) t by metis
      have ok: "rt_ok_list cs" using less.prems(2) v by simp
      show ?thesis
      proof (cases "child_search (key ! ?next) ?cs")
        case (Inl i)
        then obtain d s1 where d: "store_node env l (node_new env r (Some v) []) s = (Inr d, s1)"
            "insert_finish env l (n\<lparr>mn_children := take i ?cs @ \<lparr>ch_edge = hd r, ch_cid = d\<rparr> # drop i ?cs\<rparr>) s1 = (Inr c', s')"
          using ins n guard all(2) key(1) False unfolding hd unfolding rest
          by (auto simp: Let_def split: sum.splits prod.splits)
        have r1: "extends env s s1" "rep env l s1 d (RNode r (Some v) [])"
          using rep_stored [OF assms(1) d(1), of r "Some v" "[]"] by (simp_all add: node_new_def)
        have "rep_list env l s1 (take i ?cs @ \<lparr>ch_edge = hd r, ch_cid = d\<rparr> # drop i ?cs) (t_insert_list r v cs)"
          using rep_list_missing(3) [OF n(5) _ _ r1, of i] Inl ok v hd by simp
        from insert_finish_rep [OF assms(1) d(2), of ?p w] this show ?thesis using goal n v by simp
      next
        case (Inr i)
        then obtain d s1 where d: "insert_at env l key v (ch_cid (?cs ! i)) ?next (depth + 1) s = (Inr d, s1)"
            "insert_finish env l (n\<lparr>mn_children := ?cs[i := (?cs ! i)\<lparr>ch_cid := d\<rparr>]\<rparr>) s1 = (Inr c', s')"
          using ins n guard all(2) key(1) False by (auto simp: Let_def split: sum.splits prod.splits)
        have e: "extends env s s1" using insert_at_extends [OF assms(1)] d(1) by (metis snd_conv)
        obtain u where u: "rep env l s (ch_cid (?cs ! i)) u" "rt_ok u"
            "rep env l s1 d (t_insert r v u) \<Longrightarrow> rep_list env l s1 (?cs[i := (?cs ! i)\<lparr>ch_cid := d\<rparr>]) (t_insert_list r v cs)"
          using rep_list_lookup [OF n(5), of r i] Inr ok v hd e by auto
        have "rep env l s1 d (t_insert r v u)"
          using less.hyps [OF _ u(1) _ d(1)] guard(1) u(2) rest by (cases u) simp
        from insert_finish_rep [OF assms(1) d(2), of ?p w] u(3) [OF this] show ?thesis using goal n v by simp
      qed
    qed
  qed
qed

section \<open>Deletion\<close>

lemma normalize_snd: "env_laws env \<Longrightarrow> extends env s (snd (normalize_and_store env l n s))"
  using normalize_extends [of env l n s] by (metis prod.collapse)

lemma extends_bind_option:
  assumes "extends env s (snd x)" "\<And>c s1. x = (Inr (Some c), s1) \<Longrightarrow> extends env s1 (snd (f c s1))"
    "\<And>s1. x = (Inr None, s1) \<Longrightarrow> extends env s1 (snd (g s1))"
  shows "extends env s (snd (case x of (Inl e, s1) \<Rightarrow> (Inl e, s1) | (Inr (Some c), s1) \<Rightarrow> f c s1 | (Inr None, s1) \<Rightarrow> g s1))"
  using assms by (cases x; cases "fst x"; cases "projr (fst x)") (auto intro: extends_trans)

lemma delete_at_extends:
  assumes "env_laws env"
  shows "extends env s (snd (delete_at env l key c offset depth s))"
proof (induction "Suc (ml_max_depth l) - depth" arbitrary: c offset depth s rule: less_induct)
  case less
  have IH: "extends env s (snd (delete_at env l key c offset (Suc depth) s))" if "\<not> depth > ml_max_depth l" for c offset s
    using less [of "Suc depth"] that by simp
  show ?case
    unfolding delete_at.simps [of env l key c offset depth s] Let_def
    by (auto split: sum.split intro!: extends_bind_option IH normalize_snd [OF assms])
qed

definition rep_opt :: "'s merkle_env \<Rightarrow> merkle_limits \<Rightarrow> 's \<Rightarrow> cid option \<Rightarrow> merkle_value rtree option \<Rightarrow> bool" where
  "rep_opt env l s c t \<longleftrightarrow> (case (c, t) of (None, None) \<Rightarrow> True | (Some c, Some t) \<Rightarrow> rep env l s c t | _ \<Rightarrow> False)"

lemma rep_opt_simps [simp]: "rep_opt env l s None t \<longleftrightarrow> t = None" "rep_opt env l s (Some c) t \<longleftrightarrow> (\<exists>t'. t = Some t' \<and> rep env l s c t')"
  by (auto simp: rep_opt_def split: option.split)

lemma normalize_rep_opt:
  assumes "env_laws env" "normalize_and_store env l n s = (Inr r, s')" "mn_prefix_hex n = me_hex env p" "mn_value n = v"
    "rep_list env l s (mn_children n) cs"
  shows "rep_opt env l s' r (t_norm_opt (RNode p v cs))"
  using normalize_rep [OF assms] by (cases r) auto

lemma delete_at_rep:
  assumes "env_laws env" "rep env l s c t" "rt_ok_list (rt_children t)" "offset \<le> length key"
    "delete_at env l key c offset depth s = (Inr r, s')"
  shows "rep_opt env l s' r (t_delete (drop offset key) t)"
  using assms(2-)
proof (induction "Suc (ml_max_depth l) - depth" arbitrary: c t offset depth s r s' rule: less_induct)
  case less
  let ?p = "rt_prefix t" let ?next = "offset + length ?p" let ?key = "drop offset key"
  obtain n where n: "load_node env l s c = Inr n" "node_prefix env n = Inr ?p" "mn_prefix_hex n = me_hex env ?p" "mn_value n = rt_value t"
      "rep_list env l s (mn_children n) (rt_children t)"
    using rep_prefix [OF assms(1) less.prems(1)] by blast
  obtain w cs where t: "t = RNode ?p w cs" by (cases t) auto
  have v: "rt_value t = w" "rt_children t = cs" using t by (metis rtree.sel)+
  note del = less.prems(4) [unfolded delete_at.simps [of env l key c offset depth s]]
  have guard: "depth \<le> ml_max_depth l" using del by (auto split: if_splits)
  have same: "rep_opt env l s (Some c) (Some t)" using less.prems(1) by simp
  show ?case
  proof (cases "prefix ?p ?key")
    case False
    then have "r = Some c" "s' = s" using del n guard by auto
    moreover have "t_delete ?key t = Some t" using False t t_delete.simps [of ?key ?p w cs] by metis
    ultimately show ?thesis using same by simp
  next
    case True
    then obtain q where q: "?key = ?p @ q" by (auto elim: prefixE)
    then have rest: "q = drop ?next key" by (metis add.commute append_eq_conv_conj drop_drop)
    have "length key - offset = length ?p + length q" using arg_cong [OF q, of length] by simp
    then have "?next = length key \<longleftrightarrow> length q = 0" using less.prems(3) by linarith
    then have key: "?next = length key \<longleftrightarrow> q = []" by simp
    show ?thesis
    proof (cases "q = []")
      case nil: True
      have "t_delete ?key (RNode ?p w cs) = (if w = None then Some (RNode ?p w cs) else t_norm_opt (RNode ?p None cs))"
        unfolding q nil by simp
      then have tree: "t_delete ?key t = (if w = None then Some t else t_norm_opt (RNode ?p None cs))" using t by metis
      show ?thesis
      proof (cases "w = None")
        case w: True
        then have "r = Some c" "s' = s" using del n guard True nil key v by (auto simp: Let_def)
        then show ?thesis using same tree w by simp
      next
        case w: False
        then have "normalize_and_store env l (n\<lparr>mn_value := None\<rparr>) s = (Inr r, s')"
          using del n guard True nil key v by (auto simp: Let_def)
        from normalize_rep_opt [OF assms(1) this, of ?p None cs] show ?thesis using n v w tree by auto
      qed
    next
      case ne: False
      let ?cs = "mn_children n"
      have hd: "hd q = key ! ?next" using ne rest by (simp add: hd_drop_conv_nth)
      have ok: "rt_ok_list cs" using less.prems(2) v by simp
      have "t_delete ?key (RNode ?p w cs) = (if hd q \<in> fst ` set cs then t_norm_opt (RNode ?p w (t_delete_list q cs)) else Some (RNode ?p w cs))"
        using ne unfolding q by (cases q) auto
      then have tree: "t_delete ?key t = (if hd q \<in> fst ` set cs then t_norm_opt (RNode ?p w (t_delete_list q cs)) else Some t)"
        using t by metis
      show ?thesis
      proof (cases "child_search (key ! ?next) ?cs")
        case (Inl i)
        then have "r = Some c" "s' = s" using del n guard True ne key by (auto simp: Let_def)
        moreover have "hd q \<notin> fst ` set cs" using rep_list_missing(2) [OF n(5), of q i] Inl ok v hd by simp
        ultimately show ?thesis using same tree by simp
      next
        case (Inr i)
        then obtain x s1 where x: "delete_at env l key (ch_cid (?cs ! i)) ?next (depth + 1) s = (Inr x, s1)"
          using del n guard True ne key by (auto simp: Let_def split: sum.splits prod.splits)
        let ?cs' = "case x of None \<Rightarrow> take i ?cs @ drop (Suc i) ?cs | Some d \<Rightarrow> ?cs[i := (?cs ! i)\<lparr>ch_cid := d\<rparr>]"
        have nrm: "normalize_and_store env l (n\<lparr>mn_children := ?cs'\<rparr>) s1 = (Inr r, s')"
          using del n guard True ne key Inr x by (cases x) (auto simp: Let_def)
        have e: "extends env s s1" using delete_at_extends [OF assms(1)] x by (metis snd_conv)
        have srch: "child_search (hd q) ?cs = Inr i" using Inr hd by simp
        obtain u where u: "rep env l s (ch_cid (?cs ! i)) u" "rt_ok u" "hd q \<in> fst ` set cs"
            "\<And>d t'. t_delete q u = Some t' \<Longrightarrow> rep env l s1 d t' \<Longrightarrow>
               rep_list env l s1 (?cs[i := (?cs ! i)\<lparr>ch_cid := d\<rparr>]) (t_delete_list q cs)"
            "t_delete q u = None \<Longrightarrow> rep_list env l s1 (take i ?cs @ drop (Suc i) ?cs) (t_delete_list q cs)"
          using rep_list_lookup [OF n(5) [unfolded v] ok srch] e by blast
        have le: "?next \<le> length key" using ne rest by (cases "?next \<le> length key") auto
        have "rep_opt env l s1 x (t_delete q u)"
          using less.hyps [OF _ u(1) _ le x] guard u(2) rest by (cases u) simp
        then have "rep_list env l s1 ?cs' (t_delete_list q cs)" using u(4,5) by (cases x) auto
        from normalize_rep_opt [OF assms(1) nrm, of ?p w] this show ?thesis using tree u(3) n v by simp
      qed
    qed
  qed
qed

end
