(* ===== verification/Merkle_Versions.thy ===== *)
theory Merkle_Versions
  imports Merkle_Refinement
begin

text \<open>
  The map behind a root, and the contract of a persistent map as a locale: a step gives the root
  of the updated map, keeps every older root, and equal maps have equal roots. The batches of
  \<open>apply_batch\<close> are its steps; bulk construction and bulk lookup are related to it.
\<close>

section \<open>Maps behind roots\<close>

definition represents :: "'s merkle_env \<Rightarrow> merkle_limits \<Rightarrow> 's \<Rightarrow> cid \<Rightarrow> (bytes \<rightharpoonup> merkle_value) \<Rightarrow> bool" where
  "represents env l s c m \<longleftrightarrow> (\<exists>t. rep env l s c t \<and> rt_root t \<and> t_get t = m)"

fun mutate :: "mutation \<Rightarrow> (bytes \<rightharpoonup> merkle_value) \<Rightarrow> (bytes \<rightharpoonup> merkle_value)" where
  "mutate (Put key v) m = m(key \<mapsto> v)"
| "mutate (Delete key) m = m(key := None)"

lemma represents_extends: "extends env s s' \<Longrightarrow> represents env l s c m \<Longrightarrow> represents env l s' c m"
  unfolding represents_def by (metis rep_extends(1))

lemma represents_canonical:
  assumes "represents env l s c m" "represents env l s' c' m"
  shows "c = c'"
proof -
  obtain t where t: "rep env l s c t" "rt_root t" "t_get t = m" using assms(1) by (auto simp: represents_def)
  obtain t' where t': "rep env l s' c' t'" "rt_root t'" "t_get t' = m" using assms(2) by (auto simp: represents_def)
  have "t = t'" using canonical_root [OF t(2) t'(2)] t(3) t'(3) by simp
  then show ?thesis using rep_unique(1) [OF t(1)] t'(1) by metis
qed

lemma empty_root_represents:
  assumes "env_laws env" "merkle_empty_root env l s = (Inr c, s')"
  shows "represents env l s' c Map.empty"
proof -
  have "store_node env l (node_new env [] None []) s = (Inr c, s')"
    using assms(2) by (auto simp: merkle_empty_root_def split: sum.splits)
  from rep_stored [OF assms(1) this, of "[]" None "[]"] have "rep env l s' c empty_tree"
    by (simp add: node_new_def empty_tree_def)
  moreover have "t_get empty_tree = Map.empty" by (rule ext) (auto simp: empty_tree_def split: list.split)
  ultimately show ?thesis unfolding represents_def rt_root_def by metis
qed

lemma empty_root_snd: "env_laws env \<Longrightarrow> extends env s (snd (merkle_empty_root env l s))"
  by (auto simp: merkle_empty_root_def store_snd split: sum.split)

lemma apply_mutation_extends:
  assumes "env_laws env"
  shows "extends env s (snd (apply_mutation env l op c s))"
proof (cases op)
  case (Delete key)
  then show ?thesis
    unfolding apply_mutation_def
    by (auto intro!: extends_bind_option delete_at_extends [OF assms] empty_root_snd [OF assms])
qed (simp add: apply_mutation_def insert_at_extends [OF assms])

lemma apply_mutation_represents:
  assumes "env_laws env" "represents env l s c m" "apply_mutation env l op c s = (Inr c', s')"
  shows "represents env l s' c' (mutate op m)"
proof -
  obtain t where t: "rep env l s c t" "rt_root t" "t_get t = m" using assms(2) by (auto simp: represents_def)
  have ok: "rt_ok_list (rt_children t)" using rt_root_list [OF t(2)] .
  show ?thesis
  proof (cases op)
    case (Put key v)
    then have "rep env l s' c' (t_insert key v t)"
      using insert_at_rep [OF assms(1) t(1) ok, of key v 0 0 c' s'] assms(3) by (simp add: apply_mutation_def)
    moreover have "rt_root (t_insert key v t)" using insert_ok(1) [of t key v] t(2) by (simp add: rt_root_def)
    moreover have "t_get (t_insert key v t) = m(key \<mapsto> v)"
      using get_insert(1) [OF ok, of key v] t(3) by (intro ext) simp
    ultimately show ?thesis unfolding represents_def Put by auto
  next
    case (Delete key)
    obtain r s1 where r: "delete_at env l key c 0 0 s = (Inr r, s1)"
      using assms(3) by (auto simp: apply_mutation_def Delete split: prod.splits sum.splits)
    have del: "rep_opt env l s1 r (t_delete key t)" using delete_at_rep [OF assms(1) t(1) ok _ r] by simp
    have get: "t_get_opt (t_delete key t) = m(key := None)" using get_delete(1) [OF ok, of key] t(3) by (intro ext) simp
    show ?thesis
    proof (cases r)
      case None
      then have "merkle_empty_root env l s1 = (Inr c', s')" using assms(3) r by (simp add: apply_mutation_def Delete)
      moreover have "m(key := None) = Map.empty" using get del None by (metis rep_opt_simps(1) t_get_opt_simps(1))
      ultimately show ?thesis using empty_root_represents [OF assms(1)] by (simp add: Delete)
    next
      case (Some d)
      then obtain u where u: "t_delete key t = Some u" "rep env l s1 d u" using del by auto
      have "c' = d" "s' = s1" using assms(3) r Some by (simp_all add: apply_mutation_def Delete)
      moreover have "rt_root u" using delete_ok(1) [OF t(2) u(1)] by simp
      moreover have "t_get u = m(key := None)" using get u(1) by (metis t_get_opt_simps(2) ext)
      ultimately show ?thesis using u(2) unfolding represents_def Delete by auto
    qed
  qed
qed

lemma represents_get:
  assumes "env_laws env" "represents env l s root m" "length key \<le> ml_max_depth l"
  shows "get_loop env l s key root 0 0 = Inr (m key)"
proof -
  obtain t where t: "rep env l s root t" "rt_root t" "t_get t = m" using assms(2) by (auto simp: represents_def)
  show ?thesis using get_loop_rep [OF assms(1) t(1) rt_root_list [OF t(2)], of 0 key 0] assms(3) t(3) by simp
qed

section \<open>Versioned maps\<close>

text \<open>
  What a client of a persistent map relies on: a step gives the root of the updated map, keeps
  every older root, and equal maps have equal roots.
\<close>

primrec run_steps :: "('op \<Rightarrow> 'root \<Rightarrow> 's \<Rightarrow> ('e + 'root) \<times> 's) \<Rightarrow> 'op list \<Rightarrow> 'root \<Rightarrow> 's \<Rightarrow> ('e + 'root) \<times> 's" where
  "run_steps step [] c s = (Inr c, s)"
| "run_steps step (op # ops) c s =
     (case step op c s of (Inl e, s1) \<Rightarrow> (Inl e, s1) | (Inr c1, s1) \<Rightarrow> run_steps step ops c1 s1)"

locale versioned_map =
  fixes step :: "'op \<Rightarrow> 'root \<Rightarrow> 's \<Rightarrow> ('e + 'root) \<times> 's"
    and models :: "'s \<Rightarrow> 'root \<Rightarrow> 'm \<Rightarrow> bool"
    and effect :: "'op \<Rightarrow> 'm \<Rightarrow> 'm"
  assumes step_models: "models s c m \<Longrightarrow> step op c s = (Inr c', s') \<Longrightarrow> models s' c' (effect op m)"
    and step_keeps: "models s d m \<Longrightarrow> step op c s = (r, s') \<Longrightarrow> models s' d m"
    and same_root: "models s c m \<Longrightarrow> models s' c' m \<Longrightarrow> c = c'"
begin

lemma run_keeps: "models s d m \<Longrightarrow> run_steps step ops c s = (r, s') \<Longrightarrow> models s' d m"
proof (induction ops arbitrary: c s)
  case (Cons op ops)
  obtain r1 s1 where 1: "step op c s = (r1, s1)" by fastforce
  then show ?case using Cons step_keeps [OF Cons.prems(1) 1] by (cases r1) auto
qed simp

lemma run_models: "models s c m \<Longrightarrow> run_steps step ops c s = (Inr c', s') \<Longrightarrow> models s' c' (fold effect ops m)"
proof (induction ops arbitrary: c s m)
  case (Cons op ops)
  obtain c1 s1 where 1: "step op c s = (Inr c1, s1)" "run_steps step ops c1 s1 = (Inr c', s')"
    using Cons.prems(2) by (auto split: prod.splits sum.splits)
  then show ?case using Cons.IH [OF step_models [OF Cons.prems(1) 1(1)] 1(2)] by simp
qed simp

lemma history_independent:
  assumes "models s c m" "models s' c' m'" "run_steps step ops c s = (Inr d, t)" "run_steps step ops' c' s' = (Inr d', t')"
    and "fold effect ops m = fold effect ops' m'"
  shows "d = d'"
  using same_root run_models [OF assms(1,3)] run_models [OF assms(2,4)] assms(5) by metis

end

interpretation merkle: versioned_map "apply_mutation env l" "\<lambda>s c m. env_laws env \<and> represents env l s c m" mutate
  for env :: "'s merkle_env" and l :: merkle_limits
proof unfold_locales
  show "env_laws env \<and> represents env l s' d m" if "env_laws env \<and> represents env l s d m" "apply_mutation env l op c s = (r, s')" for s d m op c r s'
    using that represents_extends apply_mutation_extends [of env s l op c] by (metis snd_conv)
qed (metis apply_mutation_represents, metis represents_canonical)

section \<open>Bulk construction\<close>

definition under :: "bytes \<Rightarrow> (bytes \<times> 'v) list \<Rightarrow> (bytes \<times> 'v) list" where
  "under q fs = map (\<lambda>(k, v). (q @ k, v)) fs"

lemma under_simps [simp]: "under q [] = []" "under q (x # fs) = (q @ fst x, snd x) # under q fs"
    "under q (fs @ gs) = under q fs @ under q gs" "under [] fs = fs" "under q fs = [] \<longleftrightarrow> fs = []"
  by (simp_all add: under_def split_def)

lemma under_under: "under p (under q fs) = under (p @ q) fs"
  by (simp add: under_def split_def)

lemma under_hd_last: "fs \<noteq> [] \<Longrightarrow> hd (under q fs) = (q @ fst (hd fs), snd (hd fs))"
    "fs \<noteq> [] \<Longrightarrow> last (under q fs) = (q @ fst (last fs), snd (last fs))" "tl (under q fs) = under q (tl fs)"
  by (simp_all add: under_def split_def hd_map last_map map_tl)

lemma under_while:
  assumes "\<forall>x \<in> set fs. fst x \<noteq> []"
  shows "takeWhile (\<lambda>y. length (fst y) > length q \<and> fst y ! length q = e) (under q fs) = under q (takeWhile (\<lambda>y. hd (fst y) = e) fs)"
    "dropWhile (\<lambda>y. length (fst y) > length q \<and> fst y ! length q = e) (under q fs) = under q (dropWhile (\<lambda>y. hd (fst y) = e) fs)"
  using assms by (induction fs) (auto simp: nth_append hd_conv_nth)

abbreviation keys_sorted :: "(bytes \<times> 'v) list \<Rightarrow> bool" where
  "keys_sorted fs \<equiv> sorted_wrt (<) (map fst fs)"

lemma sorted_append_drop: "keys_sorted (under p fs) \<longleftrightarrow> keys_sorted fs"
  unfolding under_def by (rule sorted_under)

lemma prefix_between:
  fixes a b c :: bytes
  assumes "prefix p a" "prefix p c" "a \<le> b" "b \<le> c"
  shows "prefix p b"
  using assms
proof (induction p arbitrary: a b c)
  case (Cons x p)
  obtain a' c' where "a = x # a'" "c = x # c'" "prefix p a'" "prefix p c'"
    using Cons.prems(1,2) by (auto elim!: prefixE)
  moreover obtain b' where "b = x # b'" "a' \<le> b'" "b' \<le> c'"
    using Cons.prems(3,4) calculation(1,2) by (cases b) auto
  ultimately show ?case using Cons.IH [of a' c' b'] by simp
qed simp

lemma sorted_hd_last:
  fixes xs :: "bytes list"
  assumes "sorted_wrt (<) xs" "x \<in> set xs"
  shows "hd xs \<le> x" "x \<le> last xs"
proof -
  show "hd xs \<le> x" using assms by (cases xs) (auto intro: less_imp_le)
  show "x \<le> last xs" using assms by (induction xs) (auto intro: less_imp_le)
qed

definition built :: "'s merkle_env \<Rightarrow> merkle_limits \<Rightarrow> 's \<Rightarrow> 's \<Rightarrow> cid \<Rightarrow> map_entry list \<Rightarrow> bool" where
  "built env l s s' c fs \<longleftrightarrow> extends env s s' \<and> (\<exists>t. rep env l s' c t \<and> rt_ok t \<and> t_entries t = fs)"

lemma entries_prefix:
  assumes "rt_ok t" "\<And>x. x \<in> set (t_entries t) \<Longrightarrow> prefix q (fst x)"
  shows "prefix q (rt_prefix t)"
proof -
  have "rt_ok_list (rt_children t)" using assms(1) by (cases t) simp
  then have "prefix q key" if "t_get t key = Some v" for key v
    using assms(2) [of "(key, v)"] entries_get(1) that by fastforce
  then show ?thesis using ok_prefix_greatest [OF assms(1)] by blast
qed

lemma keys_sorted_append:
  assumes "keys_sorted (fs @ gs)"
  shows "keys_sorted fs" "keys_sorted gs" "\<And>y z. y \<in> set fs \<Longrightarrow> z \<in> set gs \<Longrightarrow> fst y < fst z"
  using assms by (auto simp: sorted_wrt_append)

lemma set_while: "x \<in> set (takeWhile P xs) \<Longrightarrow> P x" "x \<in> set (takeWhile P xs) \<Longrightarrow> x \<in> set xs" "x \<in> set (dropWhile P xs) \<Longrightarrow> x \<in> set xs"
  by (auto dest: set_takeWhileD set_dropWhileD)

text \<open>Once the first byte of a key differs, it is larger for all later keys.\<close>

lemma later_edges:
  assumes "keys_sorted ((e # k, v) # gs)" "\<forall>x \<in> set gs. fst x \<noteq> []" "x \<in> set (dropWhile (\<lambda>y. hd (fst y) = e) gs)"
  shows "e < hd (fst x)"
  using assms
proof (induction gs arbitrary: k v)
  case (Cons y gs)
  obtain f j w where y: "y = (f # j, w)" using Cons.prems(2) by (cases y; cases "fst y") auto
  have le: "e \<le> f" using Cons.prems(1) y by auto
  have sub: "keys_sorted (y # gs)" using Cons.prems(1) by simp
  show ?case
  proof (cases "f = e")
    case True
    then show ?thesis using Cons.IH [of j w] Cons.prems(2,3) sub y by simp
  next
    case False
    then have lt: "e < f" using le by simp
    have "x = y \<or> fst y < fst x" using Cons.prems(3) sub y False by auto
    moreover have "fst x \<noteq> []" using Cons.prems(2) set_while(3) [OF Cons.prems(3)] by blast
    ultimately have "f \<le> hd (fst x)" using y by (cases "fst x") auto
    then show ?thesis using lt by simp
  qed
qed simp

lemma build_groups_rep:
  assumes laws: "env_laws env"
    and sub: "\<And>q fs s c s'. fs \<noteq> [] \<Longrightarrow> keys_sorted fs \<Longrightarrow> build_subtree env l (under q fs) (length q) (depth + 1) s = (Inr c, s') \<Longrightarrow>
      built env l s s' c fs"
    and "keys_sorted gs" "\<forall>x \<in> set gs. fst x \<noteq> []" "build_groups env l (under q gs) (length q) depth s = (Inr chs, s')"
  shows "extends env s s' \<and> (\<exists>cs. rep_list env l s' chs cs \<and> rt_ok_list cs \<and> t_entries_list cs = gs \<and> fst ` set cs = (hd \<circ> fst) ` set gs)"
  using assms(3-)
proof (induction "length gs" arbitrary: gs s chs rule: less_induct)
  case less
  show ?case
  proof (cases gs)
    case Nil
    then show ?thesis using less.prems by (simp add: build_groups.simps)
  next
    case (Cons x gs')
    obtain e k v where x: "x = (e # k, v)" using less.prems(2) Cons by (cases x; cases "fst x") auto
    let ?same = "\<lambda>y. hd (fst y) = e"
    let ?fs = "x # takeWhile ?same gs'" let ?rest = "dropWhile ?same gs'"
    have ne: "\<forall>x \<in> set gs'. fst x \<noteq> []" using less.prems(2) Cons by simp
    have split: "gs = ?fs @ ?rest" using Cons by simp
    have edge: "fst (hd (under q gs)) ! length q = e" using Cons x by (simp add: nth_append)
    obtain c s1 cs2 where b: "build_subtree env l (under q ?fs) (length q) (depth + 1) s = (Inr c, s1)"
        "build_groups env l (under q ?rest) (length q) depth s1 = (Inr cs2, s')" "chs = \<lparr>ch_edge = e, ch_cid = c\<rparr> # cs2"
      using less.prems(3) Cons x under_while [OF ne, of q e]
      by (auto simp: build_groups.simps nth_append split: if_splits prod.splits sum.splits)
    have srt: "keys_sorted ?fs" "keys_sorted ?rest" "\<And>y z. y \<in> set ?fs \<Longrightarrow> z \<in> set ?rest \<Longrightarrow> fst y < fst z"
      using keys_sorted_append [OF less.prems(1) [unfolded split]] by blast+
    have t: "built env l s s1 c ?fs" using sub [OF _ srt(1) b(1)] by simp
    then obtain t where t: "extends env s s1" "rep env l s1 c t" "rt_ok t" "t_entries t = ?fs" by (auto simp: built_def)
    have fs: "\<And>y. y \<in> set ?fs \<Longrightarrow> hd (fst y) = e \<and> fst y \<noteq> []" using x ne set_while(1,2) [of _ ?same gs'] by auto
    have pre: "prefix [e] (rt_prefix t)"
    proof (rule entries_prefix [OF t(3)])
      fix y assume "y \<in> set (t_entries t)"
      then show "prefix [e] (fst y)" using fs [of y] t(4) by (cases "fst y") auto
    qed
    have rest: "\<forall>x \<in> set ?rest. fst x \<noteq> []" using ne set_while(3) [of _ ?same gs'] by blast
    have "length ?rest < length gs" using Cons by (simp add: less_Suc_eq_le length_dropWhile_le)
    then obtain cs where cs: "extends env s1 s'" "rep_list env l s' cs2 cs" "rt_ok_list cs" "t_entries_list cs = ?rest" "fst ` set cs = (hd \<circ> fst) ` set ?rest"
      using less.hyps [OF _ srt(2) rest b(2)] by blast
    have "\<forall>f \<in> fst ` set cs. e < f"
      using later_edges [of e k v gs'] less.prems(1) ne Cons x unfolding cs(5) by auto
    then have "rt_ok_list ((e, t) # cs)" using t(3) pre cs(3) by simp
    moreover have "rep_list env l s' chs ((e, t) # cs)" using b(3) cs(1,2) rep_extends(1) [OF cs(1) t(2)] by simp
    moreover have "t_entries_list ((e, t) # cs) = gs" using t(4) cs(4) split by simp
    moreover have "fst ` set ((e, t) # cs) = (hd \<circ> fst) ` set gs"
    proof -
      have "(hd \<circ> fst) ` set gs = (hd \<circ> fst) ` set ?fs \<union> (hd \<circ> fst) ` set ?rest" using split by (metis image_Un set_append)
      also have "(hd \<circ> fst) ` set ?fs = {e}" using fs by (auto simp: image_iff x)
      finally show ?thesis using cs(5) by simp
    qed
    ultimately show ?thesis using extends_trans [OF t(1) cs(1)] by blast
  qed
qed

text \<open>What the first and the last key share, all keys share.\<close>

lemma common_of_sorted:
  assumes "keys_sorted fs" "fs \<noteq> []"
  defines "p \<equiv> take (common_prefix_len (fst (hd fs)) (fst (last fs))) (fst (hd fs))"
  shows "\<exists>gs. fs = under p gs \<and> keys_sorted gs \<and> gs \<noteq> []"
proof -
  have p: "prefix p (fst (hd fs))" "prefix p (fst (last fs))"
    unfolding p_def using common_prefix_take [of "fst (hd fs)" "fst (last fs)"] by (metis take_is_prefix)+
  have "prefix p (fst x)" if "x \<in> set fs" for x
    using prefix_between [OF p] sorted_hd_last [OF assms(1), of "fst x"] that assms(2) by (simp add: hd_map last_map)
  then have "(p @ drop (length p) (fst x), snd x) = x" if "x \<in> set fs" for x
    using that by (metis append_eq_conv_conj prefix_def prod.collapse)
  then have fs: "under p (map (\<lambda>x. (drop (length p) (fst x), snd x)) fs) = fs"
    by (simp add: under_def map_idI)
  then have "keys_sorted (map (\<lambda>x. (drop (length p) (fst x), snd x)) fs)" 
    using assms(1) sorted_append_drop [of p "map (\<lambda>x. (drop (length p) (fst x), snd x)) fs"] by (simp only: fs)
  then show ?thesis using fs assms(2) by (intro exI [of _ "map (\<lambda>x. (drop (length p) (fst x), snd x)) fs"]) simp
qed

lemma two_edges:
  assumes "a \<in> fst ` set cs" "b \<in> fst ` set cs" "a \<noteq> b"
  shows "2 \<le> length cs"
proof -
  have "card {a, b} \<le> card (fst ` set cs)" using assms(1,2) by (intro card_mono) auto
  also have "\<dots> \<le> length cs" using card_image_le [of "set cs" fst] card_length [of cs] by simp
  finally show ?thesis using assms(3) by simp
qed

lemma sorted_keys_nonempty:
  fixes gs :: "map_entry list"
  assumes "keys_sorted gs" "gs \<noteq> []" "fst (hd gs) \<noteq> [] \<or> x \<in> set (tl gs)" "x \<in> set gs"
  shows "fst x \<noteq> []"
proof (cases "x = hd gs \<and> fst (hd gs) \<noteq> []")
  case False
  then have "x \<in> set (tl gs)" using assms(2-) by (cases gs) auto
  then have "fst (hd gs) < fst x" using assms(1,2) by (cases gs) auto
  then show ?thesis by auto
qed simp

lemma build_subtree_rep:
  assumes "env_laws env" "fs \<noteq> []" "keys_sorted fs" "build_subtree env l (under q fs) (length q) depth s = (Inr c, s')"
  shows "built env l s s' c fs"
  using assms(2-)
proof (induction "Suc (ml_max_depth l) - depth" arbitrary: q fs depth s c s' rule: less_induct)
  case less
  let ?n = "common_prefix_len (fst (hd fs)) (fst (last fs))"
  define p where "p = take ?n (fst (hd fs))"
  obtain gs where gs: "fs = under p gs" "keys_sorted gs" "gs \<noteq> []" using common_of_sorted [OF less.prems(2,1), folded p_def] by blast
  have n: "length p = ?n" by (simp add: p_def common_prefix_le)
  note build = less.prems(3) [unfolded build_subtree.simps [of env l "under q fs" "length q" depth s]]
  have guard: "depth \<le> ml_max_depth l" using build by (auto split: if_splits)
  let ?here = "fst (hd gs) = []" let ?hs = "if ?here then tl gs else gs" let ?v = "if ?here then Some (snd (hd gs)) else None"
  have hd: "fst (hd fs) = p @ fst (hd gs)" "snd (hd fs) = snd (hd gs)" "fst (last fs) = p @ fst (last gs)"
    using under_hd_last(1,2) [OF gs(3), of p] gs(1) by (metis fst_conv snd_conv)+
  have here: "length (fst (hd (under q fs))) = length q + ?n \<longleftrightarrow> ?here"
    using arg_cong [OF hd(1), of length] n under_hd_last(1) [OF less.prems(1), of q] by simp
  have es: "under q fs = under (q @ p) gs" using gs(1) under_under by metis
  have common: "common_prefix_for_entries (under q fs) (length q) = ?n"
    using under_hd_last(1,2) [OF less.prems(1), of q] by (simp add: common_prefix_for_entries_def)
  obtain chs s1 where b: "build_groups env l (under (q @ p) ?hs) (length (q @ p)) depth s = (Inr chs, s1)"
      "store_node env l (node_new env p ?v chs) s1 = (Inr c, s')"
  proof -
    have es': "(if ?here then tl (under q fs) else under q fs) = under (q @ p) ?hs" unfolding es by (simp add: under_hd_last(3))
    have at: "snd (hd (under q fs)) = snd (hd gs)" "take ?n (drop (length q) (fst (hd (under q fs)))) = p"
      using under_hd_last(1) [OF less.prems(1), of q] hd(2) by (simp_all add: p_def)
    have pos: "length q + ?n = length (q @ p)" using n by simp
    have g: "(ml_max_depth l < depth) = False" using guard by simp
    have "(case build_groups env l (under (q @ p) ?hs) (length (q @ p)) depth s of
        (Inl e, s1) \<Rightarrow> (Inl e, s1) | (Inr cs, s1) \<Rightarrow> store_node env l (node_new env p ?v cs) s1) = (Inr c, s')"
      using build by (simp only: Let_def common here [unfolded pos] es' at pos g if_False)
    then show ?thesis using that by (auto split: prod.splits sum.splits)
  qed
  have ne: "\<forall>x \<in> set ?hs. fst x \<noteq> []" using sorted_keys_nonempty [OF gs(2,3)] gs(3) by (auto dest: list.set_sel(2))
  have srt: "keys_sorted ?hs" using gs(2,3) by (cases gs) auto
  have IH: "built env l s s' c fs" if "fs \<noteq> []" "keys_sorted fs" "build_subtree env l (under q fs) (length q) (depth + 1) s = (Inr c, s')" for q fs s c s'
    using less.hyps [OF _ that] guard by simp
  have "extends env s s1 \<and> (\<exists>cs. rep_list env l s1 chs cs \<and> rt_ok_list cs \<and> t_entries_list cs = ?hs \<and> fst ` set cs = (hd \<circ> fst) ` set ?hs)"
    by (rule build_groups_rep [OF assms(1) _ srt ne b(1)]) (rule IH)
  then obtain cs where cs: "extends env s s1" "rep_list env l s1 chs cs" "rt_ok_list cs" "t_entries_list cs = ?hs" "fst ` set cs = (hd \<circ> fst) ` set ?hs"
    by blast
  have "extends env s1 s' \<and> rep env l s' c (RNode p ?v cs)"
    using rep_stored [OF assms(1) b(2), of p ?v cs] cs(2) by (simp add: node_new_def)
  moreover have "t_entries (RNode p ?v cs) = fs"
  proof -
    have "(case ?v of None \<Rightarrow> [] | Some w \<Rightarrow> [([], w)]) @ t_entries_list cs = gs" using cs(4) gs(3) by (cases gs) auto
    then show ?thesis using gs(1) unfolding t_entries.simps by (metis under_def)
  qed
  moreover have "?here \<or> 2 \<le> length cs"
  proof (cases ?here)
    case False
    have "fst (last gs) \<noteq> []" using ne False gs(3) by simp
    moreover have "length p = common_prefix_len (p @ fst (hd gs)) (p @ fst (last gs))" using n hd(1,3) by metis
    then have "common_prefix_len (fst (hd gs)) (fst (last gs)) = 0" by simp
    ultimately have "hd (fst (hd gs)) \<noteq> hd (fst (last gs))" using False by (cases "fst (hd gs)"; cases "fst (last gs)") auto
    moreover have edges: "hd (fst (hd gs)) \<in> fst ` set cs" "hd (fst (last gs)) \<in> fst ` set cs" using False gs(3) unfolding cs(5) by auto
    ultimately show ?thesis using two_edges [OF edges] by simp
  qed simp
  ultimately show ?case using cs(3) extends_trans [OF cs(1)] unfolding built_def by (intro conjI exI [of _ "RNode p ?v cs"]) (auto simp del: rep.simps t_entries.simps)
qed

lemma validate_entries_sorted:
  "validate_entries l k es = Inr () \<Longrightarrow> keys_sorted es \<and> (\<forall>x \<in> set es. case k of None \<Rightarrow> True | Some k \<Rightarrow> k < fst x)"
proof (induction es arbitrary: k)
  case (Cons x es)
  then have "validate_entries l (Some (fst x)) es = Inr ()" "case k of None \<Rightarrow> True | Some k \<Rightarrow> k < fst x"
    by (auto split: sum.splits if_splits option.splits)
  then show ?case using Cons.IH [of "Some (fst x)"] by (auto split: option.splits dest: order.strict_trans)
qed simp

lemma build_represents:
  assumes "env_laws env" "merkle_build_from_sorted env l es s = (Inr c, s')"
  shows "extends env s s' \<and> represents env l s' c (map_of es)"
proof -
  have v: "limits_validate l = Inr l" "validate_entries l None es = Inr ()"
    using assms(2) by (auto simp: merkle_build_from_sorted_def limits_validate_def split: sum.splits if_splits)
  show ?thesis
  proof (cases "es = []")
    case True
    then have "merkle_empty_root env l s = (Inr c, s')" using assms(2) v by (simp add: merkle_build_from_sorted_def)
    then show ?thesis using empty_root_represents [OF assms(1)] empty_root_snd [OF assms(1), of s l] True by simp
  next
    case False
    then have "build_subtree env l (under [] es) (length ([] :: bytes)) 0 s = (Inr c, s')"
      using assms(2) v by (simp add: merkle_build_from_sorted_def)
    then have "built env l s s' c es"
      using build_subtree_rep [OF assms(1) False] validate_entries_sorted [OF v(2)] by blast
    then obtain t where t: "extends env s s'" "rep env l s' c t" "rt_ok t" "t_entries t = es" by (auto simp: built_def)
    have "rt_root t" using t(3) by (simp add: rt_root_def)
    then have "t_get t = map_of es" using get_map_of [of t] rt_root_list [of t] t(4) by simp
    then show ?thesis using t \<open>rt_root t\<close> unfolding represents_def by metis
  qed
qed

section \<open>Bulk lookup\<close>

definition cache_ok :: "'s merkle_env \<Rightarrow> merkle_limits \<Rightarrow> 's \<Rightarrow> (cid \<times> merkle_node) list \<Rightarrow> bool" where
  "cache_ok env l s cache \<longleftrightarrow> (\<forall>c n. map_of cache c = Some n \<longrightarrow> load_node env l s c = Inr n)"

lemma cached_loop_get:
  assumes "cache_ok env l s cache"
  shows "case cached_loop env l s key c offset depth cache of
      Inl e \<Rightarrow> get_loop env l s key c offset depth = Inl e
    | Inr (v, cache') \<Rightarrow> get_loop env l s key c offset depth = Inr v \<and> cache_ok env l s cache'"
  using assms
proof (induction "Suc (ml_max_depth l) - depth" arbitrary: c offset depth cache rule: less_induct)
  case less
  note unfold = cached_loop.simps [of env l s key c offset depth cache] get_loop.simps [of env l s key c offset depth]
  let ?step = "case map_of cache c of Some n \<Rightarrow> Inr (n, cache)
    | None \<Rightarrow> (case load_node env l s c of Inl e \<Rightarrow> Inl e | Inr n \<Rightarrow> Inr (n, (c, n) # cache))"
  have step: "?step = (case load_node env l s c of Inl e \<Rightarrow> Inl e | Inr n \<Rightarrow> Inr (n, if map_of cache c = None then (c, n) # cache else cache))"
    using less.prems by (auto simp: cache_ok_def split: option.split sum.split)
  show ?case
  proof (cases "depth > ml_max_depth l")
    case False
    show ?thesis
    proof (cases "load_node env l s c")
      case (Inr n)
      define cc where "cc = (if map_of cache c = None then (c, n) # cache else cache)"
      have ok: "cache_ok env l s cc" using less.prems Inr by (auto simp: cache_ok_def cc_def)
      have IH: "case cached_loop env l s key d o' (Suc depth) cc of
          Inl e \<Rightarrow> get_loop env l s key d o' (Suc depth) = Inl e
        | Inr (v, cache') \<Rightarrow> get_loop env l s key d o' (Suc depth) = Inr v \<and> cache_ok env l s cache'" for d o'
        using less.hyps [of "Suc depth" cc] False ok by simp
      have step': "?step = Inr (n, cc)" using step Inr by (simp add: cc_def)
      show ?thesis
      proof (cases "node_prefix env n")
        case p: (Inr p)
        show ?thesis
        proof (cases "child_search (key ! (offset + length p)) (mn_children n)")
          case (Inr i)
          show ?thesis using False \<open>load_node env l s c = Inr n\<close> p Inr ok IH [of "ch_cid (mn_children n ! i)" "offset + length p"]
            unfolding unfold step' by (cases "cached_loop env l s key (ch_cid (mn_children n ! i)) (offset + length p) (Suc depth) cc") auto
        next
          case (Inl i)
          show ?thesis using False \<open>load_node env l s c = Inr n\<close> p Inl ok unfolding unfold step' by simp
        qed
      next
        case (Inl e)
        show ?thesis using False Inr Inl unfolding unfold step' by simp
      qed
    next
      case (Inl e)
      show ?thesis using False Inl unfolding unfold step by simp
    qed
  qed (simp add: unfold)
qed

lemma get_each_get:
  assumes "cache_ok env l s cache"
  shows "case get_each env l s root keys cache of
      Inl e \<Rightarrow> \<exists>k \<in> set keys. get_loop env l s k root 0 0 = Inl e
    | Inr (vs, cache') \<Rightarrow> map (\<lambda>k. get_loop env l s k root 0 0) keys = map Inr vs"
  using assms
proof (induction keys arbitrary: cache)
  case (Cons k keys)
  have 1: "case cached_loop env l s k root 0 0 cache of Inl e \<Rightarrow> get_loop env l s k root 0 0 = Inl e
      | Inr (v, cache') \<Rightarrow> get_loop env l s k root 0 0 = Inr v \<and> cache_ok env l s cache'"
    using cached_loop_get [OF Cons.prems] .
  show ?case
  proof (cases "cached_loop env l s k root 0 0 cache")
    case (Inr r)
    obtain v cache' where r: "r = (v, cache')" by (cases r)
    then have "cache_ok env l s cache'" "get_loop env l s k root 0 0 = Inr v" using 1 Inr by simp_all
    then show ?thesis using Cons.IH [of cache'] Inr r by (auto split: sum.splits prod.splits)
  qed (use 1 in simp)
qed simp

lemma validate_keys_cases:
  "case validate_keys l keys of Inl e \<Rightarrow> \<exists>k \<in> set keys. validate_key l k = Inl e | Inr _ \<Rightarrow> \<forall>k \<in> set keys. validate_key l k = Inr ()"
  by (induction keys) (auto split: sum.split)

end
