(* ===== verification/Merkle_Scan.thy ===== *)
theory Merkle_Scan
  imports Merkle_Versions
begin

text \<open>
  Scans of the Merkle map: the walk over the nodes gives the matching entries in key order, and
  the cursor of a page resumes behind its last entry. The second half shows that
  \<open>validate_tree\<close> accepts only compressed radix trees.
\<close>

section \<open>Walking a tree\<close>

fun t_nodes :: "'v rtree \<Rightarrow> nat" and t_nodes_list :: "(8 word \<times> 'v rtree) list \<Rightarrow> nat" where
  "t_nodes (RNode p v cs) = Suc (t_nodes_list cs)"
| "t_nodes_list [] = 0"
| "t_nodes_list ((e, t) # cs) = t_nodes t + t_nodes_list cs"

text \<open>A compressed tree has fewer than two nodes per entry.\<close>

lemma nodes_bound:
  fixes t :: "'v rtree" and cs :: "(8 word \<times> 'v rtree) list"
  shows "rt_ok t \<Longrightarrow> t_nodes t < 2 * length (t_entries t)"
    and "rt_ok_list cs \<Longrightarrow> t_nodes_list cs + length cs \<le> 2 * length (t_entries_list cs)"
proof (induction t and cs rule: t_nodes_t_nodes_list.induct)
  case (1 p v cs)
  then show ?case by (auto split: option.split)
next
  case (3 e t cs)
  then show ?case by fastforce
qed simp

lemma ok_has_entry: "rt_ok t \<Longrightarrow> \<exists>x \<in> set (t_entries t). prefix (rt_prefix t) (fst x)"
proof -
  assume ok: "rt_ok t"
  then obtain key v where k: "t_get t key = Some v" using ok_has_key(1) by blast
  then have "prefix (rt_prefix t) key" using get_off_prefix [of t key] by fastforce
  moreover have "rt_ok_list (rt_children t)" using ok by (cases t) simp
  ultimately show ?thesis using entries_get(1) [of t key v] k by force
qed

fun pending :: "(cid \<times> bytes \<times> nat) list \<Rightarrow> merkle_value rtree list \<Rightarrow> map_entry list" where
  "pending ((c, k, d) # stack) (t # ts) = under k (t_entries t) @ pending stack ts"
| "pending _ _ = []"

definition walks :: "'s merkle_env \<Rightarrow> merkle_limits \<Rightarrow> 's \<Rightarrow> cid \<times> bytes \<times> nat \<Rightarrow> merkle_value rtree \<Rightarrow> bool" where
  "walks env l s x t \<longleftrightarrow> rep env l s (fst x) t \<and> rt_ok t \<and> snd (snd x) \<le> length (fst (snd x)) + length (rt_prefix t)"

lemma pending_append: "length a = length ts \<Longrightarrow> pending (a @ stack) (ts @ us) = pending a ts @ pending stack us"
  by (induction a ts rule: list_induct2) auto

lemma children_walk:
  assumes "rep_list env l s chs cs" "rt_ok_list cs" "d \<le> length key"
  shows "list_all2 (walks env l s) (map (\<lambda>ch. (ch_cid ch, key, Suc d)) chs) (map snd cs) \<and>
    pending (map (\<lambda>ch. (ch_cid ch, key, Suc d)) chs) (map snd cs) = under key (t_entries_list cs) \<and>
    sum_list (map t_nodes (map snd cs)) = t_nodes_list cs"
  using assms
proof (induction cs arbitrary: chs)
  case (Cons et cs)
  obtain e t where et: "et = (e, t)" by (cases et)
  obtain ch rest where ch: "chs = ch # rest" "rep env l s (ch_cid ch) t" "rep_list env l s rest cs" using Cons.prems(1) by (auto simp: et)
  have ok: "rt_ok_list cs" "rt_ok t" "prefix [e] (rt_prefix t)" using Cons.prems(2) by (auto simp: et)
  have "1 \<le> length (rt_prefix t)" using prefix_length_le [OF ok(3)] by simp
  then show ?case using Cons.IH [OF ch(3) ok(1) Cons.prems(3)] ch(1,2) ok(2) Cons.prems(3) by (simp add: et walks_def)
qed simp

lemma entries_node: "under k (t_entries (RNode p v cs)) =
    (case v of None \<Rightarrow> [] | Some w \<Rightarrow> [(k @ p, w)]) @ under (k @ p) (t_entries_list cs)"
  by (auto simp: under_def split_def split: option.split)

text \<open>
  The walk with its two bounds respected: it finds the matching entries in order and stops one
  after the limit.
\<close>

lemma scan_nodes_walk:
  assumes "env_laws env" "list_all2 (walks env l s) stack ts" "\<forall>x \<in> set (pending stack ts). length (fst x) \<le> ml_max_depth l"
    "n + sum_list (map t_nodes ts) \<le> ml_max_scan_nodes l" "length found \<le> sq_limit q"
  shows "\<exists>n'. scan_nodes env l s q after stack found n =
    Inr (take (Suc (sq_limit q)) (found @ filter (\<lambda>x. key_matches q after (fst x)) (pending stack ts)), n')"
  using assms(2-)
proof (induction "Suc (ml_max_scan_nodes l) - n" arbitrary: stack ts found n rule: less_induct)
  case less
  show ?case
  proof (cases stack)
    case Nil
    then show ?thesis using less.prems(4) by (simp add: scan_nodes.simps)
  next
    case (Cons x st)
    obtain c k d where x: "x = (c, k, d)" by (cases x)
    obtain t us where ts: "ts = t # us" "walks env l s x t" "list_all2 (walks env l s) st us"
      using less.prems(1) Cons by (auto simp: list_all2_Cons1)
    let ?p = "rt_prefix t" let ?key = "k @ ?p"
    have t: "rep env l s c t" "rt_ok t" "d \<le> length ?key" using ts(2) by (simp_all add: walks_def x)
    obtain m where m: "load_node env l s c = Inr m" "node_prefix env m = Inr ?p" "mn_value m = rt_value t"
        "rep_list env l s (mn_children m) (rt_children t)"
      using rep_prefix [OF assms(1) t(1)] by blast
    obtain v cs where v: "t = RNode ?p v cs" "rt_value t = v" "rt_children t = cs" by (cases t) auto
    have ok: "rt_ok_list cs" using t(2) v(1) by (metis rt_ok.simps)
    have nodes: "t_nodes t = Suc (t_nodes_list cs)" using v(1) by (metis t_nodes.simps)
    let ?M = "\<lambda>x. key_matches q after (fst x)"
    let ?val = "case v of None \<Rightarrow> [] | Some w \<Rightarrow> [(?key, w)]"
    define rest where "rest = under ?key (t_entries_list cs) @ pending st us"
    have pend: "pending stack ts = ?val @ rest"
      using entries_node [of k ?p v cs] v(1) by (simp add: Cons x ts(1) rest_def)
    obtain y where y: "y \<in> set (t_entries t)" "prefix ?p (fst y)" using ok_has_entry [OF t(2)] by blast
    have "(k @ fst y, snd y) \<in> set (pending stack ts)" using y(1) by (force simp: Cons x ts(1) under_def)
    then have "length (k @ fst y) \<le> ml_max_depth l" using less.prems(2) by fastforce
    then have depth: "d \<le> ml_max_depth l" using t(3) prefix_length_le [OF y(2)] by simp
    have room: "Suc n \<le> ml_max_scan_nodes l" using less.prems(3) ts(1) nodes by simp
    define found1 where "found1 = found @ filter ?M ?val"
    let ?stack = "map (\<lambda>ch. (ch_cid ch, ?key, Suc d)) (mn_children m) @ st"
    have found1: "(case mn_value m of None \<Rightarrow> found | Some w \<Rightarrow> if key_matches q after ?key then found @ [(?key, w)] else found) = found1"
      unfolding found1_def m(3) v(2) by (simp split: option.split)
    have unfold: "scan_nodes env l s q after stack found n =
        (if length found1 > sq_limit q \<and> length found1 > length found then Inr (found1, n + 1)
         else scan_nodes env l s q after ?stack found1 (n + 1))"
      using depth room m(1,2) found1 by (simp add: Cons x scan_nodes.simps(2) Let_def)
    show ?thesis
    proof (cases "length found1 > sq_limit q")
      case True
      moreover have "length found1 \<le> Suc (length found)" by (simp add: found1_def split: option.split)
      ultimately have "length found1 = Suc (sq_limit q)" "length found1 > length found" using less.prems(4) by simp_all
      moreover have "found @ filter ?M (pending stack ts) = found1 @ filter ?M rest" by (simp add: pend found1_def)
      ultimately show ?thesis using unfold True by simp
    next
      case False
      have walk: "list_all2 (walks env l s) (map (\<lambda>ch. (ch_cid ch, ?key, Suc d)) (mn_children m)) (map snd cs)"
          "pending (map (\<lambda>ch. (ch_cid ch, ?key, Suc d)) (mn_children m)) (map snd cs) = under ?key (t_entries_list cs)"
          "sum_list (map t_nodes (map snd cs)) = t_nodes_list cs"
        using children_walk [OF m(4) [unfolded v(3)] ok t(3)] by blast+
      have pend': "pending ?stack (map snd cs @ us) = rest"
        using pending_append [OF list_all2_lengthD [OF walk(1)]] walk(2) by (simp add: rest_def)
      have "\<exists>n'. scan_nodes env l s q after ?stack found1 (n + 1) =
          Inr (take (Suc (sq_limit q)) (found1 @ filter ?M (pending ?stack (map snd cs @ us))), n')"
      proof (rule less.hyps)
        show "Suc (ml_max_scan_nodes l) - (n + 1) < Suc (ml_max_scan_nodes l) - n" using room by simp
        show "list_all2 (walks env l s) ?stack (map snd cs @ us)" using walk(1) ts(3) by (rule list_all2_appendI)
        show "\<forall>x \<in> set (pending ?stack (map snd cs @ us)). length (fst x) \<le> ml_max_depth l"
          using less.prems(2) unfolding pend' pend by simp
        show "n + 1 + sum_list (map t_nodes (map snd cs @ us)) \<le> ml_max_scan_nodes l"
          using less.prems(3) walk(3) ts(1) nodes by simp
      qed (use False in simp)
      then show ?thesis using unfold False unfolding pend' by (simp add: pend found1_def)
    qed
  qed
qed

section \<open>Pages\<close>

lemma sorted_entries_unique:
  assumes "keys_sorted es" "keys_sorted fs" "map_of es = map_of fs"
  shows "es = fs"
proof -
  have "set (map fst es) = set (map fst fs)" using assms(3) by (metis dom_map_of_conv_image_fst set_map)
  then have keys: "map fst es = map fst fs" using strict_sorted_equal [OF assms(2) assms(1)] by simp
  have "gs = map (\<lambda>k. (k, the (map_of gs k))) (map fst gs)" if "keys_sorted gs" for gs :: "(bytes \<times> 'a) list"
  proof -
    have "the (map_of gs (fst x)) = snd x" if "x \<in> set gs" for x
      using sorted_map_of [OF \<open>keys_sorted gs\<close>, of "fst x" "snd x"] that by simp
    then show ?thesis by (simp add: map_idI)
  qed
  note vals = this
  have "es = map (\<lambda>k. (k, the (map_of es k))) (map fst es)" using assms(1) by (rule vals)
  also have "\<dots> = map (\<lambda>k. (k, the (map_of fs k))) (map fst fs)" by (simp only: assms(3) keys)
  also have "\<dots> = fs" using assms(2) by (rule vals [symmetric])
  finally show ?thesis .
qed

lemma scan_from_root:
  assumes "env_laws env" "represents env l s root (map_of es)" "keys_sorted es" "0 < ml_max_scan_nodes l"
    "2 * length es \<le> ml_max_scan_nodes l" "\<forall>x \<in> set es. length (fst x) \<le> ml_max_depth l"
  shows "\<exists>n. scan_nodes env l s q after [(root, [], 0)] [] 0 = Inr (take (Suc (sq_limit q)) (filter (\<lambda>x. key_matches q after (fst x)) es), n)"
proof -
  obtain t where t: "rep env l s root t" "rt_root t" "t_get t = map_of es" using assms(2) by (auto simp: represents_def)
  note list = rt_root_list [OF t(2)]
  have es: "t_entries t = es"
    using sorted_entries_unique [OF entries_sorted(1) [OF list] assms(3)] get_map_of [OF list] t(3) by simp
  show ?thesis
  proof (cases "rt_ok t")
    case True
    then have "list_all2 (walks env l s) [(root, [], 0)] [t]" using t(1) by (simp add: walks_def)
    from scan_nodes_walk [OF assms(1) this, of 0 "[]"] show ?thesis
      using nodes_bound(1) [OF True] assms(5,6) es by simp
  next
    case False
    then have "t = empty_tree" using t(2) by (simp add: rt_root_def)
    then show ?thesis
      using t(1) es assms(1,4) node_prefix_hex [OF assms(1), of _ "[]"]
      by (auto simp: empty_tree_def scan_nodes.simps)
  qed
qed

lemma scan_page:
  assumes "env_laws env" "represents env l s root (map_of es)" "keys_sorted es" "2 * length es \<le> ml_max_scan_nodes l"
    "\<forall>x \<in> set es. length (fst x) \<le> ml_max_depth l" "scan_validate l q = Inr ()" "scan_after env root q = Inr after"
  defines "found \<equiv> filter (\<lambda>x. key_matches q after (fst x)) es"
  shows "\<exists>page. merkle_scan env l root q s = Inr page \<and> sp_root page = root \<and> sp_entries page = take (sq_limit q) found \<and>
    sp_next_cursor page = (if sq_limit q < length found then Some (next_cursor env root q (fst (last (take (sq_limit q) found)))) else None)"
proof -
  have lim: "0 < sq_limit q" "0 < ml_max_scan_nodes l"
    using assms(6) by (auto simp: scan_validate_def limits_validate_def split: sum.splits if_splits)
  obtain n where "scan_nodes env l s q after [(root, [], 0)] [] 0 = Inr (take (Suc (sq_limit q)) found, n)"
    using scan_from_root [OF assms(1-3) lim(2) assms(4,5)] unfolding found_def by blast
  then show ?thesis using assms(6,7) lim(1) by (auto simp: merkle_scan_def Let_def min_def)
qed

lemma cursor_resumes:
  assumes "env_laws env"
  shows "scan_after env root (q\<lparr>sq_cursor := Some (next_cursor env root q key)\<rparr>) = Inr (Some key)"
  using env_lawsD(1,3) [OF assms] by (simp add: scan_after_def next_cursor_def decode_cursor_def encode_cursor_def)

lemma drop_behind:
  assumes "keys_sorted found" "0 < k" "k \<le> length found"
  shows "filter (\<lambda>x. fst (last (take k found)) < fst x) found = drop k found"
proof -
  let ?a = "take k found" let ?b = "drop k found"
  have ne: "?a \<noteq> []" using assms(2,3) by (cases found) auto
  have s: "keys_sorted ?a" "\<And>y z. y \<in> set ?a \<Longrightarrow> z \<in> set ?b \<Longrightarrow> fst y < fst z"
    using keys_sorted_append [of ?a ?b] assms(1) by simp_all
  have "\<not> fst (last ?a) < fst x" if "x \<in> set ?a" for x
    using sorted_hd_last(2) [OF s(1), of "fst x"] that ne by (simp add: last_map not_less)
  then have "filter (\<lambda>x. fst (last ?a) < fst x) ?a = []" by (simp add: filter_empty_conv)
  moreover have "filter (\<lambda>x. fst (last ?a) < fst x) ?b = ?b" using s(2) [OF last_in_set [OF ne]] by (intro filter_True) simp
  ultimately show ?thesis by (metis append_Nil append_take_drop_id filter_append)
qed

lemma scan_resumes:
  fixes q :: scan_query and after :: "bytes option" and es :: "map_entry list"
  assumes "keys_sorted es" "0 < k"
  defines "found \<equiv> filter (\<lambda>x. key_matches q after (fst x)) es"
  assumes "k < length found"
  shows "filter (\<lambda>x. key_matches q (Some (fst (last (take k found)))) (fst x)) es = drop k found"
proof -
  let ?last = "last (take k found)"
  have "take k found \<noteq> []" using assms(2,4) by (cases found) auto
  then have "?last \<in> set found" by (metis in_set_takeD last_in_set)
  then have "key_matches q after (fst ?last)" by (simp add: found_def)
  then have "key_matches q (Some (fst ?last)) key = (key_matches q after key \<and> fst ?last < key)" for key
    by (auto simp: key_matches_def split: option.splits)
  then have "filter (\<lambda>x. key_matches q (Some (fst ?last)) (fst x)) es = filter (\<lambda>x. fst ?last < fst x) found"
    by (simp add: found_def)
  also have "\<dots> = drop k found"
    using drop_behind [of found k] assms(1,2,4) by (simp add: found_def sorted_wrt_filter sorted_wrt_map)
  finally show ?thesis .
qed

section \<open>Validation of a whole tree\<close>

text \<open>Node prefixes are written as the encoder writes them; \<open>hex::decode\<close> alone would also take other spellings.\<close>

definition canonical_hex :: "'s merkle_env \<Rightarrow> merkle_limits \<Rightarrow> 's \<Rightarrow> bool" where
  "canonical_hex env l s \<longleftrightarrow> (\<forall>c n. load_node env l s c = Inr n \<longrightarrow> (\<exists>p. mn_prefix_hex n = me_hex env p))"

lemma validate_children_sorted:
  "validate_children k chs = Inr () \<Longrightarrow> sorted_wrt (<) (map ch_edge chs) \<and> (\<forall>ch \<in> set chs. case k of None \<Rightarrow> True | Some e \<Rightarrow> e < ch_edge ch)"
proof (induction chs arbitrary: k)
  case (Cons ch chs)
  then have "validate_children (Some (ch_edge ch)) chs = Inr ()" "case k of None \<Rightarrow> True | Some e \<Rightarrow> e < ch_edge ch"
    by (auto split: if_splits option.splits)
  then show ?case using Cons.IH [of "Some (ch_edge ch)"] by (auto split: option.splits dest: order.strict_trans)
qed simp

lemma loaded_edges_sorted: "load_node env l s c = Inr n \<Longrightarrow> sorted_wrt (<) (map ch_edge (mn_children n))"
  using load_nodeD(2) [of env l s c n] validate_children_sorted [of None "mn_children n"]
  by (auto simp: validate_node_shallow_def split: if_splits sum.splits)

lemma check_children_all:
  "check_children env l s chs = Inr () \<Longrightarrow> ch \<in> set chs \<Longrightarrow>
     \<exists>n p. load_node env l s (ch_cid ch) = Inr n \<and> node_prefix env n = Inr p \<and> p \<noteq> [] \<and> hd p = ch_edge ch"
  by (induction chs) (auto split: sum.splits if_splits)

definition validated :: "'s merkle_env \<Rightarrow> merkle_limits \<Rightarrow> 's \<Rightarrow> cid \<times> bytes \<times> nat \<times> bool \<Rightarrow> merkle_value rtree \<Rightarrow> bool" where
  "validated env l s x t \<longleftrightarrow> rep env l s (fst x) t \<and> rt_ok_list (rt_children t) \<and>
     (rt_value t \<noteq> None \<or> length (rt_children t) \<noteq> 1) \<and> (snd (snd (snd x)) \<or> rt_value t \<noteq> None \<or> rt_children t \<noteq> [])"

lemma validated_ok: "validated env l s (c, k, d, False) t \<Longrightarrow> rep env l s c t \<and> rt_ok t"
  by (cases t; cases "rt_children t") (auto simp: validated_def Suc_le_eq numeral_2_eq_2)

lemma children_of_walk:
  assumes "env_laws env" "list_all2 (validated env l s) (map (\<lambda>ch. (ch_cid ch, k, d, False)) chs) ts" "sorted_wrt (<) (map ch_edge chs)"
    "\<And>ch. ch \<in> set chs \<Longrightarrow> \<exists>n p. load_node env l s (ch_cid ch) = Inr n \<and> node_prefix env n = Inr p \<and> p \<noteq> [] \<and> hd p = ch_edge ch"
  shows "\<exists>cs. rep_list env l s chs cs \<and> rt_ok_list cs \<and> map fst cs = map ch_edge chs \<and>
    t_nodes_list cs = sum_list (map t_nodes ts) \<and> length (t_entries_list cs) = sum_list (map (\<lambda>t. length (t_entries t)) ts)"
  using assms(2-)
proof (induction chs arbitrary: ts)
  case (Cons ch chs)
  obtain t us where ts: "ts = t # us" "validated env l s (ch_cid ch, k, d, False) t"
      "list_all2 (validated env l s) (map (\<lambda>ch. (ch_cid ch, k, d, False)) chs) us"
    using Cons.prems(1) by (auto simp: list_all2_Cons1)
  have t: "rep env l s (ch_cid ch) t" "rt_ok t" using validated_ok [OF ts(2)] by simp_all
  have "prefix [ch_edge ch] (rt_prefix t)"
  proof -
    obtain n where "load_node env l s (ch_cid ch) = Inr n" "node_prefix env n = Inr (rt_prefix t)" using rep_prefix [OF assms(1) t(1)] by blast
    then have "rt_prefix t \<noteq> []" "hd (rt_prefix t) = ch_edge ch" using Cons.prems(3) [of ch] by auto
    then show ?thesis by (cases "rt_prefix t") auto
  qed
  moreover obtain cs where cs: "rep_list env l s chs cs" "rt_ok_list cs" "map fst cs = map ch_edge chs"
      "t_nodes_list cs = sum_list (map t_nodes us)" "length (t_entries_list cs) = sum_list (map (\<lambda>t. length (t_entries t)) us)"
    using Cons.IH [OF ts(3)] Cons.prems(2,3) by auto
  moreover have "\<forall>x \<in> fst ` set cs. ch_edge ch < x" using Cons.prems(2) arg_cong [OF cs(3), of set] by simp
  ultimately show ?case using t ts(1) by (intro exI [of _ "(ch_edge ch, t) # cs"]) simp
qed simp

lemma validate_loop_walk:
  assumes "env_laws env" "canonical_hex env l s" "validate_loop env l s stack seen entries max_depth = Inr r"
  shows "\<exists>ts. list_all2 (validated env l s) stack ts \<and> vr_nodes r = length seen + sum_list (map t_nodes ts) \<and>
    vr_entries r = entries + sum_list (map (\<lambda>t. length (t_entries t)) ts)"
  using assms(3)
proof (induction "Suc (ml_max_validation_nodes l) - length seen" arbitrary: stack seen entries max_depth rule: less_induct)
  case less
  show ?case
  proof (cases stack)
    case Nil
    then show ?thesis using less.prems by (auto simp: validate_loop.simps)
  next
    case (Cons x st)
    obtain c k d b where x: "x = (c, k, d, b)" by (cases x)
    note run = less.prems [unfolded Cons x validate_loop.simps(2)]
    obtain n p where n: "load_node env l s c = Inr n" "node_prefix env n = Inr p" "mn_value n \<noteq> None \<or> length (mn_children n) \<noteq> 1"
        "b \<or> mn_value n \<noteq> None \<or> mn_children n \<noteq> []" "check_children env l s (rev (mn_children n)) = Inr ()"
        "length seen < ml_max_validation_nodes l"
        "validate_loop env l s (map (\<lambda>ch. (ch_cid ch, k @ p, d + 1, False)) (mn_children n) @ st) (c # seen)
           (if mn_value n = None then entries else entries + 1) (max max_depth d) = Inr r"
      using run by (auto simp: Let_def split: if_splits sum.splits)
    have "Suc (ml_max_validation_nodes l) - length (c # seen) < Suc (ml_max_validation_nodes l) - length seen" using n(6) by simp
    from less.hyps [OF this n(7)] obtain ts where ts:
        "list_all2 (validated env l s) (map (\<lambda>ch. (ch_cid ch, k @ p, d + 1, False)) (mn_children n) @ st) ts"
        "vr_nodes r = length (c # seen) + sum_list (map t_nodes ts)"
        "vr_entries r = (if mn_value n = None then entries else entries + 1) + sum_list (map (\<lambda>t. length (t_entries t)) ts)" by blast
    obtain us ws where us: "ts = us @ ws" "list_all2 (validated env l s) (map (\<lambda>ch. (ch_cid ch, k @ p, d + 1, False)) (mn_children n)) us"
        "list_all2 (validated env l s) st ws"
      using ts(1) by (auto simp: list_all2_append1)
    obtain cs where cs: "rep_list env l s (mn_children n) cs" "rt_ok_list cs" "t_nodes_list cs = sum_list (map t_nodes us)"
        "length (t_entries_list cs) = sum_list (map (\<lambda>t. length (t_entries t)) us)"
      using children_of_walk [OF assms(1) us(2) loaded_edges_sorted [OF n(1)]] check_children_all [OF n(5)] by (metis set_rev)
    obtain p' where p': "mn_prefix_hex n = me_hex env p'" using assms(2) n(1) by (auto simp: canonical_hex_def)
    let ?t = "RNode p' (mn_value n) cs"
    have "validated env l s x ?t"
      using n(1,3,4) p' cs(1,2) rep_list_length [OF cs(1)] by (auto simp: validated_def x)
    then show ?thesis
      using us(1,3) ts(2,3) cs(3,4) Cons by (intro exI [of _ "?t # ws"]) (auto split: option.split)
  qed
qed

section \<open>Repeated subtrees\<close>

fun cid_of :: "'s merkle_env \<Rightarrow> merkle_value rtree \<Rightarrow> cid"
  and children_of :: "'s merkle_env \<Rightarrow> (8 word \<times> merkle_value rtree) list \<Rightarrow> node_child list" where
  "cid_of env (RNode p v cs) = cid_new (me_hash env) codec_merkle_node (me_to_json env (node_new env p v (children_of env cs)))"
| "children_of env [] = []"
| "children_of env ((e, t) # cs) = \<lparr>ch_edge = e, ch_cid = cid_of env t\<rparr> # children_of env cs"

lemma rep_cid_of:
  fixes t :: "merkle_value rtree" and cs :: "(8 word \<times> merkle_value rtree) list"
  shows "rep env l s c t \<Longrightarrow> c = cid_of env t"
    and "rep_list env l s chs cs \<Longrightarrow> chs = children_of env cs"
proof (induction t and cs arbitrary: c and chs rule: rt_ok_rt_ok_list.induct)
  case (1 p v cs)
  obtain n where n: "load_node env l s c = Inr n" "mn_prefix_hex n = me_hex env p" "mn_value n = v" "rep_list env l s (mn_children n) cs"
    using "1.prems" by auto
  have "n = node_new env p v (children_of env cs)"
    using n(2,3) "1.IH" [OF n(4)] validate_shallowD(1,2) [OF load_nodeD(2) [OF n(1)]]
    by (intro merkle_node.equality) (simp_all add: node_new_def)
  then show ?case using load_nodeD(1) [OF n(1)] by simp
next
  case (3 e t cs)
  then show ?case by (auto intro: node_child.equality)
qed simp

fun subtrees :: "'v rtree \<Rightarrow> 'v rtree list" and subtrees_list :: "(8 word \<times> 'v rtree) list \<Rightarrow> 'v rtree list" where
  "subtrees (RNode p v cs) = RNode p v cs # subtrees_list cs"
| "subtrees_list [] = []"
| "subtrees_list ((e, t) # cs) = subtrees t @ subtrees_list cs"

lemma subtrees_list_concat: "subtrees_list cs = concat (map subtrees (map snd cs))"
proof (induction cs)
  case (Cons et cs)
  then show ?case by (cases et) simp
qed simp

lemma rep_list_stack: "rep_list env l s chs cs \<Longrightarrow> list_all2 (\<lambda>x t. rep env l s (fst x) t) (map (\<lambda>ch. (ch_cid ch, k, d, False)) chs) (map snd cs)"
proof (induction cs arbitrary: chs)
  case (Cons et cs)
  then show ?case by (cases et) auto
qed simp

lemma validate_loop_distinct:
  assumes "env_laws env" "list_all2 (\<lambda>x t. rep env l s (fst x) t) stack ts" "validate_loop env l s stack seen entries max_depth = Inr r"
  shows "distinct (map (cid_of env) (concat (map subtrees ts))) \<and> cid_of env ` set (concat (map subtrees ts)) \<inter> set seen = {}"
  using assms(2-)
proof (induction "Suc (ml_max_validation_nodes l) - length seen" arbitrary: stack ts seen entries max_depth rule: less_induct)
  case less
  show ?case
  proof (cases stack)
    case Nil
    then show ?thesis using less.prems by simp
  next
    case (Cons x st)
    obtain c k d b where x: "x = (c, k, d, b)" by (cases x)
    obtain t us where ts: "ts = t # us" "rep env l s c t" "list_all2 (\<lambda>x t. rep env l s (fst x) t) st us"
      using less.prems(1) Cons x by (auto simp: list_all2_Cons1)
    obtain p v cs where t: "t = RNode p v cs" by (cases t)
    obtain n where n: "load_node env l s c = Inr n" "node_prefix env n = Inr p" "rep_list env l s (mn_children n) cs"
      using rep_prefix [OF assms(1) ts(2)] t by auto
    note run = less.prems(2) [unfolded Cons x validate_loop.simps(2)]
    obtain entries' where v: "c \<notin> set seen" "length seen < ml_max_validation_nodes l"
        "validate_loop env l s (map (\<lambda>ch. (ch_cid ch, k @ p, d + 1, False)) (mn_children n) @ st) (c # seen) entries' (max max_depth d) = Inr r"
      using run n(1,2) by (auto simp: Let_def split: if_splits sum.splits)
    have "list_all2 (\<lambda>x t. rep env l s (fst x) t) (map (\<lambda>ch. (ch_cid ch, k @ p, d + 1, False)) (mn_children n) @ st) (map snd cs @ us)"
      using rep_list_stack [OF n(3)] ts(3) by (rule list_all2_appendI)
    moreover have "Suc (ml_max_validation_nodes l) - length (c # seen) < Suc (ml_max_validation_nodes l) - length seen" using v(2) by simp
    ultimately have IH: "distinct (map (cid_of env) (concat (map subtrees (map snd cs @ us))))"
        "cid_of env ` set (concat (map subtrees (map snd cs @ us))) \<inter> set (c # seen) = {}"
      using less.hyps v(3) by blast+
    have all: "concat (map subtrees ts) = t # concat (map subtrees (map snd cs @ us))"
      by (simp add: ts(1) t subtrees_list_concat)
    have "c = cid_of env t" using rep_cid_of(1) [OF ts(2)] .
    then show ?thesis using IH v(1) unfolding all by auto
  qed
qed

end
