(* ===== verification/Merkle_Sample.thy ===== *)
theory Merkle_Sample
  imports Merkle_Map
begin

text \<open>
  A concrete environment for the Merkle map: hexadecimal text as \<open>hex\<close> reads and writes it, a
  self-delimiting encoding in place of JSON, the identity in place of BLAKE3 and a list of
  blocks as the store. It satisfies the laws of the parameters and makes the map executable.
\<close>

section \<open>Hexadecimal text\<close>

definition hex_digit :: "nat \<Rightarrow> char" where
  "hex_digit n = ''0123456789abcdef'' ! n"

definition hex_value :: "char \<Rightarrow> nat option" where
  "hex_value c = map_of (zip ''0123456789abcdefABCDEF'' [0, 1, 2, 3, 4, 5, 6, 7, 8, 9, 10, 11, 12, 13, 14, 15, 10, 11, 12, 13, 14, 15]) c"

definition plain_hex :: "bytes \<Rightarrow> string" where
  "plain_hex bs = concat (map (\<lambda>b. [hex_digit (unat b div 16), hex_digit (unat b mod 16)]) bs)"

fun plain_unhex :: "string \<Rightarrow> string + bytes" where
  "plain_unhex [] = Inr []"
| "plain_unhex [_] = Inl ''odd length''"
| "plain_unhex (a # b # rest) =
     (case (hex_value a, hex_value b, plain_unhex rest) of
        (Some i, Some j, Inr bs) \<Rightarrow> Inr (of_nat (16 * i + j) # bs)
      | _ \<Rightarrow> Inl ''bad digit'')"

lemma hex_value_digit: "n < 16 \<Longrightarrow> hex_value (hex_digit n) = Some n"
proof -
  assume "n < 16"
  moreover have "\<forall>n \<in> set [0..<16]. hex_value (hex_digit n) = Some n" by code_simp
  ultimately show ?thesis by simp
qed

lemma unhex_hex: "plain_unhex (plain_hex bs) = Inr bs"
proof (induction bs)
  case (Cons b bs)
  have "unat b < 256" using unsigned_less [of b] by simp
  then have "unat b div 16 < 16" "unat b mod 16 < 16" by simp_all
  then show ?case using Cons by (simp add: plain_hex_def hex_value_digit)
qed (simp add: plain_hex_def)

section \<open>A self-delimiting encoding\<close>

type_synonym 'a decoder = "bytes \<Rightarrow> ('a \<times> bytes) option"

definition decodes :: "('a \<Rightarrow> bytes) \<Rightarrow> 'a decoder \<Rightarrow> bool" where
  "decodes e d \<longleftrightarrow> (\<forall>x r. d (e x @ r) = Some (x, r))"

lemma decodesD [simp]: "decodes e d \<Longrightarrow> d (e x @ r) = Some (x, r)"
  by (simp add: decodes_def)

definition enc_byte :: "8 word \<Rightarrow> bytes" where
  "enc_byte b = [b]"

fun dec_byte :: "(8 word) decoder" where
  "dec_byte [] = None"
| "dec_byte (b # r) = Some (b, r)"

fun enc_nat :: "nat \<Rightarrow> bytes" where
  "enc_nat 0 = [0]"
| "enc_nat (Suc n) = 1 # enc_nat n"

fun dec_nat :: "nat decoder" where
  "dec_nat [] = None"
| "dec_nat (b # r) = (if b = 0 then Some (0, r) else map_option (\<lambda>(n, r). (Suc n, r)) (dec_nat r))"

definition enc_pair :: "('a \<Rightarrow> bytes) \<Rightarrow> ('b \<Rightarrow> bytes) \<Rightarrow> 'a \<times> 'b \<Rightarrow> bytes" where
  "enc_pair e f x = e (fst x) @ f (snd x)"

definition dec_pair :: "'a decoder \<Rightarrow> 'b decoder \<Rightarrow> ('a \<times> 'b) decoder" where
  "dec_pair d g bs = (case d bs of None \<Rightarrow> None | Some (x, r) \<Rightarrow> (case g r of None \<Rightarrow> None | Some (y, r) \<Rightarrow> Some ((x, y), r)))"

fun enc_option :: "('a \<Rightarrow> bytes) \<Rightarrow> 'a option \<Rightarrow> bytes" where
  "enc_option e None = [0]"
| "enc_option e (Some x) = 1 # e x"

fun dec_option :: "'a decoder \<Rightarrow> 'a option decoder" where
  "dec_option d [] = None"
| "dec_option d (b # r) = (if b = 0 then Some (None, r) else map_option (\<lambda>(x, r). (Some x, r)) (d r))"

definition enc_list :: "('a \<Rightarrow> bytes) \<Rightarrow> 'a list \<Rightarrow> bytes" where
  "enc_list e xs = enc_nat (length xs) @ concat (map e xs)"

fun dec_times :: "'a decoder \<Rightarrow> nat \<Rightarrow> 'a list decoder" where
  "dec_times d 0 bs = Some ([], bs)"
| "dec_times d (Suc n) bs = (case d bs of None \<Rightarrow> None | Some (x, r) \<Rightarrow> map_option (\<lambda>(xs, r). (x # xs, r)) (dec_times d n r))"

definition dec_list :: "'a decoder \<Rightarrow> 'a list decoder" where
  "dec_list d bs = (case dec_nat bs of None \<Rightarrow> None | Some (n, r) \<Rightarrow> dec_times d n r)"

definition enc_map :: "('a \<Rightarrow> 'b) \<Rightarrow> ('b \<Rightarrow> bytes) \<Rightarrow> 'a \<Rightarrow> bytes" where
  "enc_map f e x = e (f x)"

definition dec_map :: "('b \<Rightarrow> 'a) \<Rightarrow> 'b decoder \<Rightarrow> 'a decoder" where
  "dec_map g d bs = map_option (\<lambda>(x, r). (g x, r)) (d bs)"

lemma decodes_byte: "decodes enc_byte dec_byte"
  by (simp add: decodes_def enc_byte_def)

lemma decodes_nat: "decodes enc_nat dec_nat"
proof -
  have "dec_nat (enc_nat n @ r) = Some (n, r)" for n r by (induction n) simp_all
  then show ?thesis by (simp add: decodes_def)
qed

lemma decodes_pair: "decodes e d \<Longrightarrow> decodes f g \<Longrightarrow> decodes (enc_pair e f) (dec_pair d g)"
  unfolding decodes_def [of "enc_pair e f"] by (simp add: enc_pair_def dec_pair_def)

lemma decodes_option:
  assumes "decodes e d"
  shows "decodes (enc_option e) (dec_option d)"
proof -
  have "dec_option d (enc_option e x @ r) = Some (x, r)" for x r using assms by (cases x) simp_all
  then show ?thesis by (simp add: decodes_def)
qed

lemma decodes_list:
  assumes "decodes e d"
  shows "decodes (enc_list e) (dec_list d)"
proof -
  have "dec_times d (length xs) (concat (map e xs) @ r) = Some (xs, r)" for xs r using assms by (induction xs) simp_all
  then show ?thesis using decodes_nat by (simp add: decodes_def enc_list_def dec_list_def)
qed

lemma decodes_map: "decodes e d \<Longrightarrow> (\<And>x. g (f x) = x) \<Longrightarrow> decodes (enc_map f e) (dec_map g d)"
  unfolding decodes_def [of "enc_map f e"] by (simp add: enc_map_def dec_map_def)

definition enc_char :: "char \<Rightarrow> bytes" where
  "enc_char = enc_map (\<lambda>c. of_nat (of_char c)) enc_byte"

definition dec_char :: "char decoder" where
  "dec_char = dec_map (\<lambda>b. char_of (unat b)) dec_byte"

lemma decodes_char: "decodes enc_char dec_char"
  unfolding enc_char_def dec_char_def
proof (rule decodes_map [OF decodes_byte])
  fix c :: char
  have "of_char c < (256 :: nat)" by simp
  then show "char_of (unat (of_nat (of_char c) :: 8 word)) = c" by (simp add: unat_of_nat)
qed
section \<open>An environment that satisfies the laws\<close>

definition enc_string :: "string \<Rightarrow> bytes" where
  "enc_string = enc_list enc_char"

definition dec_string :: "string decoder" where
  "dec_string = dec_list dec_char"

definition enc_cid :: "cid \<Rightarrow> bytes" where
  "enc_cid = enc_map (\<lambda>c. (cid_version c, cid_codec c, cid_digest c)) (enc_pair enc_nat (enc_pair enc_nat (enc_list enc_byte)))"

definition dec_cid :: "cid decoder" where
  "dec_cid = dec_map (\<lambda>(v, k, d). \<lparr>cid_version = v, cid_codec = k, cid_digest = d\<rparr>) (dec_pair dec_nat (dec_pair dec_nat (dec_list dec_byte)))"

definition enc_value :: "merkle_value \<Rightarrow> bytes" where
  "enc_value = enc_map (\<lambda>v. (mv_cid v, mv_generation v, mv_value_kind v, mv_metadata v))
     (enc_pair enc_cid (enc_pair enc_nat (enc_pair enc_string (enc_list (enc_pair enc_string enc_string)))))"

definition dec_value :: "merkle_value decoder" where
  "dec_value = dec_map (\<lambda>(c, g, k, m). \<lparr>mv_cid = c, mv_generation = g, mv_value_kind = k, mv_metadata = m\<rparr>)
     (dec_pair dec_cid (dec_pair dec_nat (dec_pair dec_string (dec_list (dec_pair dec_string dec_string)))))"

definition enc_child :: "node_child \<Rightarrow> bytes" where
  "enc_child = enc_map (\<lambda>c. (ch_edge c, ch_cid c)) (enc_pair enc_byte enc_cid)"

definition dec_child :: "node_child decoder" where
  "dec_child = dec_map (\<lambda>(e, c). \<lparr>ch_edge = e, ch_cid = c\<rparr>) (dec_pair dec_byte dec_cid)"

text \<open>The usual node type is encoded as an absent string.\<close>

definition enc_node :: "merkle_node \<Rightarrow> bytes" where
  "enc_node = enc_map (\<lambda>n. (if mn_type n = node_type then None else Some (mn_type n), mn_version n, mn_prefix_hex n, mn_value n, mn_children n))
     (enc_pair (enc_option enc_string) (enc_pair enc_nat (enc_pair enc_string (enc_pair (enc_option enc_value) (enc_list enc_child)))))"

definition dec_node :: "merkle_node decoder" where
  "dec_node = dec_map (\<lambda>(t, v, p, w, cs). \<lparr>mn_type = case t of None \<Rightarrow> node_type | Some t \<Rightarrow> t, mn_version = v, mn_prefix_hex = p, mn_value = w, mn_children = cs\<rparr>)
     (dec_pair (dec_option dec_string) (dec_pair dec_nat (dec_pair dec_string (dec_pair (dec_option dec_value) (dec_list dec_child)))))"

definition enc_cursor :: "cursor_record \<Rightarrow> bytes" where
  "enc_cursor = enc_map (\<lambda>c. (cr_version c, cr_root c, cr_after_key_hex c, cr_start_hex c, cr_end_hex c, cr_prefix_hex c))
     (enc_pair enc_nat (enc_pair enc_cid (enc_pair enc_string
       (enc_pair (enc_option enc_string) (enc_pair (enc_option enc_string) (enc_option enc_string))))))"

definition dec_cursor :: "cursor_record decoder" where
  "dec_cursor = dec_map (\<lambda>(v, r, k, a, b, p). \<lparr>cr_version = v, cr_root = r, cr_after_key_hex = k, cr_start_hex = a, cr_end_hex = b, cr_prefix_hex = p\<rparr>)
     (dec_pair dec_nat (dec_pair dec_cid (dec_pair dec_string
       (dec_pair (dec_option dec_string) (dec_pair (dec_option dec_string) (dec_option dec_string))))))"

lemma decodes_string: "decodes enc_string dec_string"
  unfolding enc_string_def dec_string_def by (rule decodes_list [OF decodes_char])

lemma decodes_cid: "decodes enc_cid dec_cid"
  unfolding enc_cid_def dec_cid_def
  by (rule decodes_map) (simp_all add: decodes_pair decodes_nat decodes_list decodes_byte)

lemmas decodes_parts = decodes_pair decodes_nat decodes_list decodes_byte decodes_option decodes_string decodes_cid

lemma decodes_value: "decodes enc_value dec_value"
  unfolding enc_value_def dec_value_def by (rule decodes_map) (simp_all add: decodes_parts)

lemma decodes_child: "decodes enc_child dec_child"
  unfolding enc_child_def dec_child_def by (rule decodes_map) (simp_all add: decodes_parts)

lemma decodes_node: "decodes enc_node dec_node"
  unfolding enc_node_def dec_node_def by (rule decodes_map) (simp_all add: decodes_parts decodes_value decodes_child)

lemma decodes_cursor: "decodes enc_cursor dec_cursor"
  unfolding enc_cursor_def dec_cursor_def by (rule decodes_map) (simp_all add: decodes_parts)

definition read_all :: "'a decoder \<Rightarrow> bytes \<Rightarrow> string + 'a" where
  "read_all d bs = (case d bs of Some (x, []) \<Rightarrow> Inr x | _ \<Rightarrow> Inl ''malformed'')"

lemma read_all_decodes: "decodes e d \<Longrightarrow> read_all d (e x) = Inr x"
  using decodesD [of e d x "[]"] by (simp add: read_all_def)

text \<open>Blocks by identifier; a second payload for the same identifier is refused.\<close>

type_synonym blocks = "(cid \<times> bytes) list"

definition plain_hash :: "bytes \<Rightarrow> bytes" where
  "plain_hash bs = bs"

definition blocks_get :: "blocks \<Rightarrow> cid \<Rightarrow> string + bytes" where
  "blocks_get s c = (case map_of s c of None \<Rightarrow> Inl ''not found'' | Some p \<Rightarrow> Inr p)"

definition blocks_put :: "nat \<Rightarrow> bytes \<Rightarrow> blocks \<Rightarrow> (string + cid) \<times> blocks" where
  "blocks_put codec p s =
     (let c = cid_new plain_hash codec p
      in case map_of s c of None \<Rightarrow> (Inr c, (c, p) # s) | Some q \<Rightarrow> if q = p then (Inr c, s) else (Inl ''collision'', s))"

definition sample_env :: "blocks merkle_env" where
  "sample_env = \<lparr>me_hash = plain_hash, me_hex = plain_hex, me_unhex = plain_unhex, me_to_json = enc_node, me_from_json = read_all dec_node,
     me_cursor_to_json = enc_cursor, me_cursor_from_json = read_all dec_cursor, me_get = blocks_get, me_put = blocks_put\<rparr>"

definition sample_value :: "nat \<Rightarrow> merkle_value" where
  "sample_value g = \<lparr>mv_cid = \<lparr>cid_version = 1, cid_codec = 0, cid_digest = []\<rparr>, mv_generation = g, mv_value_kind = ''v'', mv_metadata = []\<rparr>"

lemma sample_codec:
  "me_unhex sample_env (me_hex sample_env p) = Inr p" "me_from_json sample_env (me_to_json sample_env n) = Inr n"
  "me_cursor_from_json sample_env (me_cursor_to_json sample_env cur) = Inr cur"
  by (simp_all add: sample_env_def unhex_hex read_all_decodes [OF decodes_node] read_all_decodes [OF decodes_cursor])

lemma sample_store:
  "me_put sample_env k p s = (Inr c, s') \<Longrightarrow> me_get sample_env s' c = Inr p"
  "me_put sample_env k p s = (r, s') \<Longrightarrow> me_get sample_env s d = Inr q \<Longrightarrow> me_get sample_env s' d = Inr q"
  by (auto simp: sample_env_def blocks_get_def blocks_put_def Let_def split: option.splits if_splits)

text \<open>The root and the store an operation leaves, when it succeeds.\<close>

definition finished :: "(merkle_error + cid) \<times> blocks \<Rightarrow> bool" where
  "finished r = (case r of (Inl _, _) \<Rightarrow> False | (Inr _, _) \<Rightarrow> True)"

definition outcome :: "(merkle_error + cid) \<times> blocks \<Rightarrow> cid \<times> blocks" where
  "outcome r = (case r of (Inl _, s) \<Rightarrow> (cid_new plain_hash 0 [], s) | (Inr c, s) \<Rightarrow> (c, s))"

lemma finished_outcome: "finished r \<Longrightarrow> r = (Inr (fst (outcome r)), snd (outcome r))"
  by (cases r; cases "fst r") (auto simp: finished_def outcome_def)

definition empty_sample :: "cid \<times> blocks" where
  "empty_sample = outcome (merkle_empty_root sample_env merkle_limits_default [])"

definition one_key :: "nat \<Rightarrow> cid \<times> blocks" where
  "one_key g = outcome (merkle_apply_batch sample_env merkle_limits_default (fst empty_sample) [Put [5] (sample_value g)] (snd empty_sample))"

lemma empty_sample_eval: "finished (merkle_empty_root sample_env merkle_limits_default [])"
  by code_simp

lemma one_key_eval: "finished (merkle_apply_batch sample_env merkle_limits_default (fst empty_sample) [Put [5] (sample_value 1)] (snd empty_sample))"
  by code_simp

lemma other_history_eval: "finished (merkle_apply_batch sample_env merkle_limits_default (fst (one_key 2)) [Put [5] (sample_value 1)] (snd (one_key 2)))"
  "finished (merkle_apply_batch sample_env merkle_limits_default (fst empty_sample) [Put [5] (sample_value 2)] (snd empty_sample))"
  by code_simp+

definition sample_entries :: "map_entry list" where
  "sample_entries = [([1, 9], sample_value 1), ([2, 9], sample_value 1)]"

lemma sample_entries_eval: "finished (merkle_build_from_sorted sample_env merkle_limits_default sample_entries [])"
  by code_simp

definition square_entries :: "8 word \<Rightarrow> 8 word \<Rightarrow> merkle_value \<Rightarrow> map_entry list" where
  "square_entries a b v = [([a, a], v), ([a, b], v), ([b, a], v), ([b, b], v)]"

lemma square_entries_eval: "finished (merkle_build_from_sorted sample_env merkle_limits_default (square_entries 1 2 (sample_value 1)) [])"
  by code_simp

end
