(* ===== verification/Merkle_Properties.thy ===== *)
theory Merkle_Properties
  imports Merkle_Scan Merkle_Sample
begin

text \<open>
  The properties of the Merkle map: batches refine updates of a map and keep older roots, lookups
  are total, roots are canonical, bulk operations agree with single ones, scans page through the
  entries in order, and validation accepts only maps, though not all that the code builds.
\<close>

section \<open>Batches\<close>

lemma apply_mutations_run: "apply_mutations env l ops c s = run_steps (apply_mutation env l) ops c s"
  by (induction ops arbitrary: c s) (simp_all split: prod.split sum.split)

lemma batch_run:
  assumes "merkle_apply_batch env l c ops s = (r, s')"
  shows "(\<exists>e. r = Inl e) \<and> s' = s \<or> run_steps (apply_mutation env l) ops c s = (r, s')"
  using assms by (auto simp: merkle_apply_batch_def apply_mutations_run split: sum.splits)

lemma batch_represents:
  assumes "env_laws env" "represents env l s c m" "merkle_apply_batch env l c ops s = (Inr d, s')"
  shows "represents env l s' d (fold mutate ops m)"
  using batch_run [OF assms(3)] merkle.run_models [of env l s c m ops d s'] assms(1,2) by auto

text \<open>
  C3. \<open>apply_batch\<close> refines updates of a map: when the root represents a map and the batch succeeds,
  the new root represents the map with the mutations applied in order. Whether it succeeds or
  fails half-way, every root that could be read before represents the same map afterwards.
\<close>

theorem merkle_batch_refines_map:
  assumes "env_laws env" "represents env l s root m" "merkle_apply_batch env l root ops s = (r, s')"
  shows "(\<forall>root'. r = Inr root' \<longrightarrow> represents env l s' root' (fold mutate ops m)) \<and>
    (\<forall>old m'. represents env l s old m' \<longrightarrow> represents env l s' old m')"
proof (intro conjI allI impI)
  fix root' assume "r = Inr root'"
  then show "represents env l s' root' (fold mutate ops m)" using batch_represents [OF assms(1,2)] assms(3) by simp
next
  fix old m' assume "represents env l s old m'"
  then show "represents env l s' old m'"
    using batch_run [OF assms(3)] merkle.run_keeps [of env l s old m' ops root r s'] assms(1) by auto
qed

text \<open>
  C14. \<open>get\<close> is total on a root that represents a map: a key within the key and the depth limit
  gives exactly what the map holds for it, never an error.
\<close>

theorem merkle_lookup_total:
  assumes "env_laws env" "represents env l s root m" "limits_validate l = Inr l"
    "length key \<le> ml_max_key_bytes l" "length key \<le> ml_max_depth l"
  shows "merkle_get env l root key s = Inr (m key)"
  using represents_get [OF assms(1,2,5)] assms(3,4) by (simp add: merkle_get_def validate_key_def)

text \<open>
  C9. Roots are canonical: two histories of batches, on different stores and from different
  starting maps, that end in the same map end in the same root identifier.
\<close>

theorem merkle_roots_history_independent:
  assumes "env_laws env" "represents env l s c m" "represents env l s' c' m'"
    "merkle_apply_batch env l c ops s = (Inr d, t)" "merkle_apply_batch env l c' ops' s' = (Inr d', t')"
    "fold mutate ops m = fold mutate ops' m'"
  shows "d = d'"
  using merkle.history_independent [of env l s c m s' c' m' ops d t ops' d' t'] batch_run [OF assms(4)] batch_run [OF assms(5)] assms
  by auto

text \<open>
  C15. \<open>build_from_sorted\<close> agrees with \<open>apply_batch\<close>: the tree it builds represents the entries, and its
  root is the one every history of batches ending in these entries arrives at.
\<close>

theorem merkle_build_matches_batches:
  assumes "env_laws env" "merkle_build_from_sorted env l es s = (Inr c, s')"
    "represents env l u d m" "merkle_apply_batch env l d ops u = (Inr d', u')" "fold mutate ops m = map_of es"
  shows "represents env l s' c (map_of es) \<and> c = d'"
proof -
  have c: "represents env l s' c (map_of es)" using build_represents [OF assms(1,2)] by simp
  have "represents env l u' d' (map_of es)" using batch_represents [OF assms(1,3,4)] assms(5) by simp
  then show ?thesis using represents_canonical [OF c] c by simp
qed

text \<open>
  C39. \<open>get_many\<close> with its node cache answers as \<open>get\<close> does key by key, in the order of the keys;
  an error it reports is one that \<open>get\<close> reports for one of the keys, or that of the limits.
\<close>

theorem merkle_get_many_matches_get:
  assumes "length keys \<le> ml_max_scan_entries l"
  shows "case merkle_get_many env l root keys s of
      Inl e \<Rightarrow> limits_validate l = Inl e \<or> (\<exists>key. key \<in> set keys \<and> merkle_get env l root key s = Inl e)
    | Inr (vs, n) \<Rightarrow> map (\<lambda>key. merkle_get env l root key s) keys = map Inr vs"
proof (cases "limits_validate l = Inr l \<and> validate_keys l keys = Inr ()")
  case True
  then have key: "key \<in> set keys \<Longrightarrow> validate_key l key = Inr ()" for key using validate_keys_cases [where l = l and keys = keys] by simp
  then have get: "key \<in> set keys \<Longrightarrow> merkle_get env l root key s = get_loop env l s key root 0 0" for key
    using True by (simp add: merkle_get_def)
  have "cache_ok env l s []" by (simp add: cache_ok_def)
  from get_each_get [OF this, where root = root and keys = keys] show ?thesis
    using True assms get by (auto simp: merkle_get_many_def split: sum.splits prod.splits cong: map_cong)
next
  case False
  show ?thesis
  proof (cases "limits_validate l = Inr l")
    case True
    then obtain e key where "validate_keys l keys = Inl e" "key \<in> set keys" "validate_key l key = Inl e"
      using False validate_keys_cases [where l = l and keys = keys] by (cases "validate_keys l keys") auto
    then show ?thesis using True assms by (auto simp: merkle_get_many_def merkle_get_def)
  next
    case False
    then have "limits_validate l = Inl InvalidLimits" by (simp add: limits_validate_def split: if_splits)
    then show ?thesis by (simp add: merkle_get_many_def)
  qed
qed
section \<open>Scans\<close>

lemma key_matches_cursor [simp]: "key_matches (q\<lparr>sq_cursor := x\<rparr>) = key_matches q"
  by (intro ext) (simp add: key_matches_def)

lemma scan_validate_cursor [simp]: "scan_validate l (q\<lparr>sq_cursor := x\<rparr>) = scan_validate l q"
  by (simp add: scan_validate_def cong: sum.case_cong if_cong)

text \<open>
  C11. A scan of a root that represents a map gives the entries that match the query, in key order
  and up to the limit. The page carries a cursor exactly when entries are left, and the scan
  with that cursor gives the entries that follow: pages neither skip nor repeat entries. The
  limits have to admit two nodes per entry and the longest key.
\<close>

theorem merkle_scan_pages:
  assumes "env_laws env" "represents env l s root (map_of es)" "sorted_wrt (<) (map fst es)" "2 * length es \<le> ml_max_scan_nodes l"
    "\<forall>x \<in> set es. length (fst x) \<le> ml_max_depth l" "scan_validate l q = Inr ()" "scan_after env root q = Inr after"
    "found = filter (\<lambda>x. key_matches q after (fst x)) es"
  shows "\<exists>page. merkle_scan env l root q s = Inr page \<and> sp_entries page = take (sq_limit q) found \<and>
    (case sp_next_cursor page of
       None \<Rightarrow> length found \<le> sq_limit q
     | Some text \<Rightarrow> sq_limit q < length found \<and>
         (\<exists>next. merkle_scan env l root (q\<lparr>sq_cursor := Some text\<rparr>) s = Inr next \<and>
            sp_entries next = take (sq_limit q) (drop (sq_limit q) found)))"
proof -
  obtain page where page: "merkle_scan env l root q s = Inr page" "sp_entries page = take (sq_limit q) found"
      "sp_next_cursor page = (if sq_limit q < length found then Some (next_cursor env root q (fst (last (take (sq_limit q) found)))) else None)"
    using scan_page [OF assms(1-7)] unfolding assms(8) by blast
  show ?thesis
  proof (cases "sq_limit q < length found")
    case True
    let ?key = "fst (last (take (sq_limit q) found))" let ?q = "q\<lparr>sq_cursor := Some (next_cursor env root q ?key)\<rparr>"
    have lim: "0 < sq_limit q" using assms(6) by (auto simp: scan_validate_def split: sum.splits if_splits)
    have rest: "filter (\<lambda>x. key_matches q (Some ?key) (fst x)) es = drop (sq_limit q) found"
      using scan_resumes [OF assms(3) lim, of q after] True by (simp add: assms(8))
    have "scan_validate l ?q = Inr ()" using assms(6) by simp
    from scan_page [OF assms(1-5) this cursor_resumes [OF assms(1)]]
    have "\<exists>next. merkle_scan env l root ?q s = Inr next \<and> sp_entries next = take (sq_limit q) (drop (sq_limit q) found)"
      using rest by auto
    then show ?thesis using page True by (intro exI [of _ page]) simp
  qed (use page in simp)
qed

section \<open>Validation\<close>


text \<open>The compressed tree of four keys that form a square: both branches end in the same leaves.\<close>

definition square_tree :: "8 word \<Rightarrow> 8 word \<Rightarrow> merkle_value \<Rightarrow> merkle_value rtree" where
  "square_tree a b v =
     (let leaves = [(a, RNode [a] (Some v) []), (b, RNode [b] (Some v) [])]
      in RNode [] None [(a, RNode [a] None leaves), (b, RNode [b] None leaves)])"

lemma square_tree_entries: "a < b \<Longrightarrow> rt_root (square_tree a b v) \<and> t_entries (square_tree a b v) = square_entries a b v"
  by (simp add: square_tree_def square_entries_def rt_root_def Let_def)

text \<open>
  C40. \<open>validate_tree\<close> rejects trees that \<open>build_from_sorted\<close> itself builds: when the keys form a square
  and carry one value, the two branches share their leaf nodes, content addressing stores each
  leaf once, and validation reports an error for a store that holds exactly what was built.
\<close>

theorem merkle_validation_rejects_shared_leaves:
  assumes "env_laws env" "a < b" "merkle_build_from_sorted env l (square_entries a b v) s = (Inr c, s')"
  shows "\<exists>e. merkle_validate_tree env l c s' = Inl e"
proof (rule ccontr)
  assume "\<not> ?thesis"
  then obtain report where "merkle_validate_tree env l c s' = Inr report" by (cases "merkle_validate_tree env l c s'") auto
  then have loop: "validate_loop env l s' [(c, [], 0, True)] [] 0 0 = Inr report"
    by (auto simp: merkle_validate_tree_def split: sum.splits)
  note sq = square_tree_entries [OF assms(2), of v]
  have "represents env l s' c (map_of (square_entries a b v))" using build_represents [OF assms(1,3)] by simp
  then obtain t where t: "rep env l s' c t" "rt_root t" "t_get t = map_of (square_entries a b v)" by (auto simp: represents_def)
  have "t = square_tree a b v"
    using canonical_root [OF t(2), of "square_tree a b v"] t(3) sq get_map_of [of "square_tree a b v"] rt_root_list [of "square_tree a b v"] by simp
  then have "list_all2 (\<lambda>x t. rep env l s' (fst x) t) [(c, [], 0, True)] [square_tree a b v]" using t(1) by simp
  from validate_loop_distinct [OF assms(1) this loop] show False by (simp add: square_tree_def Let_def)
qed

section \<open>Instances\<close>

lemma sample_laws: "env_laws sample_env"
  unfolding env_laws_def using sample_codec sample_store by blast

lemma empty_sample_represents: "represents sample_env merkle_limits_default (snd empty_sample) (fst empty_sample) Map.empty"
  by (rule empty_root_represents [OF sample_laws]) (rule finished_outcome [OF empty_sample_eval, folded empty_sample_def])

lemma limits_default_valid: "limits_validate merkle_limits_default = Inr merkle_limits_default"
  by code_simp

lemmas one_key_batch = finished_outcome [OF one_key_eval, folded one_key_def]

theorem merkle_batch_refines_map_witness:
  "represents sample_env merkle_limits_default (snd (one_key 1)) (fst (one_key 1)) [[5] \<mapsto> sample_value 1]"
  using merkle_batch_refines_map [OF sample_laws empty_sample_represents one_key_batch] by simp

theorem merkle_lookup_total_witness:
  "merkle_get sample_env merkle_limits_default (fst empty_sample) [5] (snd empty_sample) = Inr None"
  using merkle_lookup_total [OF sample_laws empty_sample_represents limits_default_valid, of "[5]"]
  by (simp add: merkle_limits_default_def)

definition other_history :: "cid \<times> blocks" where
  "other_history = outcome (merkle_apply_batch sample_env merkle_limits_default (fst (one_key 2)) [Put [5] (sample_value 1)] (snd (one_key 2)))"

lemma one_key_two: "represents sample_env merkle_limits_default (snd (one_key 2)) (fst (one_key 2)) [[5] \<mapsto> sample_value 2]"
  using batch_represents [OF sample_laws empty_sample_represents finished_outcome [OF other_history_eval(2), folded one_key_def]] by simp

theorem merkle_roots_history_independent_witness: "fst (one_key 1) = fst other_history"
  using merkle_roots_history_independent [OF sample_laws empty_sample_represents one_key_two one_key_batch
      finished_outcome [OF other_history_eval(1), folded other_history_def]] by simp

definition built_one :: "cid \<times> blocks" where
  "built_one = outcome (merkle_build_from_sorted sample_env merkle_limits_default [([5], sample_value 1)] [])"

lemma built_one_eval: "finished (merkle_build_from_sorted sample_env merkle_limits_default [([5], sample_value 1)] [])"
  by code_simp

theorem merkle_build_matches_batches_witness: "fst built_one = fst (one_key 1)"
  using merkle_build_matches_batches [OF sample_laws finished_outcome [OF built_one_eval, folded built_one_def]
      empty_sample_represents one_key_batch] by simp

theorem merkle_get_many_matches_get_witness:
  "case merkle_get_many sample_env merkle_limits_default (fst built_one) [[5], [6]] (snd built_one) of
      Inl e \<Rightarrow> limits_validate merkle_limits_default = Inl e \<or>
        (\<exists>key. key \<in> set [[5], [6]] \<and> merkle_get sample_env merkle_limits_default (fst built_one) key (snd built_one) = Inl e)
    | Inr (vs, n) \<Rightarrow>
        map (\<lambda>key. merkle_get sample_env merkle_limits_default (fst built_one) key (snd built_one)) [[5], [6]] = map Inr vs"
  by (rule merkle_get_many_matches_get) (simp add: merkle_limits_default_def)

definition built_two :: "cid \<times> blocks" where
  "built_two = outcome (merkle_build_from_sorted sample_env merkle_limits_default sample_entries [])"

lemma built_two_represents: "represents sample_env merkle_limits_default (snd built_two) (fst built_two) (map_of sample_entries)"
  using build_represents [OF sample_laws finished_outcome [OF sample_entries_eval, folded built_two_def]] by simp

definition one_by_one :: scan_query where
  "one_by_one = \<lparr>sq_start = None, sq_end = None, sq_prefix = None, sq_limit = 1, sq_cursor = None\<rparr>"

theorem merkle_scan_pages_witness:
  "\<exists>page. merkle_scan sample_env merkle_limits_default (fst built_two) one_by_one (snd built_two) = Inr page \<and>
     sp_entries page = [([1, 9], sample_value 1)] \<and> sp_next_cursor page \<noteq> None"
proof -
  have q: "scan_validate merkle_limits_default one_by_one = Inr ()" by code_simp
  have after: "scan_after sample_env (fst built_two) one_by_one = Inr None" by (simp add: scan_after_def one_by_one_def)
  have es: "sorted_wrt (<) (map fst sample_entries)" "2 * length sample_entries \<le> ml_max_scan_nodes merkle_limits_default"
      "\<forall>x \<in> set sample_entries. length (fst x) \<le> ml_max_depth merkle_limits_default"
    by (simp_all add: sample_entries_def merkle_limits_default_def)
  have all: "sample_entries = filter (\<lambda>x. key_matches one_by_one None (fst x)) sample_entries"
    by (simp add: sample_entries_def key_matches_def one_by_one_def)
  show ?thesis
    using merkle_scan_pages [OF sample_laws built_two_represents es q after all]
    by (auto simp: sample_entries_def one_by_one_def split: option.splits)
qed

definition accepted :: "merkle_error + validation_report \<Rightarrow> bool" where
  "accepted r = (case r of Inl _ \<Rightarrow> False | Inr _ \<Rightarrow> True)"

lemma built_one_accepted: "accepted (merkle_validate_tree sample_env merkle_limits_default (fst built_one) (snd built_one))"
  by code_simp

lemma built_one_blocks: "snd built_one = [(fst built_one, enc_node (node_new sample_env [5] (Some (sample_value 1)) []))]"
  by code_simp

lemma one_block_canonical: "canonical_hex sample_env l [(c, enc_node (node_new sample_env p v cs))]"
  unfolding canonical_hex_def
proof (intro allI impI)
  fix d n assume "load_node sample_env l [(c, enc_node (node_new sample_env p v cs))] d = Inr n"
  then have "enc_node (node_new sample_env p v cs) = enc_node n"
    by (auto dest!: load_nodeD(3) simp: sample_env_def blocks_get_def split: option.splits if_splits)
  then have "node_new sample_env p v cs = n" using sample_codec(2) by (metis sum.inject(2) sample_env_def merkle_env.select_convs(4))
  then show "\<exists>p. mn_prefix_hex n = me_hex sample_env p" by (auto simp: node_new_def)
qed


definition built_square :: "cid \<times> blocks" where
  "built_square = outcome (merkle_build_from_sorted sample_env merkle_limits_default (square_entries 1 2 (sample_value 1)) [])"

theorem merkle_validation_rejects_shared_leaves_witness:
  "\<exists>e. merkle_validate_tree sample_env merkle_limits_default (fst built_square) (snd built_square) = Inl e"
  by (rule merkle_validation_rejects_shared_leaves [OF sample_laws _ finished_outcome [OF square_entries_eval, folded built_square_def]]) simp

text \<open>
  Validation does not settle the canonical form: a prefix in upper-case hexadecimal and an empty
  root with a prefix are accepted, so one map has several accepted roots.
\<close>

definition single :: "merkle_node \<Rightarrow> cid \<times> blocks" where
  "single n = (let c = cid_new plain_hash codec_merkle_node (enc_node n) in (c, [(c, enc_node n)]))"

lemma upper_case_prefix_accepted:
  "let n = node_new sample_env [10] (Some (sample_value 1)) []; a = single n; b = single (n\<lparr>mn_prefix_hex := ''0A''\<rparr>)
   in fst a \<noteq> fst b \<and> accepted (merkle_validate_tree sample_env merkle_limits_default (fst a) (snd a)) \<and>
      accepted (merkle_validate_tree sample_env merkle_limits_default (fst b) (snd b))"
  by code_simp

lemma prefixed_empty_root_accepted:
  "let a = single (node_new sample_env [] None []); b = single (node_new sample_env [10] None [])
   in fst a \<noteq> fst b \<and> accepted (merkle_validate_tree sample_env merkle_limits_default (fst a) (snd a)) \<and>
      accepted (merkle_validate_tree sample_env merkle_limits_default (fst b) (snd b))"
  by code_simp

end
