(* ===== verification/Spec2Isabelle.thy ===== *)
theory Spec2Isabelle
  imports Partition_Runs Client_Models Group_Shards Transaction_Recovery Extent_Tail Merkle_Properties
begin

text \<open>
  Verification library of the pepper data mesh, a Rust workspace under \<open>src/crates\<close>.

  \<^bold>\<open>The program.\<close> Pepper stores content and hosts services on top of it. The parts modelled here
  are those that decide what is durable, ordered and visible:

  \<^item> the executable design model of its Kafka service (\<open>pepper-kafka-model/src/lib.rs\<close>): a
    replicated partition, an idempotent producer, a consumer group and a transaction;
  \<^item> the host of replicated state machines (\<open>pepper-rsm/src/lib.rs\<close>): group identities and storage
    keys, the deterministic host, the registry, the read gate and the lazy batcher;
  \<^item> the Kafka group coordinator (\<open>pepper-kafka/src/groups.rs\<close>): the group machine, which is one of
    the state machines above, and the sharded, persistent coordinator around it;
  \<^item> the Kafka transaction coordinator (\<open>pepper-kafka/src/transactions.rs\<close>);
  \<^item> owned buffers, buffer chains and the atomic byte budget (\<open>pepper-buffer/src/lib.rs\<close>);
  \<^item> the extent store (\<open>pepper-extent/src/lib.rs\<close>), whose payloads are buffer chains;
  \<^item> the persistent Merkle map (\<open>pepper-merkle/src/lib.rs\<close>), whose roots and nodes are blocks named
    by the content identifiers of \<open>pepper-types/src/lib.rs\<close>.

  \<^bold>\<open>Conventions.\<close> Unsigned integers are naturals. Where the code may overflow, the operation is
  written with its width (\<open>wrapping_add\<close>, \<open>checked_add\<close>, \<open>saturating_add\<close> of \<open>Prelude\<close>); sums of
  file offsets and record counts are exact, and the theorems that need it assume them below
  \<open>2 ^ 64\<close>. Signed integers are \<open>int\<close> with saturation where the code saturates. Bytes are
  \<open>8 word\<close>. A \<open>BTreeMap\<close> is a sorted association list, a \<open>BTreeSet\<close> a strictly sorted list. An
  operation that fails returns \<open>Inl\<close> of its error; one that may change the state before it fails
  returns the result and the state. Third-party code is a parameter with its documented laws:
  \<open>crc32c\<close> (\<open>crc_laws\<close>), \<open>blake3\<close> (\<open>hash_laws\<close>), \<open>serde_json\<close>, \<open>hex\<close> and the block store of the
  Merkle map (\<open>env_laws\<close>), the decoder of Kafka assignments, the clock, and the outcome of file operations (\<open>io_outcome\<close>: done, failed before or failed after
  the effect; \<open>media_outcome\<close>: written and durable, torn after some bytes, or barrier failed).
  Asynchronous code is modelled with one step per critical section or atomic operation, and the
  theorems quantify over all interleavings of the steps.

  \<^bold>\<open>Theories.\<close>

  \<^item> \<open>Prelude\<close>: the library of shared definitions and lemmas (machine arithmetic, ordered maps and
    sets, byte fields and slices, iterator operations) and two interfaces as locales,
    \<open>invariant_system\<close> (a step relation that keeps an invariant) and \<open>monotone_system\<close> (runs that
    never lose an observation).
  \<^item> \<open>Partition_Model\<close> holds \<open>PartitionModel\<close>: \<open>partition_new\<close>, \<open>pm_elect\<close>, \<open>pm_append\<close>,
    \<open>pm_replicate\<close>, \<open>pm_commit\<close>, \<open>pm_propagate_commit\<close> and \<open>pm_check_invariants\<close>, each with the state
    its errors leave. \<open>Partition_Safety\<close> proves the invariant of the protocol step by step and
    \<open>Partition_Runs\<close> lifts it to all runs: committed values never change, they are on a quorum,
    and every elected leader has them.
  \<^item> \<open>Client_Models\<close> holds \<open>ProducerState\<close>, \<open>GroupModel\<close> and \<open>TransactionModel\<close> with their theorems:
    retries are duplicates, accepted sequences tile, visibility needs every commit marker.
  \<^item> \<open>Rsm\<close> holds \<open>pepper-rsm\<close>. The locale \<open>state_machine\<close> is the trait a product implements. The read
    gate and the batcher are step relations with one program counter per task: every reader is
    covered by a barrier that started after it arrived, every submitted job is answered exactly
    once, and a batch is all or nothing.
  \<^item> \<open>Group_Coordinator\<close> holds the group machine, command by command, \<open>Group_Safety\<close> its invariant
    (assignments of a stable generation are exclusive, membership changes fence the generation,
    commands never panic), and \<open>Group_Shards\<close> the coordinator: persistence, restart, expiry.
  \<^item> \<open>Transactions\<close> holds the transaction coordinator and the text codec of partition keys,
    \<open>Transaction_Isolation\<close> the invariant that open data stays above the last stable offset and
    aborted data is reported, \<open>Transaction_Recovery\<close> retries, recovery and flushing.
  \<^item> \<open>Buffers\<close> holds \<open>OwnedBuffer\<close>, \<open>BufferChain\<close> and \<open>AtomicByteBudget\<close>: slicing a chain is slicing
    its bytes, and the budget is exact under every interleaving of its threads.
  \<^item> \<open>Extent_Format\<close> holds the headers on disk and their round trip; \<open>Extent_Store\<close> the operations of
    \<open>FileExtentStore\<close> on the bytes of each file and the index kept of it, with the recovery scan as
    a terminating function; \<open>Extent_Recovery\<close> what that scan makes of whole and of torn batches.
    \<open>Extent_Log\<close> states the contract of an extent as the locale \<open>record_log\<close>, shows that the store
    provides it, and proves the refinement of a log of whole appends, reads after appends,
    sealing, truncation, and soundness and termination of recovery on arbitrary bytes.
    \<open>Extent_Tail\<close> shows what failed operations leave behind.
  \<^item> \<open>Radix_Tree\<close> is the reference for the Merkle map: compressed radix trees, their meaning as maps,
    and that a map has one compressed tree. \<open>Merkle_Map\<close> holds the operations of the code, which
    read and write encoded nodes in a store. \<open>Merkle_Refinement\<close> relates stored nodes to trees
    (\<open>rep\<close>) and shows that \<open>get\<close>, \<open>insert_at\<close>, \<open>delete_at\<close> and \<open>normalize_and_store\<close> implement the
    operations on trees. \<open>Merkle_Versions\<close> states the contract of a persistent map as the locale
    \<open>versioned_map\<close> and shows that batches provide it, and treats bulk construction and bulk
    lookup; \<open>Merkle_Scan\<close> treats scans, cursors and validation. \<open>Merkle_Sample\<close> is a concrete
    environment that satisfies the laws. \<open>Merkle_Properties\<close> has the theorems: batches refine map
    updates and keep old roots, lookups are total, equal maps have equal roots, scans page
    through the entries in order, and a validated root is a map.

  \<^bold>\<open>Bounds and fuel.\<close> No definition of the model uses fuel: \<open>scan_loop\<close> terminates because every
  step moves the offset by a block, the walks of the Merkle map because the code bounds their depth
  or the nodes they read, and \<open>scan_steps\<close> exists to state how many steps it takes, one
  for each block of the file. The number of replicas, members, producers, threads and records is
  arbitrary. Sample configurations (a block size of 128 bytes, a checksum that sums the bytes, a
  constant digest) occur in concrete instances only.

  \<^bold>\<open>Divergences.\<close> The development proves concrete runs in which the code does not do what it means
  to: in the design model (a propagated commit that breaks its own invariant, a producer sequence
  that overflows, a leave at the last generation), in the transaction coordinator (re-initialising
  a producer exposes open data, an abort misses an append in flight, recovery aborts a committed
  batch, an interrupted import loses producers, the epoch saturates) and in the storage layer (a
  failed push breaks the lengths of a chain, an identifier that is written and cannot be read,
  bytes of a failed append that come back as records, a failed truncation that loses later
  appends) and in the Merkle map (validation rejects trees whose branches share nodes, and accepts
  two roots for one map). Each stands beside the operation it concerns.

  \<^bold>\<open>Not modelled.\<close> Of \<open>pepper-extent\<close>: replacing a sealed extent through intent files, the directory
  scan of \<open>open\<close>, and metrics. Of \<open>pepper-buffer\<close>: the semaphore budget with timed waits and
  \<open>RecordBatch\<close>. Of \<open>pepper-merkle\<close>: counters of node reads and writes and the sharing ratio, a
  floating-point statistic. Of \<open>pepper-kafka\<close>: the broker, its controller, compaction and tiering, which are
  asynchronous request handling over the network. The remaining crates are either I/O (\<open>agent\<close>,
  \<open>network\<close>, \<open>storage\<close>, \<open>cli\<close>, \<open>metadata\<close>, \<open>guest-agent\<close>, \<open>sqlite-vfs\<close>), wrappers of third-party
  libraries (\<open>consensus\<close>, \<open>crypto\<close>), data types and configuration (\<open>types\<close>, \<open>config\<close>, \<open>bucket\<close>,
  \<open>dataset\<close>, \<open>compute\<close>, \<open>observability\<close>), or components that build on those modelled here and
  are not covered yet (\<open>ordered-log\<close>, \<open>namespace\<close>, \<open>placement\<close>, \<open>dag\<close>, \<open>commit\<close>,
  \<open>publication\<close>, \<open>keyed-runtime\<close>, \<open>durability\<close>, \<open>filesystem\<close>, \<open>sqlite\<close>).
\<close>

end
